(* ===== verification/TDB_Prelude.thy ===== *)
theory TDB_Prelude
  imports Main "HOL-Library.Word" "HOL-Library.List_Lexorder" "HOL-Library.Sublist"
begin

text \<open>
  What the component theories share: byte strings and their \<open>memcmp\<close> order, little- and
  big-endian numerals, and the interfaces the components are proved against.

  \<^item> \<open>bytes\<close> are lists of 8-bit words; \<open><\<close> on them is the order of the engine's default
    comparator (unsigned bytes, a proper prefix first).
  \<^item> \<open>be_val\<close>/\<open>be_bytes\<close> and \<open>le_val\<close>/\<open>le_bytes\<close> are the reference numerals; every hand
    written encoder of the plugin is proved equal to one of them.
  \<^item> \<open>byte_codec\<close>, \<open>fixed_codec\<close> and \<open>ordered_codec\<close> are the contracts of an encoder and
    its decoder, \<open>transition_system\<close> that of a component that runs as a state machine.
\<close>

unbundle bit_operations_syntax

named_theorems codec_simps "unfolding rules of the byte level encoders and decoders"
named_theorems len_simps "lengths of encodings"

type_synonym byte = "8 word"
type_synonym bytes = "byte list"
type_synonym u16 = "16 word"
type_synonym u32 = "32 word"
type_synonym u64 = "64 word"

text \<open>The bytes of a string literal.\<close>

definition str :: "string \<Rightarrow> bytes" where "str s = map (\<lambda>c. word_of_nat (of_char c)) s"

section \<open>Numerals as byte strings\<close>

fun be_val :: "bytes \<Rightarrow> nat" where
  "be_val [] = 0"
| "be_val (b # bs) = unat b * 256 ^ length bs + be_val bs"

primrec be_bytes :: "nat \<Rightarrow> nat \<Rightarrow> bytes" where
  "be_bytes 0 n = []"
| "be_bytes (Suc k) n = be_bytes k (n div 256) @ [word_of_nat n]"

fun le_val :: "bytes \<Rightarrow> nat" where
  "le_val [] = 0"
| "le_val (b # bs) = unat b + 256 * le_val bs"

primrec le_bytes :: "nat \<Rightarrow> nat \<Rightarrow> bytes" where
  "le_bytes 0 n = []"
| "le_bytes (Suc k) n = word_of_nat n # le_bytes k (n div 256)"

lemma length_be_bytes [simp, len_simps]: "length (be_bytes k n) = k"
  by (induction k arbitrary: n) auto

lemma length_le_bytes [simp, len_simps]: "length (le_bytes k n) = k"
  by (induction k arbitrary: n) auto

lemma be_bytes_numeral:
  "be_bytes (numeral k) n = be_bytes (pred_numeral k) (n div 256) @ [word_of_nat n]"
  by (subst numeral_eq_Suc) simp

lemma le_bytes_numeral:
  "le_bytes (numeral k) n = word_of_nat n # le_bytes (pred_numeral k) (n div 256)"
  by (subst numeral_eq_Suc) simp

lemma numeral_le_lengthD: "numeral k \<le> length xs \<Longrightarrow> Suc (pred_numeral k) \<le> length xs"
  by (simp add: numeral_eq_Suc)

lemma unat_byte_lt [simp]: "unat (b :: byte) < 256"
  using unsigned_less [of b, where ?'a = nat] by simp

lemma unat_byte_of_nat [simp]: "unat (word_of_nat n :: byte) = n mod 256"
  by (simp add: unat_of_nat)

lemma mod_div_radix:
  fixes n m :: nat
  shows "m * (n div m mod q) + n mod m = n mod (m * q)"
  by (metis mod_mult2_eq)

lemma be_val_append: "be_val (xs @ ys) = be_val xs * 256 ^ length ys + be_val ys"
  by (induction xs) (auto simp: power_add algebra_simps)

lemma be_val_be_bytes: "be_val (be_bytes k n) = n mod 256 ^ k"
proof (induction k arbitrary: n)
  case (Suc k)
  have "be_val (be_bytes (Suc k) n) = 256 * (n div 256 mod 256 ^ k) + n mod 256"
    by (simp add: be_val_append Suc)
  also have "\<dots> = n mod (256 * 256 ^ k)"
    by (rule mod_div_radix)
  finally show ?case by simp
qed simp

lemma le_val_le_bytes: "le_val (le_bytes k n) = n mod 256 ^ k"
proof (induction k arbitrary: n)
  case (Suc k)
  have "le_val (le_bytes (Suc k) n) = 256 * (n div 256 mod 256 ^ k) + n mod 256"
    by (simp add: Suc)
  also have "\<dots> = n mod (256 * 256 ^ k)"
    by (rule mod_div_radix)
  finally show ?case by simp
qed simp

lemma be_val_bound: "be_val bs < 256 ^ length bs"
proof (induction bs)
  case (Cons b bs)
  have "unat b * 256 ^ length bs + be_val bs < (unat b + 1) * 256 ^ length bs"
    using Cons by simp
  also have "\<dots> \<le> 256 * 256 ^ length bs"
    using unat_byte_lt [of b] by (intro mult_le_mono1) linarith
  finally show ?case by simp
qed simp

lemma le_val_bound: "le_val bs < 256 ^ length bs"
proof (induction bs)
  case (Cons b bs)
  have "unat b + 256 * le_val bs < 256 * (le_val bs + 1)"
    using unat_byte_lt [of b] by simp
  also have "\<dots> \<le> 256 * 256 ^ length bs"
    using Cons by (intro mult_le_mono2) linarith
  finally show ?case by simp
qed simp

lemma le_bytes_le_val [simp]: "le_bytes (length bs) (le_val bs) = bs"
proof (induction bs)
  case (Cons b bs)
  have "unat (word_of_nat (unat b + 256 * le_val bs) :: byte) = unat b"
    by (simp only: unat_byte_of_nat) simp
  then have "(word_of_nat (unat b + 256 * le_val bs) :: byte) = b"
    by (simp only: word_unat_eq_iff)
  then show ?case using Cons by (simp del: of_nat_add of_nat_mult)
qed simp

text \<open>On strings of one length, the comparator's order is the numeric order of the
  big-endian values.\<close>

lemma be_val_less_iff:
  "length xs = length ys \<Longrightarrow> xs < ys \<longleftrightarrow> be_val xs < be_val ys"
proof (induction xs ys rule: list_induct2)
  case (Cons x xs y ys)
  have bx: "be_val xs < 256 ^ length ys" and bys: "be_val ys < 256 ^ length ys"
    using be_val_bound [of xs] be_val_bound [of ys] Cons.hyps by auto
  have lt: "unat a * 256 ^ length ys + p < unat b * 256 ^ length ys + q"
    if "a < b" "p < 256 ^ length ys" for a b :: byte and p q :: nat
  proof -
    have "Suc (unat a) \<le> unat b" using that by (simp add: word_less_nat_alt)
    then have "Suc (unat a) * 256 ^ length ys \<le> unat b * 256 ^ length ys"
      by (rule mult_le_mono1)
    then show ?thesis using that(2) by simp
  qed
  show ?case
    using lt [of x y "be_val xs" "be_val ys"] lt [of y x "be_val ys" "be_val xs"] bx bys Cons
    by (cases x y rule: linorder_cases) auto
qed simp

lemma be_val_inj: "length xs = length ys \<Longrightarrow> be_val xs = be_val ys \<Longrightarrow> xs = ys"
  using be_val_less_iff [of xs ys] be_val_less_iff [of ys xs] by (metis less_irrefl neqE)

lemma be_bytes_be_val [simp]: "be_bytes (length bs) (be_val bs) = bs"
  by (rule be_val_inj) (simp_all add: be_val_be_bytes be_val_bound)

lemma append_less_same_length:
  fixes xs ys :: bytes
  assumes "length xs = length ys"
  shows "xs @ us < ys @ vs \<longleftrightarrow> xs < ys \<or> (xs = ys \<and> us < vs)"
  using assms by (induction xs ys rule: list_induct2) auto

section \<open>Words as byte strings\<close>

lemma shift_or_byte:
  fixes a :: "'a::len word"
  assumes "8 \<le> LENGTH('a)"
  shows "push_bit 8 a OR ucast (b :: byte) = a * 256 + ucast b"
proof -
  have "push_bit 8 a AND ucast b = 0"
    by (rule bit_word_eqI) (auto simp: bit_simps dest: bit_imp_le_length)
  then have "push_bit 8 a OR ucast b = push_bit 8 a + ucast b"
    by (simp add: disjunctive_add_eq_or)
  then show ?thesis by (simp add: push_bit_eq_mult mult.commute)
qed

lemma bit_word_ff: "bit (0xff :: 'a::len word) n \<longleftrightarrow> n < LENGTH('a) \<and> n < 8"
proof -
  have "(0xff :: 'a word) = mask 8" by (simp add: mask_eq_exp_minus_1)
  then show ?thesis by (simp only: bit_mask_iff) auto
qed

text \<open>The decoder loop \<open>id = (id << 8) | buf[i]\<close>.\<close>

definition be_fold :: "'a::len word \<Rightarrow> bytes \<Rightarrow> 'a word" where
  "be_fold acc bs = foldl (\<lambda>id b. push_bit 8 id OR ucast b) acc bs"

lemma be_fold_eq:
  fixes acc :: "'a::len word"
  assumes "8 \<le> LENGTH('a)"
  shows "be_fold acc bs = acc * 256 ^ length bs + word_of_nat (be_val bs)"
proof (induction bs arbitrary: acc)
  case (Cons b bs)
  have "be_fold acc (b # bs) = be_fold (acc * 256 + ucast b) bs"
    by (simp add: be_fold_def shift_or_byte [OF assms])
  also have "\<dots> = (acc * 256 + ucast b) * 256 ^ length bs + word_of_nat (be_val bs)"
    by (rule Cons)
  finally show ?case by (simp add: algebra_simps)
qed (simp add: be_fold_def)

lemma be_fold_0:
  assumes "8 \<le> LENGTH('a::len)"
  shows "be_fold (0 :: 'a word) bs = word_of_nat (be_val bs)"
  by (simp add: be_fold_eq [OF assms])

text \<open>The encoder loop \<open>buf[i] = id >> ((k - 1 - i) * 8)\<close>.\<close>

definition be_loop :: "nat \<Rightarrow> 'a::len word \<Rightarrow> bytes" where
  "be_loop k w = map (\<lambda>i. ucast (drop_bit ((k - 1 - i) * 8) w)) [0..<k]"

lemma ucast_drop_bit_byte:
  "(ucast (drop_bit (k * 8) (w :: 'a::len word)) :: byte) = word_of_nat (unat w div 256 ^ k)"
proof -
  have "unat (drop_bit (k * 8) w) = unat w div 2 ^ (k * 8)"
    by (simp only: unat_drop_bit_eq) (simp add: drop_bit_eq_div)
  moreover have "(2 :: nat) ^ (k * 8) = 256 ^ k"
    by (simp add: power_mult mult.commute [of k])
  moreover have "(ucast (drop_bit (k * 8) w) :: byte) = word_of_nat (unat (drop_bit (k * 8) w))"
    by simp
  ultimately show ?thesis by simp
qed

lemma be_bytes_eq_map:
  "be_bytes k n = map (\<lambda>i. word_of_nat (n div 256 ^ (k - 1 - i))) [0..<k]"
proof (induction k arbitrary: n)
  case (Suc k)
  have "n div 256 div 256 ^ (k - 1 - i) = n div 256 ^ (k - i)" if "i < k" for i
  proof -
    have "k - i = Suc (k - 1 - i)" using that by simp
    then show ?thesis by (simp add: div_mult2_eq)
  qed
  then show ?case by (simp add: Suc)
qed simp

lemma be_loop_eq [codec_simps]: "be_loop k w = be_bytes k (unat w)"
  by (simp only: be_loop_def be_bytes_eq_map ucast_drop_bit_byte)

lemma be_fold_be_loop:
  assumes "LENGTH('a::len) = 8 * k" "0 < k"
  shows "be_fold 0 (be_loop k (w :: 'a word)) = w"
proof -
  have "(256 :: nat) ^ k = 2 ^ LENGTH('a)"
    by (simp add: assms(1) power_mult)
  then have "unat w mod 256 ^ k = unat w"
    using unsigned_less [of w, where ?'a = nat] by simp
  then show ?thesis
    using assms by (simp add: be_fold_0 be_loop_eq be_val_be_bytes)
qed

lemma be_loop_be_fold:
  assumes "LENGTH('a::len) = 8 * k" "0 < k" "length bs = k"
  shows "be_loop k (be_fold (0 :: 'a word) bs) = bs"
proof -
  have "(256 :: nat) ^ k = 2 ^ LENGTH('a)"
    by (simp add: assms(1) power_mult)
  then have "be_val bs < 2 ^ LENGTH('a)"
    using be_val_bound [of bs] assms(3) by simp
  then have "unat (word_of_nat (be_val bs) :: 'a word) = be_val bs"
    by (simp add: unat_of_nat)
  then show ?thesis
    using assms be_bytes_be_val [of bs] by (simp add: be_fold_0 be_loop_eq)
qed

lemma be_bytes_less_iff:
  assumes "m < 256 ^ k" "n < 256 ^ k"
  shows "be_bytes k m < be_bytes k n \<longleftrightarrow> m < n"
  using assms by (simp add: be_val_less_iff be_val_be_bytes)

lemma be_loop_less_iff:
  assumes "LENGTH('a::len) = 8 * k"
  shows "be_loop k (v :: 'a word) < be_loop k w \<longleftrightarrow> v < w"
proof -
  have "(256 :: nat) ^ k = 2 ^ LENGTH('a)"
    by (simp add: assms power_mult)
  then have "unat v < 256 ^ k" "unat w < 256 ^ k"
    using unsigned_less [of v, where ?'a = nat] unsigned_less [of w, where ?'a = nat] by auto
  then show ?thesis by (simp add: be_loop_eq be_bytes_less_iff word_less_nat_alt)
qed

section \<open>Interfaces\<close>

text \<open>An encoder with a decoder that inverts it on the valid values.\<close>

locale byte_codec =
  fixes enc :: "'a \<Rightarrow> bytes"
    and dec :: "bytes \<Rightarrow> 'a option"
    and ok :: "'a \<Rightarrow> bool"
  assumes dec_enc: "ok x \<Longrightarrow> dec (enc x) = Some x"
begin

lemma enc_inj: "ok x \<Longrightarrow> ok y \<Longrightarrow> enc x = enc y \<Longrightarrow> x = y"
  by (metis dec_enc option.inject)

lemma inj_on_enc: "inj_on enc {x. ok x}"
  by (rule inj_onI) (auto intro: enc_inj)

end

text \<open>All valid values have encodings of one width, so an encoding followed by anything
  can be split off again.\<close>

locale fixed_codec = byte_codec +
  fixes width :: nat
  assumes length_enc: "ok x \<Longrightarrow> length (enc x) = width"
begin

lemma enc_split: "ok x \<Longrightarrow> ok y \<Longrightarrow> enc x @ s = enc y @ t \<Longrightarrow> x = y \<and> s = t"
  by (metis append_eq_append_conv enc_inj length_enc)

lemma prefix_enc_iff: "ok x \<Longrightarrow> ok y \<Longrightarrow> prefix (enc x) (enc y @ t) \<longleftrightarrow> x = y"
  by (auto simp: prefix_def dest: enc_split)

end

text \<open>The comparator orders the encodings as the values are ordered; a key that starts
  with such an encoding is sorted by the value first and by the rest second.\<close>

locale ordered_codec =
  fixes enc :: "'a::linorder \<Rightarrow> bytes"
    and ok :: "'a \<Rightarrow> bool"
    and width :: nat
  assumes ord_length: "ok x \<Longrightarrow> length (enc x) = width"
    and ord_less: "ok x \<Longrightarrow> ok y \<Longrightarrow> enc x < enc y \<longleftrightarrow> x < y"
begin

lemma ord_eq: "ok x \<Longrightarrow> ok y \<Longrightarrow> enc x = enc y \<longleftrightarrow> x = y"
  by (metis ord_less less_irrefl neqE)

lemma composite_less:
  "ok x \<Longrightarrow> ok y \<Longrightarrow> enc x @ s < enc y @ t \<longleftrightarrow> x < y \<or> (x = y \<and> s < t)"
  by (simp add: append_less_same_length ord_length ord_less ord_eq)

lemma seek_le: "ok x \<Longrightarrow> ok y \<Longrightarrow> enc x \<le> enc y @ t \<longleftrightarrow> x \<le> y"
  using composite_less [of y x t "[]"] by (simp flip: not_less)

end

text \<open>The keys with a prefix are an interval of the order.\<close>

lemma between_prefix: "p \<le> k \<Longrightarrow> k \<le> p @ z \<Longrightarrow> prefix p (k :: 'a::linorder list)"
proof (induction p arbitrary: k)
  case (Cons a p)
  then show ?case by (cases k) (auto simp: Cons_le_Cons)
qed simp

lemma le_append_self: "p \<le> p @ (z :: 'a::linorder list)"
  by (induction p) simp_all

lemma prefix_le: "prefix p k \<Longrightarrow> p \<le> (k :: 'a::linorder list)"
  by (auto simp: prefix_def le_append_self)

text \<open>Seeking to a prefix and reading while it matches finds all the entries with the prefix.\<close>

lemma prefix_scan:
  fixes p :: "'a::linorder list"
  assumes "sorted (map fst ix)"
  shows "takeWhile (\<lambda>e. prefix p (fst e)) (dropWhile (\<lambda>e. fst e < p) ix) = filter (\<lambda>e. prefix p (fst e)) ix"
  using assms
proof (induction ix)
  case (Cons e ix)
  have ih: "takeWhile (\<lambda>e. prefix p (fst e)) (dropWhile (\<lambda>e. fst e < p) ix) = filter (\<lambda>e. prefix p (fst e)) ix"
    using Cons by simp
  consider "fst e < p" | "p \<le> fst e" "prefix p (fst e)" | "p \<le> fst e" "\<not> prefix p (fst e)" by fastforce
  then show ?case
  proof cases
    case 1
    then show ?thesis using ih prefix_le [of p "fst e"] by auto
  next
    case 2
    then have "dropWhile (\<lambda>e. fst e < p) ix = ix"
      using Cons.prems by (cases ix) (auto dest: order_trans)
    then show ?thesis using ih 2 by (simp add: not_less)
  next
    case 3
    have "\<not> prefix p (fst e')" if "e' \<in> set ix" for e'
      using 3 that Cons.prems between_prefix [of p "fst e"] by (fastforce simp: prefix_def)
    then show ?thesis using 3 by (simp add: not_less filter_empty_conv)
  qed
qed simp

lemma prefix_take_iff: "prefix p k \<longleftrightarrow> \<not> (length k < length p \<or> take (length p) k \<noteq> p)"
  by (auto simp: prefix_def) (metis append_take_drop_id)

text \<open>Runs of a component as a state machine.\<close>

inductive reachable :: "('s \<Rightarrow> bool) \<Rightarrow> ('s \<Rightarrow> 's \<Rightarrow> bool) \<Rightarrow> 's \<Rightarrow> bool"
  for init :: "'s \<Rightarrow> bool" and step :: "'s \<Rightarrow> 's \<Rightarrow> bool" where
  reachable_init: "init s \<Longrightarrow> reachable init step s"
| reachable_step: "reachable init step s \<Longrightarrow> step s t \<Longrightarrow> reachable init step t"

locale transition_system =
  fixes init :: "'s \<Rightarrow> bool"
    and step :: "'s \<Rightarrow> 's \<Rightarrow> bool"
    and inv :: "'s \<Rightarrow> bool"
  assumes inv_init: "init s \<Longrightarrow> inv s"
    and inv_step: "inv s \<Longrightarrow> step s t \<Longrightarrow> inv t"
begin

lemma reachable_inv: "reachable init step s \<Longrightarrow> inv s"
  by (induction rule: reachable.induct) (auto intro: inv_init inv_step)

lemma steps_inv: "step\<^sup>*\<^sup>* s t \<Longrightarrow> inv s \<Longrightarrow> inv t"
  by (induction rule: rtranclp_induct) (auto intro: inv_step)

end

end
