(* ===== verification/Errors.thy ===== *)
theory Errors
  imports TDB_Prelude
begin

text \<open>
  The two error vocabularies of the plugin and the code between them: the engine's result
  codes, the handler error codes the server sees, \<open>tdb_rc_to_ha\<close> (\<open>ha_tidesdb.cc\<close>) and the
  bounded read retry \<open>tdb_retry_transient\<close> (\<open>tidesdb_retry.h\<close>). The numeric values of both
  sets of codes are defined by the server and by the engine library; here they are
  constructors, with \<open>TDB_OTHER\<close> for a code the plugin's \<open>switch\<close> does not name.
\<close>

section \<open>Definitions\<close>

datatype tdb_rc =
    TDB_SUCCESS | TDB_ERR_MEMORY | TDB_ERR_INVALID_ARGS | TDB_ERR_NOT_FOUND | TDB_ERR_IO
  | TDB_ERR_CORRUPTION | TDB_ERR_EXISTS | TDB_ERR_CONFLICT | TDB_ERR_TOO_LARGE
  | TDB_ERR_MEMORY_LIMIT | TDB_ERR_INVALID_DB | TDB_ERR_LOCKED | TDB_ERR_READONLY
  | TDB_ERR_TXN_EXPIRED | TDB_ERR_TXN_ABORTED | TDB_ERR_TOO_OLD | TDB_ERR_NO_SPACE
  | TDB_OTHER int

datatype ha_err =
    HA_OK | HA_ERR_LOCK_DEADLOCK | HA_ERR_LOCK_WAIT_TIMEOUT | HA_ERR_RECORD_FILE_FULL
  | HA_ERR_OUT_OF_MEM | HA_ERR_KEY_NOT_FOUND | HA_ERR_FOUND_DUPP_KEY
  | HA_ERR_READ_ONLY_TRANSACTION | HA_ERR_CRASHED | HA_ERR_TOO_BIG_ROW
  | HA_ERR_INTERNAL_ERROR | HA_ERR_GENERIC | HA_ERR_END_OF_FILE | HA_ERR_WRONG_COMMAND
  | HA_ERR_NO_SUCH_TABLE | HA_ERR_AUTOINC_ERANGE | HA_ERR_UNSUPPORTED
  | HA_ERR_TABLE_EXIST | HA_ERR_CRASHED_ON_USAGE | HA_ERR_NO_SAVEPOINT
  | HA_ERR_TABLE_DEF_CHANGED | HA_ERR_ABORTED_BY_USER | HA_WRONG_CREATE_OPTION

fun tdb_rc_to_ha :: "tdb_rc \<Rightarrow> ha_err" where
  "tdb_rc_to_ha TDB_SUCCESS = HA_OK"
| "tdb_rc_to_ha TDB_ERR_CONFLICT = HA_ERR_LOCK_DEADLOCK"
| "tdb_rc_to_ha TDB_ERR_LOCKED = HA_ERR_LOCK_WAIT_TIMEOUT"
| "tdb_rc_to_ha TDB_ERR_TXN_EXPIRED = HA_ERR_LOCK_WAIT_TIMEOUT"
| "tdb_rc_to_ha TDB_ERR_TXN_ABORTED = HA_ERR_LOCK_DEADLOCK"
| "tdb_rc_to_ha TDB_ERR_TOO_OLD = HA_ERR_LOCK_DEADLOCK"
| "tdb_rc_to_ha TDB_ERR_NO_SPACE = HA_ERR_RECORD_FILE_FULL"
| "tdb_rc_to_ha TDB_ERR_MEMORY_LIMIT = HA_ERR_LOCK_DEADLOCK"
| "tdb_rc_to_ha TDB_ERR_MEMORY = HA_ERR_OUT_OF_MEM"
| "tdb_rc_to_ha TDB_ERR_NOT_FOUND = HA_ERR_KEY_NOT_FOUND"
| "tdb_rc_to_ha TDB_ERR_EXISTS = HA_ERR_FOUND_DUPP_KEY"
| "tdb_rc_to_ha TDB_ERR_READONLY = HA_ERR_READ_ONLY_TRANSACTION"
| "tdb_rc_to_ha TDB_ERR_IO = HA_ERR_CRASHED"
| "tdb_rc_to_ha TDB_ERR_CORRUPTION = HA_ERR_CRASHED"
| "tdb_rc_to_ha TDB_ERR_TOO_LARGE = HA_ERR_TOO_BIG_ROW"
| "tdb_rc_to_ha TDB_ERR_INVALID_DB = HA_ERR_INTERNAL_ERROR"
| "tdb_rc_to_ha TDB_ERR_INVALID_ARGS = HA_ERR_INTERNAL_ERROR"
| "tdb_rc_to_ha (TDB_OTHER _) = HA_ERR_GENERIC"

definition TDB_READ_RETRY_BACKOFF_US :: "nat list" where
  "TDB_READ_RETRY_BACKOFF_US = [200, 1000, 5000, 20000]"

definition TDB_READ_RETRY_MAX_ATTEMPTS :: nat where
  "TDB_READ_RETRY_MAX_ATTEMPTS = 1 + length TDB_READ_RETRY_BACKOFF_US"

text \<open>The loop over the remaining backoff tiers; the engine call is a function of the
  engine's state, and the third component collects the microseconds slept.\<close>

fun tdb_retry_loop :: "('s \<Rightarrow> tdb_rc \<times> 's) \<Rightarrow> nat list \<Rightarrow> tdb_rc \<times> 's \<times> nat list \<Rightarrow>
    tdb_rc \<times> 's \<times> nat list" where
  "tdb_retry_loop fn [] st = st"
| "tdb_retry_loop fn (us # tiers) (rc, s, slept) =
     (if rc = TDB_ERR_LOCKED
      then (let (rc', s') = fn s in tdb_retry_loop fn tiers (rc', s', slept @ [us]))
      else (rc, s, slept))"

definition tdb_retry_transient :: "('s \<Rightarrow> tdb_rc \<times> 's) \<Rightarrow> 's \<Rightarrow> tdb_rc \<times> 's \<times> nat list" where
  "tdb_retry_transient fn s =
     (let (rc, s') = fn s in tdb_retry_loop fn TDB_READ_RETRY_BACKOFF_US (rc, s', []))"

section \<open>The retry ladder\<close>

text \<open>The reference: the \<open>n\<close>-th call is made in the state the calls before it left.\<close>

primrec call_state :: "('s \<Rightarrow> tdb_rc \<times> 's) \<Rightarrow> 's \<Rightarrow> nat \<Rightarrow> 's" where
  "call_state fn s 0 = s"
| "call_state fn s (Suc n) = snd (fn (call_state fn s n))"

lemma call_state_shift: "call_state fn (snd (fn s)) n = snd (fn (call_state fn s n))"
  by (induction n) auto

lemma retry_loop_answer:
  "\<exists>k\<le>length tiers.
     (\<forall>i<k. fst (fn (call_state fn s i)) = TDB_ERR_LOCKED) \<and>
     (fst (fn (call_state fn s k)) = TDB_ERR_LOCKED \<longrightarrow> k = length tiers) \<and>
     tdb_retry_loop fn tiers (fst (fn s), snd (fn s), slept) =
       (fst (fn (call_state fn s k)), call_state fn s (Suc k), slept @ take k tiers)"
proof (induction tiers arbitrary: s slept)
  case (Cons us tiers)
  show ?case
  proof (cases "fst (fn s) = TDB_ERR_LOCKED")
    case True
    let ?s = "snd (fn s)"
    obtain k where k: "k \<le> length tiers"
      "\<forall>i<k. fst (fn (call_state fn ?s i)) = TDB_ERR_LOCKED"
      "fst (fn (call_state fn ?s k)) = TDB_ERR_LOCKED \<longrightarrow> k = length tiers"
      "tdb_retry_loop fn tiers (fst (fn ?s), snd (fn ?s), slept @ [us]) =
        (fst (fn (call_state fn ?s k)), call_state fn ?s (Suc k), (slept @ [us]) @ take k tiers)"
      using Cons [of ?s "slept @ [us]"] by blast
    have "\<forall>i<Suc k. fst (fn (call_state fn s i)) = TDB_ERR_LOCKED"
      using k(2) True by (auto simp: less_Suc_eq_0_disj call_state_shift)
    then show ?thesis
      using k True
      by (intro exI [of _ "Suc k"]) (auto simp: call_state_shift split: prod.splits)
  qed (auto intro!: exI [of _ 0])
qed auto

section \<open>Properties\<close>

text \<open>The read retry returns the first answer that is not transient contention. The
  call is made again only while it reports \<open>TDB_ERR_LOCKED\<close>, at most five times in all,
  sleeping the tiers of the ladder in order; the result and the engine state are those of
  the last call made, and \<open>TDB_ERR_LOCKED\<close> is returned only when all five calls reported
  it.\<close>

theorem retry_transient_first_answer:
  "\<exists>k < TDB_READ_RETRY_MAX_ATTEMPTS.
     (\<forall>i<k. fst (fn (call_state fn s i)) = TDB_ERR_LOCKED) \<and>
     (fst (fn (call_state fn s k)) = TDB_ERR_LOCKED \<longrightarrow> Suc k = TDB_READ_RETRY_MAX_ATTEMPTS) \<and>
     tdb_retry_transient fn s =
       (fst (fn (call_state fn s k)), call_state fn s (Suc k),
        take k [200, 1000, 5000, 20000])"
  using retry_loop_answer [of TDB_READ_RETRY_BACKOFF_US fn s "[]"]
  by (simp add: tdb_retry_transient_def TDB_READ_RETRY_MAX_ATTEMPTS_def Let_def case_prod_beta
      less_Suc_eq_le) (simp add: TDB_READ_RETRY_BACKOFF_US_def)

text \<open>What the server is told. Success is reported exactly when the engine reported
  success; the codes after which the client must redo its transaction become a deadlock,
  those after which the statement can be retried become a lock wait timeout; only I/O errors
  and corruption are reported as a crashed table, and running out of disk is not one of
  them.\<close>

theorem rc_to_ha_classes:
  "(tdb_rc_to_ha rc = HA_OK \<longleftrightarrow> rc = TDB_SUCCESS) \<and>
   (tdb_rc_to_ha rc = HA_ERR_LOCK_DEADLOCK \<longleftrightarrow>
      rc \<in> {TDB_ERR_CONFLICT, TDB_ERR_TXN_ABORTED, TDB_ERR_TOO_OLD, TDB_ERR_MEMORY_LIMIT}) \<and>
   (tdb_rc_to_ha rc = HA_ERR_LOCK_WAIT_TIMEOUT \<longleftrightarrow>
      rc \<in> {TDB_ERR_LOCKED, TDB_ERR_TXN_EXPIRED}) \<and>
   (tdb_rc_to_ha rc = HA_ERR_CRASHED \<longleftrightarrow> rc \<in> {TDB_ERR_IO, TDB_ERR_CORRUPTION})"
  by (cases rc) auto

end
