(* ===== verification/Engine.thy ===== *)
theory Engine
  imports Errors
begin

text \<open>The engine library the plugin calls (\<open>tidesdb/db.h\<close>, not part of this repository): its
  transaction calls as a record of functions over an engine state of any type, and what the plugin
  relies on as laws over an observer that reads committed data, the write buffer, the view and the
  state of a transaction. A small engine that meets the laws shows that they can hold together.\<close>

section \<open>Definitions\<close>

datatype txn_state =
  TDB_TXN_STATE_ACTIVE | TDB_TXN_STATE_PREPARED | TDB_TXN_STATE_COMMITTED | TDB_TXN_STATE_ABORTED

datatype isolation =
  TDB_ISOLATION_READ_UNCOMMITTED | TDB_ISOLATION_READ_COMMITTED | TDB_ISOLATION_REPEATABLE_READ
| TDB_ISOLATION_SNAPSHOT | TDB_ISOLATION_SERIALIZABLE

text \<open>The levels are numbered in this order; the plugin compares them.\<close>

fun iso_rank :: "isolation \<Rightarrow> nat" where
  "iso_rank TDB_ISOLATION_READ_UNCOMMITTED = 0"
| "iso_rank TDB_ISOLATION_READ_COMMITTED = 1"
| "iso_rank TDB_ISOLATION_REPEATABLE_READ = 2"
| "iso_rank TDB_ISOLATION_SNAPSHOT = 3"
| "iso_rank TDB_ISOLATION_SERIALIZABLE = 4"

text \<open>Savepoint names: the statement savepoint and one per savepoint slot of the server, whose name
  is printed from the slot's address.\<close>

datatype sp_name = StmtSp | SvPtr nat

text \<open>Column families are numbers, transactions are handles. A write set maps a key of a column
  family to a new value or to a deletion.\<close>

type_synonym kv_key = "nat \<times> bytes"
type_synonym store = "kv_key \<Rightarrow> bytes option"
type_synonym writes = "kv_key \<Rightarrow> bytes option option"

definition apply_writes :: "writes \<Rightarrow> store \<Rightarrow> store" where
  "apply_writes w s = (\<lambda>k. case w k of None \<Rightarrow> s k | Some v \<Rightarrow> v)"

record 'e engine =
  txn_begin_with_isolation :: "isolation \<Rightarrow> 'e \<Rightarrow> tdb_rc \<times> nat \<times> 'e"
  txn_reset :: "nat \<Rightarrow> isolation \<Rightarrow> 'e \<Rightarrow> tdb_rc \<times> 'e"
  txn_commit :: "nat \<Rightarrow> 'e \<Rightarrow> tdb_rc \<times> 'e"
  txn_rollback :: "nat \<Rightarrow> 'e \<Rightarrow> 'e"
  txn_free :: "nat \<Rightarrow> 'e \<Rightarrow> 'e"
  txn_prepare :: "nat \<Rightarrow> bytes \<Rightarrow> 'e \<Rightarrow> tdb_rc \<times> 'e"
  txn_commit_prepared :: "nat \<Rightarrow> 'e \<Rightarrow> tdb_rc \<times> 'e"
  txn_rollback_prepared :: "nat \<Rightarrow> 'e \<Rightarrow> tdb_rc \<times> 'e"
  txn_state_of :: "nat \<Rightarrow> 'e \<Rightarrow> txn_state option"
  txn_savepoint :: "nat \<Rightarrow> sp_name \<Rightarrow> 'e \<Rightarrow> tdb_rc \<times> 'e"
  txn_rollback_to_savepoint :: "nat \<Rightarrow> sp_name \<Rightarrow> 'e \<Rightarrow> tdb_rc \<times> 'e"
  txn_release_savepoint :: "nat \<Rightarrow> sp_name \<Rightarrow> 'e \<Rightarrow> tdb_rc \<times> 'e"
  txn_put :: "nat \<Rightarrow> nat \<Rightarrow> bytes \<Rightarrow> bytes \<Rightarrow> int \<Rightarrow> 'e \<Rightarrow> tdb_rc \<times> 'e"
  txn_delete :: "nat \<Rightarrow> nat \<Rightarrow> bytes \<Rightarrow> 'e \<Rightarrow> tdb_rc \<times> 'e"
  txn_get :: "nat \<Rightarrow> nat \<Rightarrow> bytes \<Rightarrow> 'e \<Rightarrow> tdb_rc \<times> bytes \<times> 'e"
  txn_seek :: "nat \<Rightarrow> nat \<Rightarrow> bytes \<Rightarrow> 'e \<Rightarrow> tdb_rc \<times> (bytes \<times> bytes) option \<times> 'e"

text \<open>What can be observed of an engine state: the committed data, and per transaction the buffered
  writes, the data it reads, and the buffers saved under its savepoints.\<close>

record 'e observer =
  ob_db :: "'e \<Rightarrow> store"
  ob_buf :: "'e \<Rightarrow> nat \<Rightarrow> writes"
  ob_view :: "'e \<Rightarrow> nat \<Rightarrow> store"
  ob_saved :: "'e \<Rightarrow> nat \<Rightarrow> sp_name \<Rightarrow> writes option"

section \<open>Laws\<close>

text \<open>Beginning and resetting give an active transaction with an empty buffer, and a new one reads the
  committed data; neither touches committed data, whether it succeeds or not.\<close>

definition begin_laws :: "'e engine \<Rightarrow> 'e observer \<Rightarrow> bool" where
  "begin_laws E B \<longleftrightarrow>
     (\<forall>iso e rc t e'. txn_begin_with_isolation E iso e = (rc, t, e') \<longrightarrow> ob_db B e' = ob_db B e \<and>
        (rc = TDB_SUCCESS \<longrightarrow> txn_state_of E t e' = Some TDB_TXN_STATE_ACTIVE \<and> ob_buf B e' t = Map.empty \<and>
           ob_view B e' t = ob_db B e')) \<and>
     (\<forall>t iso e rc e'. txn_reset E t iso e = (rc, e') \<longrightarrow> ob_db B e' = ob_db B e \<and>
        (rc = TDB_SUCCESS \<longrightarrow> txn_state_of E t e' = Some TDB_TXN_STATE_ACTIVE \<and> ob_buf B e' t = Map.empty))"

text \<open>A commit of an active transaction applies its buffer or fails and aborts it; one that is not
  active is refused. Rolling back and freeing leave committed data alone.\<close>

definition finish_laws :: "'e engine \<Rightarrow> 'e observer \<Rightarrow> bool" where
  "finish_laws E B \<longleftrightarrow>
     (\<forall>t e rc e'. txn_commit E t e = (rc, e') \<longrightarrow>
        (if txn_state_of E t e = Some TDB_TXN_STATE_ACTIVE
         then (rc = TDB_SUCCESS \<longrightarrow> ob_db B e' = apply_writes (ob_buf B e t) (ob_db B e) \<and>
                 ob_buf B e' t = Map.empty \<and> txn_state_of E t e' = Some TDB_TXN_STATE_COMMITTED) \<and>
              (rc \<noteq> TDB_SUCCESS \<longrightarrow> ob_db B e' = ob_db B e \<and> txn_state_of E t e' = Some TDB_TXN_STATE_ABORTED)
         else rc \<noteq> TDB_SUCCESS \<and> ob_db B e' = ob_db B e)) \<and>
     (\<forall>t e. ob_db B (txn_rollback E t e) = ob_db B e \<and>
        (txn_state_of E t e = Some TDB_TXN_STATE_ACTIVE \<longrightarrow>
           txn_state_of E t (txn_rollback E t e) = Some TDB_TXN_STATE_ABORTED \<and>
           ob_buf B (txn_rollback E t e) t = Map.empty)) \<and>
     (\<forall>t e. ob_db B (txn_free E t e) = ob_db B e)"

text \<open>Two-phase commit: preparing changes no committed data; an active transaction with writes
  becomes prepared and keeps them, one without is finished at once. A prepared transaction is
  committed or rolled back by the two decision calls, and stays prepared when they fail.\<close>

definition prepare_laws :: "'e engine \<Rightarrow> 'e observer \<Rightarrow> bool" where
  "prepare_laws E B \<longleftrightarrow>
     (\<forall>t x e rc e'. txn_prepare E t x e = (rc, e') \<longrightarrow>
        ob_db B e' = ob_db B e \<and>
        (rc = TDB_SUCCESS \<and> txn_state_of E t e = Some TDB_TXN_STATE_ACTIVE \<longrightarrow> ob_buf B e' t = ob_buf B e t \<and>
           txn_state_of E t e' = Some (if ob_buf B e t = Map.empty then TDB_TXN_STATE_COMMITTED else TDB_TXN_STATE_PREPARED))) \<and>
     (\<forall>t e rc e'. txn_commit_prepared E t e = (rc, e') \<and> txn_state_of E t e = Some TDB_TXN_STATE_PREPARED \<longrightarrow>
        (rc = TDB_SUCCESS \<longrightarrow> ob_db B e' = apply_writes (ob_buf B e t) (ob_db B e) \<and>
           ob_buf B e' t = Map.empty \<and> txn_state_of E t e' = Some TDB_TXN_STATE_COMMITTED) \<and>
        (rc \<noteq> TDB_SUCCESS \<longrightarrow> ob_db B e' = ob_db B e \<and> ob_buf B e' t = ob_buf B e t \<and>
           txn_state_of E t e' = Some TDB_TXN_STATE_PREPARED)) \<and>
     (\<forall>t e rc e'. txn_rollback_prepared E t e = (rc, e') \<and> txn_state_of E t e = Some TDB_TXN_STATE_PREPARED \<longrightarrow>
        ob_db B e' = ob_db B e \<and>
        (rc = TDB_SUCCESS \<longrightarrow> ob_buf B e' t = Map.empty \<and> txn_state_of E t e' = Some TDB_TXN_STATE_ABORTED))"

text \<open>Savepoints save the buffer under a name; releasing one keeps the buffer, going back to one
  restores what was saved.\<close>

definition savepoint_laws :: "'e engine \<Rightarrow> 'e observer \<Rightarrow> bool" where
  "savepoint_laws E B \<longleftrightarrow>
     (\<forall>t n e rc e'. txn_savepoint E t n e = (rc, e') \<longrightarrow>
        ob_db B e' = ob_db B e \<and> ob_buf B e' t = ob_buf B e t \<and> txn_state_of E t e' = txn_state_of E t e \<and>
        (rc = TDB_SUCCESS \<longrightarrow> ob_saved B e' t n = Some (ob_buf B e t))) \<and>
     (\<forall>t n e rc e'. txn_release_savepoint E t n e = (rc, e') \<longrightarrow>
        ob_db B e' = ob_db B e \<and> ob_buf B e' t = ob_buf B e t \<and> txn_state_of E t e' = txn_state_of E t e) \<and>
     (\<forall>t n e rc e'. txn_rollback_to_savepoint E t n e = (rc, e') \<longrightarrow>
        ob_db B e' = ob_db B e \<and> txn_state_of E t e' = txn_state_of E t e \<and>
        (rc = TDB_SUCCESS \<longrightarrow> (\<exists>w. ob_saved B e t n = Some w \<and> ob_buf B e' t = w)) \<and>
        (rc \<noteq> TDB_SUCCESS \<longrightarrow> ob_buf B e' t = ob_buf B e t))"

text \<open>Reads and writes of an active transaction: a successful write extends the buffer and what the
  transaction reads; nothing else changes. \<open>txn_seek\<close> is a fresh or re-seeked iterator's first
  entry: the smallest key of the column family not before the given one.\<close>

definition access_laws :: "'e engine \<Rightarrow> 'e observer \<Rightarrow> bool" where
  "access_laws E B \<longleftrightarrow>
     (\<forall>t cf k v ttl e rc e'. txn_put E t cf k v ttl e = (rc, e') \<longrightarrow>
        ob_saved B e' t = ob_saved B e t \<and>
        ob_db B e' = ob_db B e \<and> txn_state_of E t e' = txn_state_of E t e \<and>
        (rc = TDB_SUCCESS \<longrightarrow> ob_buf B e' t = (ob_buf B e t)((cf, k) \<mapsto> Some v) \<and>
           ob_view B e' t = (ob_view B e t)((cf, k) := Some v)) \<and>
        (rc \<noteq> TDB_SUCCESS \<longrightarrow> ob_buf B e' t = ob_buf B e t \<and> ob_view B e' t = ob_view B e t)) \<and>
     (\<forall>t cf k e rc e'. txn_delete E t cf k e = (rc, e') \<longrightarrow>
        ob_saved B e' t = ob_saved B e t \<and>
        ob_db B e' = ob_db B e \<and> txn_state_of E t e' = txn_state_of E t e \<and>
        (rc = TDB_SUCCESS \<longrightarrow> ob_buf B e' t = (ob_buf B e t)((cf, k) \<mapsto> None) \<and>
           ob_view B e' t = (ob_view B e t)((cf, k) := None)) \<and>
        (rc \<noteq> TDB_SUCCESS \<longrightarrow> ob_buf B e' t = ob_buf B e t \<and> ob_view B e' t = ob_view B e t) \<and>
        (rc = TDB_ERR_NOT_FOUND \<longrightarrow> ob_view B e t (cf, k) = None)) \<and>
     (\<forall>t cf k e rc v e'. txn_get E t cf k e = (rc, v, e') \<longrightarrow>
        ob_db B e' = ob_db B e \<and> txn_state_of E t e' = txn_state_of E t e \<and>
        ob_buf B e' t = ob_buf B e t \<and> ob_view B e' t = ob_view B e t \<and>
        (rc = TDB_SUCCESS \<longrightarrow> ob_view B e t (cf, k) = Some v) \<and>
        (rc = TDB_ERR_NOT_FOUND \<longrightarrow> ob_view B e t (cf, k) = None)) \<and>
     (\<forall>t cf k e rc r e'. txn_seek E t cf k e = (rc, r, e') \<longrightarrow>
        ob_db B e' = ob_db B e \<and> txn_state_of E t e' = txn_state_of E t e \<and>
        ob_buf B e' t = ob_buf B e t \<and> ob_view B e' t = ob_view B e t \<and>
        (rc = TDB_SUCCESS \<longrightarrow>
           (case r of
              None \<Rightarrow> (\<forall>k'. k \<le> k' \<longrightarrow> ob_view B e t (cf, k') = None)
            | Some (k1, v1) \<Rightarrow> k \<le> k1 \<and> ob_view B e t (cf, k1) = Some v1 \<and>
                (\<forall>k'. k \<le> k' \<and> k' < k1 \<longrightarrow> ob_view B e t (cf, k') = None))))"

definition engine_laws :: "'e engine \<Rightarrow> 'e observer \<Rightarrow> bool" where
  "engine_laws E B \<longleftrightarrow> begin_laws E B \<and> finish_laws E B \<and> prepare_laws E B \<and> savepoint_laws E B \<and> access_laws E B"

text \<open>The laws, one call at a time.\<close>

lemma law_begin:
  assumes "engine_laws E B" "txn_begin_with_isolation E lvl e = (rc, t, e')"
  shows "ob_db B e' = ob_db B e"
    "rc = TDB_SUCCESS \<Longrightarrow> txn_state_of E t e' = Some TDB_TXN_STATE_ACTIVE"
    "rc = TDB_SUCCESS \<Longrightarrow> ob_buf B e' t = Map.empty"
    "rc = TDB_SUCCESS \<Longrightarrow> ob_view B e' t = ob_db B e'"
  using assms unfolding engine_laws_def begin_laws_def by blast+

lemma law_reset:
  assumes "engine_laws E B" "txn_reset E t lvl e = (rc, e')"
  shows "ob_db B e' = ob_db B e"
    "rc = TDB_SUCCESS \<Longrightarrow> txn_state_of E t e' = Some TDB_TXN_STATE_ACTIVE"
    "rc = TDB_SUCCESS \<Longrightarrow> ob_buf B e' t = Map.empty"
  using assms unfolding engine_laws_def begin_laws_def by blast+

lemma law_commit:
  assumes "engine_laws E B" "txn_commit E t e = (rc, e')"
  shows "rc = TDB_SUCCESS \<Longrightarrow> ob_db B e' = apply_writes (ob_buf B e t) (ob_db B e)"
    "rc \<noteq> TDB_SUCCESS \<Longrightarrow> ob_db B e' = ob_db B e"
proof -
  have "if txn_state_of E t e = Some TDB_TXN_STATE_ACTIVE
        then (rc = TDB_SUCCESS \<longrightarrow> ob_db B e' = apply_writes (ob_buf B e t) (ob_db B e)) \<and>
             (rc \<noteq> TDB_SUCCESS \<longrightarrow> ob_db B e' = ob_db B e)
        else rc \<noteq> TDB_SUCCESS \<and> ob_db B e' = ob_db B e"
    using assms unfolding engine_laws_def finish_laws_def by presburger
  then show "rc = TDB_SUCCESS \<Longrightarrow> ob_db B e' = apply_writes (ob_buf B e t) (ob_db B e)"
    "rc \<noteq> TDB_SUCCESS \<Longrightarrow> ob_db B e' = ob_db B e" by (auto split: if_splits)
qed

lemma law_drop:
  assumes "engine_laws E B"
  shows "ob_db B (txn_rollback E t e) = ob_db B e" "ob_db B (txn_free E t e) = ob_db B e"
  using assms unfolding engine_laws_def finish_laws_def by blast+

lemma law_prepare:
  assumes "engine_laws E B" "txn_prepare E t x e = (rc, e')"
  shows "ob_db B e' = ob_db B e"
    "rc = TDB_SUCCESS \<Longrightarrow> txn_state_of E t e = Some TDB_TXN_STATE_ACTIVE \<Longrightarrow> ob_buf B e' t = ob_buf B e t"
    "rc = TDB_SUCCESS \<Longrightarrow> txn_state_of E t e = Some TDB_TXN_STATE_ACTIVE \<Longrightarrow>
       txn_state_of E t e' = Some (if ob_buf B e t = Map.empty then TDB_TXN_STATE_COMMITTED else TDB_TXN_STATE_PREPARED)"
  using assms unfolding engine_laws_def prepare_laws_def by blast+

lemma law_commit_prepared:
  assumes "engine_laws E B" "txn_commit_prepared E t e = (rc, e')" "txn_state_of E t e = Some TDB_TXN_STATE_PREPARED"
  shows "rc = TDB_SUCCESS \<Longrightarrow> ob_db B e' = apply_writes (ob_buf B e t) (ob_db B e)"
    "rc \<noteq> TDB_SUCCESS \<Longrightarrow> ob_db B e' = ob_db B e"
    "rc \<noteq> TDB_SUCCESS \<Longrightarrow> ob_buf B e' t = ob_buf B e t"
    "rc \<noteq> TDB_SUCCESS \<Longrightarrow> txn_state_of E t e' = Some TDB_TXN_STATE_PREPARED"
  using assms unfolding engine_laws_def prepare_laws_def by blast+

lemma law_rollback_prepared:
  assumes "engine_laws E B" "txn_rollback_prepared E t e = (rc, e')" "txn_state_of E t e = Some TDB_TXN_STATE_PREPARED"
  shows "ob_db B e' = ob_db B e"
  using assms unfolding engine_laws_def prepare_laws_def by blast

lemma law_savepoint:
  assumes "engine_laws E B" "txn_savepoint E t n e = (rc, e')"
  shows "ob_db B e' = ob_db B e" "ob_buf B e' t = ob_buf B e t" "txn_state_of E t e' = txn_state_of E t e"
    "rc = TDB_SUCCESS \<Longrightarrow> ob_saved B e' t n = Some (ob_buf B e t)"
  using assms unfolding engine_laws_def savepoint_laws_def by blast+

lemma law_release_savepoint:
  assumes "engine_laws E B" "txn_release_savepoint E t n e = (rc, e')"
  shows "ob_db B e' = ob_db B e" "ob_buf B e' t = ob_buf B e t" "txn_state_of E t e' = txn_state_of E t e"
  using assms unfolding engine_laws_def savepoint_laws_def by blast+

lemma law_rollback_to:
  assumes "engine_laws E B" "txn_rollback_to_savepoint E t n e = (rc, e')"
  shows "ob_db B e' = ob_db B e" "txn_state_of E t e' = txn_state_of E t e"
    "rc = TDB_SUCCESS \<Longrightarrow> \<exists>w. ob_saved B e t n = Some w \<and> ob_buf B e' t = w"
    "rc \<noteq> TDB_SUCCESS \<Longrightarrow> ob_buf B e' t = ob_buf B e t"
  using assms unfolding engine_laws_def savepoint_laws_def by blast+

lemma law_put:
  assumes "engine_laws E B" "txn_put E t cf k v ttl e = (rc, e')"
  shows "ob_db B e' = ob_db B e" "ob_saved B e' t = ob_saved B e t" "txn_state_of E t e' = txn_state_of E t e"
    "rc = TDB_SUCCESS \<Longrightarrow> ob_buf B e' t = (ob_buf B e t)((cf, k) \<mapsto> Some v)"
    "rc = TDB_SUCCESS \<Longrightarrow> ob_view B e' t = (ob_view B e t)((cf, k) := Some v)"
    "rc \<noteq> TDB_SUCCESS \<Longrightarrow> ob_buf B e' t = ob_buf B e t" "rc \<noteq> TDB_SUCCESS \<Longrightarrow> ob_view B e' t = ob_view B e t"
  using assms(2) assms(1) [unfolded engine_laws_def access_laws_def] by (elim conjE, simp)+

lemma law_delete:
  assumes "engine_laws E B" "txn_delete E t cf k e = (rc, e')"
  shows "ob_db B e' = ob_db B e" "ob_saved B e' t = ob_saved B e t" "txn_state_of E t e' = txn_state_of E t e"
    "rc = TDB_SUCCESS \<Longrightarrow> ob_buf B e' t = (ob_buf B e t)((cf, k) \<mapsto> None)"
    "rc = TDB_SUCCESS \<Longrightarrow> ob_view B e' t = (ob_view B e t)((cf, k) := None)"
    "rc \<noteq> TDB_SUCCESS \<Longrightarrow> ob_buf B e' t = ob_buf B e t" "rc \<noteq> TDB_SUCCESS \<Longrightarrow> ob_view B e' t = ob_view B e t"
    "rc = TDB_ERR_NOT_FOUND \<Longrightarrow> ob_view B e t (cf, k) = None"
  using assms(2) assms(1) [unfolded engine_laws_def access_laws_def] by (elim conjE, simp)+

lemma law_get:
  assumes "engine_laws E B" "txn_get E t cf k e = (rc, v, e')"
  shows "ob_db B e' = ob_db B e" "txn_state_of E t e' = txn_state_of E t e" "ob_buf B e' t = ob_buf B e t"
    "ob_view B e' t = ob_view B e t" "rc = TDB_SUCCESS \<Longrightarrow> ob_view B e t (cf, k) = Some v"
    "rc = TDB_ERR_NOT_FOUND \<Longrightarrow> ob_view B e t (cf, k) = None"
  using assms(2) assms(1) [unfolded engine_laws_def access_laws_def] by (elim conjE, simp)+

section \<open>An engine that meets the laws\<close>

text \<open>Everything in memory, every call succeeds; a transaction reads committed data under its own
  writes.\<close>

record mem_txn =
  mt_state :: txn_state
  mt_buf :: "(kv_key \<times> bytes option) list"
  mt_saved :: "(sp_name \<times> (kv_key \<times> bytes option) list) list"

record mem_state =
  ms_db :: "(kv_key \<times> bytes) list"
  ms_next :: nat
  ms_txn :: "nat \<Rightarrow> mem_txn"

definition mem_init :: mem_state where
  "mem_init = \<lparr>ms_db = [], ms_next = 0,
     ms_txn = (\<lambda>_. \<lparr>mt_state = TDB_TXN_STATE_ABORTED, mt_buf = [], mt_saved = []\<rparr>)\<rparr>"

definition mem_fresh :: "nat \<Rightarrow> mem_state \<Rightarrow> mem_state" where
  "mem_fresh t e = e\<lparr>ms_txn := (ms_txn e)(t := \<lparr>mt_state = TDB_TXN_STATE_ACTIVE, mt_buf = [], mt_saved = []\<rparr>)\<rparr>"

definition mem_finish :: "txn_state \<Rightarrow> nat \<Rightarrow> mem_state \<Rightarrow> mem_state" where
  "mem_finish st t e = e\<lparr>ms_txn := (ms_txn e)(t := \<lparr>mt_state = st, mt_buf = [], mt_saved = []\<rparr>)\<rparr>"

fun mem_apply :: "(kv_key \<times> bytes option) list \<Rightarrow> (kv_key \<times> bytes) list \<Rightarrow> (kv_key \<times> bytes) list" where
  "mem_apply [] d = d"
| "mem_apply ((k, v) # b) d =
     (case v of None \<Rightarrow> filter (\<lambda>p. fst p \<noteq> k) (mem_apply b d) | Some x \<Rightarrow> (k, x) # mem_apply b d)"

definition mem_apply_db :: "nat \<Rightarrow> mem_state \<Rightarrow> mem_state" where
  "mem_apply_db t e = e\<lparr>ms_db := mem_apply (mt_buf (ms_txn e t)) (ms_db e)\<rparr>"

definition mem_write :: "nat \<Rightarrow> kv_key \<Rightarrow> bytes option \<Rightarrow> mem_state \<Rightarrow> tdb_rc \<times> mem_state" where
  "mem_write t k v e =
     (TDB_SUCCESS, e\<lparr>ms_txn := (ms_txn e)(t := (ms_txn e t)\<lparr>mt_buf := (k, v) # mt_buf (ms_txn e t)\<rparr>)\<rparr>)"

definition mem_view :: "mem_state \<Rightarrow> nat \<Rightarrow> store" where
  "mem_view e t = apply_writes (map_of (mt_buf (ms_txn e t))) (map_of (ms_db e))"

definition mem_candidates :: "nat \<Rightarrow> nat \<Rightarrow> bytes \<Rightarrow> mem_state \<Rightarrow> bytes list" where
  "mem_candidates t cf k e =
     filter (\<lambda>k'. k \<le> k' \<and> mem_view e t (cf, k') \<noteq> None)
       (map snd (filter (\<lambda>p. fst p = cf) (map fst (mt_buf (ms_txn e t)) @ map fst (ms_db e))))"

definition mem_seek :: "nat \<Rightarrow> nat \<Rightarrow> bytes \<Rightarrow> mem_state \<Rightarrow> (bytes \<times> bytes) option" where
  "mem_seek t cf k e =
     (let cs = mem_candidates t cf k e in
      if cs = [] then None else let m = Min (set cs) in map_option (Pair m) (mem_view e t (cf, m)))"

definition mem_engine :: "mem_state engine" where
  "mem_engine = \<lparr>
     txn_begin_with_isolation = (\<lambda>iso e. (TDB_SUCCESS, ms_next e, mem_fresh (ms_next e) (e\<lparr>ms_next := Suc (ms_next e)\<rparr>))),
     txn_reset = (\<lambda>t iso e. (TDB_SUCCESS, mem_fresh t e)),
     txn_commit = (\<lambda>t e. if mt_state (ms_txn e t) = TDB_TXN_STATE_ACTIVE
        then (TDB_SUCCESS, mem_finish TDB_TXN_STATE_COMMITTED t (mem_apply_db t e)) else (TDB_ERR_INVALID_ARGS, e)),
     txn_rollback = (\<lambda>t e. if mt_state (ms_txn e t) = TDB_TXN_STATE_ACTIVE then mem_finish TDB_TXN_STATE_ABORTED t e else e),
     txn_free = (\<lambda>t e. e),
     txn_prepare = (\<lambda>t x e. (TDB_SUCCESS, e\<lparr>ms_txn := (ms_txn e)(t := (ms_txn e t)\<lparr>mt_state :=
        if mt_buf (ms_txn e t) = [] then TDB_TXN_STATE_COMMITTED else TDB_TXN_STATE_PREPARED\<rparr>)\<rparr>)),
     txn_commit_prepared = (\<lambda>t e. (TDB_SUCCESS, mem_finish TDB_TXN_STATE_COMMITTED t (mem_apply_db t e))),
     txn_rollback_prepared = (\<lambda>t e. (TDB_SUCCESS, mem_finish TDB_TXN_STATE_ABORTED t e)),
     txn_state_of = (\<lambda>t e. Some (mt_state (ms_txn e t))),
     txn_savepoint = (\<lambda>t n e. (TDB_SUCCESS, e\<lparr>ms_txn := (ms_txn e)(t := (ms_txn e t)\<lparr>mt_saved :=
        (n, mt_buf (ms_txn e t)) # mt_saved (ms_txn e t)\<rparr>)\<rparr>)),
     txn_rollback_to_savepoint = (\<lambda>t n e. case map_of (mt_saved (ms_txn e t)) n of
        None \<Rightarrow> (TDB_ERR_NOT_FOUND, e)
      | Some b \<Rightarrow> (TDB_SUCCESS, e\<lparr>ms_txn := (ms_txn e)(t := (ms_txn e t)\<lparr>mt_buf := b\<rparr>)\<rparr>)),
     txn_release_savepoint = (\<lambda>t n e. (TDB_SUCCESS, e\<lparr>ms_txn := (ms_txn e)(t := (ms_txn e t)\<lparr>mt_saved :=
        filter (\<lambda>p. fst p \<noteq> n) (mt_saved (ms_txn e t))\<rparr>)\<rparr>)),
     txn_put = (\<lambda>t cf k v ttl. mem_write t (cf, k) (Some v)),
     txn_delete = (\<lambda>t cf k. mem_write t (cf, k) None),
     txn_get = (\<lambda>t cf k e. case mem_view e t (cf, k) of
        None \<Rightarrow> (TDB_ERR_NOT_FOUND, [], e) | Some v \<Rightarrow> (TDB_SUCCESS, v, e)),
     txn_seek = (\<lambda>t cf k e. (TDB_SUCCESS, mem_seek t cf k e, e))\<rparr>"

definition mem_observer :: "mem_state observer" where
  "mem_observer = \<lparr>ob_db = (\<lambda>e. map_of (ms_db e)), ob_buf = (\<lambda>e t. map_of (mt_buf (ms_txn e t))),
     ob_view = mem_view, ob_saved = (\<lambda>e t n. map_option map_of (map_of (mt_saved (ms_txn e t)) n))\<rparr>"

lemmas mem_defs = mem_engine_def mem_observer_def mem_fresh_def mem_finish_def mem_apply_db_def mem_write_def

lemma apply_writes_upd: "apply_writes (w(k \<mapsto> v)) s = (apply_writes w s)(k := v)"
  by (auto simp: apply_writes_def)

lemma apply_writes_empty [simp]: "apply_writes Map.empty s = s"
  by (simp add: apply_writes_def)

lemma map_of_mem_apply: "map_of (mem_apply b d) = apply_writes (map_of b) (map_of d)"
proof (induction b)
  case (Cons p b)
  have "map_of (filter (\<lambda>p. fst p \<noteq> k) xs) = (map_of xs)(k := None)" for k and xs :: "(kv_key \<times> bytes) list"
    by (induction xs) (auto simp: fun_eq_iff)
  with Cons show ?case by (cases p; cases "snd p") (simp_all add: fun_eq_iff apply_writes_def)
qed simp

lemma map_of_empty_iff [simp]: "map_of xs = Map.empty \<longleftrightarrow> xs = []" "Map.empty = map_of xs \<longleftrightarrow> xs = []"
  by (cases xs; auto simp: fun_eq_iff)+

lemma mem_candidates_set:
  "set (mem_candidates t cf k e) = {k'. k \<le> k' \<and> mem_view e t (cf, k') \<noteq> None}"
proof -
  have "(cf, k') \<in> fst ` set (mt_buf (ms_txn e t)) \<union> fst ` set (ms_db e)" if "mem_view e t (cf, k') \<noteq> None" for k'
  proof (rule ccontr)
    assume n: "(cf, k') \<notin> fst ` set (mt_buf (ms_txn e t)) \<union> fst ` set (ms_db e)"
    then have "map_of (mt_buf (ms_txn e t)) (cf, k') = None" "map_of (ms_db e) (cf, k') = None"
      by (simp_all only: map_of_eq_None_iff) blast+
    then show False using that by (simp add: mem_view_def apply_writes_def)
  qed
  then show ?thesis by (force simp: mem_candidates_def image_iff)
qed

lemma mem_seek_law:
  "case mem_seek t cf k e of
     None \<Rightarrow> (\<forall>k'. k \<le> k' \<longrightarrow> mem_view e t (cf, k') = None)
   | Some (k1, v1) \<Rightarrow> k \<le> k1 \<and> mem_view e t (cf, k1) = Some v1 \<and>
       (\<forall>k'. k \<le> k' \<and> k' < k1 \<longrightarrow> mem_view e t (cf, k') = None)"
proof -
  let ?S = "set (mem_candidates t cf k e)"
  note S = mem_candidates_set [of t cf k e]
  show ?thesis
  proof (cases "mem_candidates t cf k e = []")
    case True
    then have "?S = {}" by simp
    then show ?thesis unfolding S using True by (auto simp: mem_seek_def)
  next
    case False
    define m where "m = Min ?S"
    have "m \<in> ?S" unfolding m_def using False by (intro Min_in) simp_all
    then obtain v where m: "k \<le> m" "mem_view e t (cf, m) = Some v" unfolding S by auto
    have "mem_view e t (cf, k') = None" if "k \<le> k'" "k' < m" for k'
    proof (rule ccontr)
      assume "mem_view e t (cf, k') \<noteq> None"
      then have "k' \<in> ?S" unfolding S using that(1) by simp
      then have "m \<le> k'" unfolding m_def by (intro Min_le) simp_all
      then show False using that(2) by simp
    qed
    moreover have "mem_seek t cf k e = Some (m, v)" using False m(2) by (simp add: mem_seek_def m_def Let_def)
    ultimately show ?thesis using m by simp
  qed
qed

lemma mem_seekD:
  "mem_seek t cf k e = None \<Longrightarrow> k \<le> k' \<Longrightarrow> mem_view e t (cf, k') = None"
  "mem_seek t cf k e = Some (k1, v1) \<Longrightarrow> k \<le> k1"
  "mem_seek t cf k e = Some (k1, v1) \<Longrightarrow> mem_view e t (cf, k1) = Some v1"
  "mem_seek t cf k e = Some (k1, v1) \<Longrightarrow> k \<le> k' \<Longrightarrow> k' < k1 \<Longrightarrow> mem_view e t (cf, k') = None"
  using mem_seek_law [of k e t cf] by simp_all

lemma mem_engine_laws: "engine_laws mem_engine mem_observer"
proof -
  have "begin_laws mem_engine mem_observer" by (auto simp: begin_laws_def mem_defs mem_view_def)
  moreover have "finish_laws mem_engine mem_observer" by (auto simp: finish_laws_def mem_defs map_of_mem_apply)
  moreover have "prepare_laws mem_engine mem_observer"
    by (auto simp: prepare_laws_def mem_defs map_of_mem_apply)
  moreover have "savepoint_laws mem_engine mem_observer"
    by (auto simp: savepoint_laws_def mem_defs split: option.splits)
  moreover have "access_laws mem_engine mem_observer"
    unfolding access_laws_def
  proof (intro conjI)
    show "\<forall>t cf k e rc r e'. txn_seek mem_engine t cf k e = (rc, r, e') \<longrightarrow>
        ob_db mem_observer e' = ob_db mem_observer e \<and> txn_state_of mem_engine t e' = txn_state_of mem_engine t e \<and>
        ob_buf mem_observer e' t = ob_buf mem_observer e t \<and> ob_view mem_observer e' t = ob_view mem_observer e t \<and>
        (rc = TDB_SUCCESS \<longrightarrow>
           (case r of
              None \<Rightarrow> (\<forall>k'. k \<le> k' \<longrightarrow> ob_view mem_observer e t (cf, k') = None)
            | Some (k1, v1) \<Rightarrow> k \<le> k1 \<and> ob_view mem_observer e t (cf, k1) = Some v1 \<and>
                (\<forall>k'. k \<le> k' \<and> k' < k1 \<longrightarrow> ob_view mem_observer e t (cf, k') = None)))"
      by (auto simp: mem_defs mem_seekD split: option.splits)
  qed (auto simp: mem_defs mem_view_def apply_writes_upd split: option.splits)
  ultimately show ?thesis by (simp add: engine_laws_def)
qed

end
