(* ===== verification/Xid.thy ===== *)
theory Xid
  imports TDB_Prelude
begin

text \<open>
  \<open>tidesdb_xid.h\<close>: the bytes an XA transaction identifier is stored under when a
  transaction is prepared. A null pointer is \<open>None\<close>; the C \<open>long\<close> is an \<open>int\<close> with the
  casts to 32 and 64 bits written out; the return value 0 of the encoder is \<open>None\<close>.
\<close>

section \<open>Definitions\<close>

definition TDB_XID_DATA_SIZE :: nat where "TDB_XID_DATA_SIZE = 128"

definition TDB_XID_MAX_PART :: int where "TDB_XID_MAX_PART = 64"

definition TDB_XID_HEADER_SIZE :: nat where "TDB_XID_HEADER_SIZE = 16"

definition TDB_XID_MAX_SERIALIZED :: nat where
  "TDB_XID_MAX_SERIALIZED = TDB_XID_HEADER_SIZE + TDB_XID_DATA_SIZE"

definition tdb_xid_put_u32 :: "u32 \<Rightarrow> bytes" where
  "tdb_xid_put_u32 v =
     [ucast (v AND 0xff), ucast (drop_bit 8 v AND 0xff),
      ucast (drop_bit 16 v AND 0xff), ucast (drop_bit 24 v AND 0xff)]"

definition tdb_xid_get_u32 :: "bytes \<Rightarrow> u32" where
  "tdb_xid_get_u32 p =
     ucast (p ! 0) OR push_bit 8 (ucast (p ! 1)) OR
     push_bit 16 (ucast (p ! 2)) OR push_bit 24 (ucast (p ! 3))"

definition tdb_xid_put_u64 :: "u64 \<Rightarrow> bytes" where
  "tdb_xid_put_u64 v =
     tdb_xid_put_u32 (ucast (v AND 0xffffffff)) @
     tdb_xid_put_u32 (ucast (drop_bit 32 v AND 0xffffffff))"

definition tdb_xid_get_u64 :: "bytes \<Rightarrow> u64" where
  "tdb_xid_get_u64 p =
     ucast (tdb_xid_get_u32 p) OR push_bit 32 (ucast (tdb_xid_get_u32 (drop 4 p)))"

definition tdb_xid_lengths_valid :: "int \<Rightarrow> int \<Rightarrow> bool" where
  "tdb_xid_lengths_valid gtrid_len bqual_len =
     (if gtrid_len < 0 \<or> bqual_len < 0 then False
      else if gtrid_len > TDB_XID_MAX_PART \<or> bqual_len > TDB_XID_MAX_PART then False
      else nat (gtrid_len + bqual_len) \<le> TDB_XID_DATA_SIZE)"

definition tdb_xid_serialize ::
  "int \<Rightarrow> int \<Rightarrow> int \<Rightarrow> bytes option \<Rightarrow> nat option \<Rightarrow> bytes option" where
  "tdb_xid_serialize format_id gtrid_len bqual_len data out =
     (case out of None \<Rightarrow> None
      | Some out_cap \<Rightarrow>
          if data = None \<and> gtrid_len + bqual_len > 0 then None
          else if \<not> tdb_xid_lengths_valid gtrid_len bqual_len then None
          else (let payload = nat (gtrid_len + bqual_len);
                    total = TDB_XID_HEADER_SIZE + payload in
                if out_cap < total then None
                else Some (tdb_xid_put_u64 (word_of_int format_id) @
                           tdb_xid_put_u32 (word_of_int gtrid_len) @
                           tdb_xid_put_u32 (word_of_int bqual_len) @
                           (if payload > 0 then take payload (the data) else []))))"

definition tdb_xid_deserialize :: "bytes option \<Rightarrow> (int \<times> int \<times> int \<times> bytes) option" where
  "tdb_xid_deserialize inp =
     (case inp of None \<Rightarrow> None
      | Some p \<Rightarrow>
          if length p < TDB_XID_HEADER_SIZE then None
          else (let g = sint (tdb_xid_get_u32 (drop 8 p));
                    b = sint (tdb_xid_get_u32 (drop 12 p)) in
                if \<not> tdb_xid_lengths_valid g b then None
                else if length p \<noteq> TDB_XID_HEADER_SIZE + nat (g + b) then None
                else (let n = nat (g + b);
                          zeros = replicate TDB_XID_DATA_SIZE 0;
                          data = (if g + b > 0
                                  then take n (drop TDB_XID_HEADER_SIZE p) @ drop n zeros
                                  else zeros) in
                      Some (sint (tdb_xid_get_u64 p), g, b, data))))"

lemmas xid_const_defs =
  TDB_XID_DATA_SIZE_def TDB_XID_MAX_PART_def TDB_XID_HEADER_SIZE_def TDB_XID_MAX_SERIALIZED_def

section \<open>The fixed-width fields\<close>

lemma length_put_u32 [simp, len_simps]: "length (tdb_xid_put_u32 v) = 4"
  by (simp add: tdb_xid_put_u32_def)

lemma length_put_u64 [simp, len_simps]: "length (tdb_xid_put_u64 v) = 8"
  by (simp add: tdb_xid_put_u64_def)

text \<open>Both directions of the 32- and 64-bit fields are the little-endian numerals.\<close>

lemma ucast_and_ff: "(ucast (w AND 0xff) :: byte) = ucast (w :: u32)"
  by (rule bit_word_eqI) (simp add: bit_and_iff bit_ucast_iff bit_word_ff del: bit_numeral_word_iff)

lemma put_u32_le_bytes: "tdb_xid_put_u32 v = le_bytes 4 (unat v)"
  using ucast_drop_bit_byte [of 1 v] ucast_drop_bit_byte [of 2 v] ucast_drop_bit_byte [of 3 v]
  by (simp add: tdb_xid_put_u32_def ucast_and_ff le_bytes_numeral flip: div_mult2_eq)

lemma get_u32_le_val:
  assumes "4 \<le> length p"
  shows "tdb_xid_get_u32 p = word_of_nat (le_val (take 4 p))"
proof -
  obtain a b c d t where p: "p = a # b # c # d # t"
    using assms by (cases p; cases "tl p"; cases "tl (tl p)"; cases "tl (tl (tl p))") auto
  have sh: "push_bit 8 w OR ucast (x :: byte) = w * 256 + ucast x" for w :: u32 and x
    by (rule shift_or_byte) simp
  have "tdb_xid_get_u32 p =
    push_bit 8 (push_bit 8 (push_bit 8 (ucast d) OR ucast c) OR ucast b) OR ucast a"
    by (simp add: p tdb_xid_get_u32_def push_bit_or ac_simps)
  also have "\<dots> = ((ucast d * 256 + ucast c) * 256 + ucast b) * 256 + ucast a"
    by (simp only: sh)
  finally show ?thesis
    by (simp add: p algebra_simps)
qed

lemma get_put_u32 [simp]: "tdb_xid_get_u32 (tdb_xid_put_u32 v @ t) = v"
proof -
  have "tdb_xid_get_u32 (tdb_xid_put_u32 v @ t) = word_of_nat (le_val (tdb_xid_put_u32 v))"
    by (subst get_u32_le_val) simp_all
  also have "\<dots> = word_of_nat (unat v mod 256 ^ 4)"
    by (simp only: put_u32_le_bytes le_val_le_bytes)
  also have "unat v mod 256 ^ 4 = unat v"
    using unsigned_less [of v, where ?'a = nat] by simp
  finally show ?thesis by simp
qed

lemma put_get_u32:
  assumes "4 \<le> length p"
  shows "tdb_xid_put_u32 (tdb_xid_get_u32 p) = take 4 p"
proof -
  have len: "length (take 4 p) = 4" using assms by simp
  have "le_val (take 4 p) < 2 ^ 32"
    using le_val_bound [of "take 4 p"] by (simp only: len) simp
  then have "unat (word_of_nat (le_val (take 4 p)) :: u32) = le_val (take 4 p)"
    by (simp add: unat_of_nat)
  then show ?thesis
    using le_bytes_le_val [of "take 4 p"]
    by (simp only: put_u32_le_bytes get_u32_le_val [OF assms] len)
qed

lemma bit_low_half: "bit (0xffffffff :: u64) n \<longleftrightarrow> n < 32"
proof -
  have "(0xffffffff :: u64) = mask 32" by (simp add: mask_eq_exp_minus_1)
  then show ?thesis by (simp only: bit_mask_iff) auto
qed

lemma get_put_u64 [simp]: "tdb_xid_get_u64 (tdb_xid_put_u64 v @ t) = v"
proof -
  have "tdb_xid_get_u64 (tdb_xid_put_u64 v @ t) =
      ucast (ucast (v AND 0xffffffff) :: u32) OR
      push_bit 32 (ucast (ucast (drop_bit 32 v AND 0xffffffff) :: u32))"
    by (simp add: tdb_xid_get_u64_def tdb_xid_put_u64_def)
  also have "\<dots> = v"
    by (rule bit_word_eqI)
      (auto simp: bit_or_iff bit_and_iff bit_push_bit_iff bit_drop_bit_eq bit_ucast_iff bit_low_half
        not_less simp del: bit_numeral_word_iff)
  finally show ?thesis .
qed

lemma put_get_u64:
  assumes "8 \<le> length p"
  shows "tdb_xid_put_u64 (tdb_xid_get_u64 p) = take 8 p"
proof -
  define lo where "lo = tdb_xid_get_u32 p"
  define hi where "hi = tdb_xid_get_u32 (drop 4 p)"
  let ?w = "ucast lo OR push_bit 32 (ucast hi) :: u64"
  have "ucast (?w AND 0xffffffff) = lo" "ucast (drop_bit 32 ?w AND 0xffffffff) = hi"
    by (rule bit_word_eqI, auto simp: bit_or_iff bit_and_iff bit_push_bit_iff bit_drop_bit_eq
        bit_ucast_iff bit_low_half simp del: bit_numeral_word_iff dest: bit_imp_le_length)+
  then have "tdb_xid_put_u64 (tdb_xid_get_u64 p) = take 4 p @ take 4 (drop 4 p)"
    using assms
    by (simp add: tdb_xid_put_u64_def tdb_xid_get_u64_def lo_def hi_def put_get_u32)
  then show ?thesis by (simp flip: take_add)
qed

section \<open>The identifier\<close>

lemma lengths_valid_iff:
  "tdb_xid_lengths_valid g b \<longleftrightarrow> 0 \<le> g \<and> g \<le> 64 \<and> 0 \<le> b \<and> b \<le> 64"
  by (auto simp: tdb_xid_lengths_valid_def xid_const_defs)

lemma sint_word_of_int_32: "- (2 ^ 31) \<le> i \<Longrightarrow> i < 2 ^ 31 \<Longrightarrow> sint (word_of_int i :: u32) = i"
  by (simp add: signed_of_int signed_take_bit_int_eq_self)

lemma sint_word_of_int_64: "- (2 ^ 63) \<le> i \<Longrightarrow> i < 2 ^ 63 \<Longrightarrow> sint (word_of_int i :: u64) = i"
  by (simp add: signed_of_int signed_take_bit_int_eq_self)

lemma serialize_Some_iff:
  "tdb_xid_serialize f g b data out = Some bs \<longleftrightarrow>
   (\<exists>cap. out = Some cap \<and> 16 + nat (g + b) \<le> cap \<and> tdb_xid_lengths_valid g b \<and>
      (0 < g + b \<longrightarrow> data \<noteq> None) \<and>
      bs = tdb_xid_put_u64 (word_of_int f) @ tdb_xid_put_u32 (word_of_int g) @
           tdb_xid_put_u32 (word_of_int b) @
           (if 0 < g + b then take (nat (g + b)) (the data) else []))"
  by (auto simp: tdb_xid_serialize_def xid_const_defs Let_def split: option.splits)

definition xid_zero_tail :: "int \<Rightarrow> int \<Rightarrow> bytes \<Rightarrow> bytes" where
  "xid_zero_tail g b data =
     take (nat (g + b)) data @ replicate (TDB_XID_DATA_SIZE - nat (g + b)) 0"

lemma deserialize_serialize:
  assumes "tdb_xid_lengths_valid g b" "- (2 ^ 63) \<le> f" "f < 2 ^ 63"
    and "nat (g + b) \<le> length data" "16 + nat (g + b) \<le> cap"
  shows "\<exists>bs. tdb_xid_serialize f g b (Some data) (Some cap) = Some bs \<and>
    length bs = 16 + nat (g + b) \<and>
    tdb_xid_deserialize (Some bs) = Some (f, g, b, xid_zero_tail g b data)"
proof -
  let ?bs = "tdb_xid_put_u64 (word_of_int f) @ tdb_xid_put_u32 (word_of_int g) @
    tdb_xid_put_u32 (word_of_int b) @ take (nat (g + b)) data"
  have "0 \<le> g" "g \<le> 64" "0 \<le> b" "b \<le> 64"
    using assms(1) by (auto simp: lengths_valid_iff)
  moreover from this have "sint (word_of_int g :: u32) = g" "sint (word_of_int b :: u32) = b"
    by (auto intro: sint_word_of_int_32)
  moreover have "sint (word_of_int f :: u64) = f"
    using assms by (intro sint_word_of_int_64)
  moreover have "drop 8 ?bs = tdb_xid_put_u32 (word_of_int g) @ tdb_xid_put_u32 (word_of_int b) @
      take (nat (g + b)) data"
    "drop 12 ?bs = tdb_xid_put_u32 (word_of_int b) @ take (nat (g + b)) data"
    "drop 16 ?bs = take (nat (g + b)) data"
    by simp_all
  ultimately have "tdb_xid_serialize f g b (Some data) (Some cap) = Some ?bs"
    "length ?bs = 16 + nat (g + b)"
    "tdb_xid_deserialize (Some ?bs) = Some (f, g, b, xid_zero_tail g b data)"
    using assms
    by (auto simp: serialize_Some_iff tdb_xid_deserialize_def xid_zero_tail_def xid_const_defs
        Let_def)
  then show ?thesis by blast
qed

lemma deserialize_SomeD:
  assumes "tdb_xid_deserialize (Some bs) = Some (f, g, b, data)"
  shows "tdb_xid_lengths_valid g b" "length bs = 16 + nat (g + b)"
    "word_of_int f = tdb_xid_get_u64 bs" "word_of_int g = tdb_xid_get_u32 (drop 8 bs)"
    "word_of_int b = tdb_xid_get_u32 (drop 12 bs)" "data = xid_zero_tail g b (drop 16 bs)"
    "f = sint (tdb_xid_get_u64 bs)"
proof -
  define g' where "g' = sint (tdb_xid_get_u32 (drop 8 bs))"
  define b' where "b' = sint (tdb_xid_get_u32 (drop 12 bs))"
  have *: "tdb_xid_lengths_valid g b \<and> length bs = 16 + nat (g + b) \<and>
      f = sint (tdb_xid_get_u64 bs) \<and> g = g' \<and> b = b' \<and> data = xid_zero_tail g b (drop 16 bs)"
    using assms
    by (auto simp: tdb_xid_deserialize_def xid_zero_tail_def Let_def TDB_XID_HEADER_SIZE_def
        simp flip: g'_def b'_def split: if_splits)
  then show "tdb_xid_lengths_valid g b" "length bs = 16 + nat (g + b)"
    "data = xid_zero_tail g b (drop 16 bs)"
    by blast+
  show "f = sint (tdb_xid_get_u64 bs)"
    using * by blast
  have "f = sint (tdb_xid_get_u64 bs)" "g = g'" "b = b'"
    using * by blast+
  then show "word_of_int f = tdb_xid_get_u64 bs" "word_of_int g = tdb_xid_get_u32 (drop 8 bs)"
    "word_of_int b = tdb_xid_get_u32 (drop 12 bs)"
    by (simp_all add: g'_def b'_def)
qed

lemma serialize_deserialize:
  assumes "tdb_xid_deserialize (Some bs) = Some (f, g, b, data)" "length bs \<le> cap"
  shows "tdb_xid_serialize f g b (Some data) (Some cap) = Some bs"
proof -
  note d = deserialize_SomeD [OF assms(1)]
  have "tdb_xid_put_u64 (word_of_int f) = take 8 bs"
    "tdb_xid_put_u32 (word_of_int g) = take 4 (drop 8 bs)"
    "tdb_xid_put_u32 (word_of_int b) = take 4 (drop 12 bs)"
    using d(2) by (simp_all add: d(3-5) put_get_u64 put_get_u32)
  moreover have "take (nat (g + b)) data = drop 16 bs"
    using d(2) by (simp add: d(6) xid_zero_tail_def)
  moreover have "bs = take 8 bs @ take 4 (drop 8 bs) @ take 4 (drop 12 bs) @ drop 16 bs"
    using append_take_drop_id [of 8 bs] append_take_drop_id [of 4 "drop 8 bs"]
      append_take_drop_id [of 4 "drop 12 bs"]
    by (simp add: drop_drop del: append_take_drop_id)
  moreover have "\<not> 0 < g + b \<Longrightarrow> drop 16 bs = []"
    using d(2) by simp
  ultimately show ?thesis
    unfolding serialize_Some_iff using d(1,2) assms(2) by (intro exI [of _ cap]) auto
qed

text \<open>As a codec on identifiers whose data has the full size and zeros after the payload.\<close>

definition xid_ok :: "int \<times> int \<times> int \<times> bytes \<Rightarrow> bool" where
  "xid_ok x = (case x of (f, g, b, data) \<Rightarrow>
     - (2 ^ 63) \<le> f \<and> f < 2 ^ 63 \<and> tdb_xid_lengths_valid g b \<and>
     length data = TDB_XID_DATA_SIZE \<and> xid_zero_tail g b data = data)"

definition xid_enc :: "int \<times> int \<times> int \<times> bytes \<Rightarrow> bytes" where
  "xid_enc x = (case x of (f, g, b, data) \<Rightarrow>
     the (tdb_xid_serialize f g b (Some data) (Some TDB_XID_MAX_SERIALIZED)))"

interpretation xid: byte_codec xid_enc "\<lambda>bs. tdb_xid_deserialize (Some bs)" xid_ok
proof
  fix x assume ok: "xid_ok x"
  obtain f g b data where x: "x = (f, g, b, data)" by (cases x)
  have "nat (g + b) \<le> length data" "16 + nat (g + b) \<le> TDB_XID_MAX_SERIALIZED"
    using ok by (auto simp: x xid_ok_def lengths_valid_iff xid_const_defs)
  then show "tdb_xid_deserialize (Some (xid_enc x)) = Some x"
    using deserialize_serialize [of g b f data TDB_XID_MAX_SERIALIZED] ok
    by (auto simp: x xid_ok_def xid_enc_def)
qed

lemma deserialize_ok: "tdb_xid_deserialize (Some bs) = Some x \<Longrightarrow> xid_ok x"
proof -
  assume a: "tdb_xid_deserialize (Some bs) = Some x"
  obtain f g b data where x: "x = (f, g, b, data)" by (cases x)
  note d = deserialize_SomeD [OF a [unfolded x]]
  have "- (2 ^ 63) \<le> f" "f < 2 ^ 63"
    using sint_greater_eq [of "tdb_xid_get_u64 bs"] sint_less [of "tdb_xid_get_u64 bs"]
    unfolding d(7) by simp_all
  moreover have "length data = TDB_XID_DATA_SIZE" "xid_zero_tail g b data = data"
    using d(1) by (auto simp: d(2) d(6) xid_zero_tail_def lengths_valid_iff xid_const_defs)
  ultimately show "xid_ok x"
    using d(1) by (simp add: x xid_ok_def)
qed

section \<open>Properties\<close>

text \<open>C37: an XA identifier survives prepare and recovery. For lengths the server can
  produce, a format id that fits in 64 bits and enough room, encoding succeeds, has exactly
  16 bytes of header plus the payload, and decoding gives back the three integers and the
  payload, with the rest of the 128 data bytes zeroed.\<close>

theorem xid_roundtrip:
  assumes "tdb_xid_lengths_valid g b" "- (2 ^ 63) \<le> f" "f < 2 ^ 63"
    and "nat (g + b) \<le> length data" "TDB_XID_HEADER_SIZE + nat (g + b) \<le> cap"
  shows "\<exists>bs. tdb_xid_serialize f g b (Some data) (Some cap) = Some bs \<and>
    length bs = TDB_XID_HEADER_SIZE + nat (g + b) \<and>
    tdb_xid_deserialize (Some bs) =
      Some (f, g, b, take (nat (g + b)) data @ replicate (TDB_XID_DATA_SIZE - nat (g + b)) 0)"
  using deserialize_serialize [of g b f data cap] assms
  by (simp add: TDB_XID_HEADER_SIZE_def xid_zero_tail_def)

theorem xid_roundtrip_witness:
  "\<exists>bs. tdb_xid_serialize (-1) 2 1 (Some [7, 8, 9]) (Some 19) = Some bs \<and>
    length bs = TDB_XID_HEADER_SIZE + nat (2 + 1) \<and>
    tdb_xid_deserialize (Some bs) =
      Some (-1, 2, 1, take (nat (2 + 1)) [7, 8, 9] @
        replicate (TDB_XID_DATA_SIZE - nat (2 + 1)) 0)"
  by (rule xid_roundtrip)
    (simp_all add: tdb_xid_lengths_valid_def xid_const_defs)

text \<open>The decoder accepts exactly the encoder's outputs. A byte string decodes to an
  identifier if and only if the identifier is well formed and its encoding is that byte
  string; a corrupt length, a truncated or an over-long record is never accepted as an
  identifier, and no two byte strings name one.\<close>

theorem xid_decode_exact:
  "tdb_xid_deserialize (Some bs) = Some x \<longleftrightarrow> xid_ok x \<and> xid_enc x = bs"
proof
  assume a: "tdb_xid_deserialize (Some bs) = Some x"
  obtain f g b data where x: "x = (f, g, b, data)" by (cases x)
  have "length bs \<le> TDB_XID_MAX_SERIALIZED"
    using deserialize_SomeD(1,2) [OF a [unfolded x]]
    by (auto simp: lengths_valid_iff xid_const_defs)
  then show "xid_ok x \<and> xid_enc x = bs"
    using serialize_deserialize [OF a [unfolded x]] deserialize_ok [OF a]
    by (simp add: x xid_enc_def)
qed (auto simp: xid.dec_enc)

end
