(* ===== verification/Trx.thy ===== *)
theory Trx
  imports Engine Xid
begin

text \<open>The transaction of a connection (\<open>tidesdb_trx_t\<close>) and the callbacks that drive it: lazy
  creation and reset, savepoints, two-phase commit, rollback, connection close, consistent
  snapshots, and the places outside the commit protocol that drop or recycle a transaction (backup,
  truncate, bulk commit, DDL). The engine is the parameter of theory \<open>Engine\<close>.\<close>

section \<open>Definitions\<close>

text \<open>\<open>tx_locks\<close> stands for the list of row locks that \<open>row_locks_release_all\<close> empties; theory
  \<open>Row_Lock\<close> has the lock table itself.\<close>

record tidesdb_trx =
  tx_txn :: "nat option"
  tx_dirty :: bool
  tx_stmt_savepoint_active :: bool
  tx_stmt_was_dirty :: bool
  tx_needs_reset :: bool
  tx_isolation_level :: isolation
  tx_generation :: u64
  tx_locks :: "bytes list"

record 'e conn =
  cn_trx :: "tidesdb_trx option"
  cn_eng :: 'e

definition row_locks_release_all :: "tidesdb_trx \<Rightarrow> tidesdb_trx" where
  "row_locks_release_all tr = tr\<lparr>tx_locks := []\<rparr>"

subsection \<open>Isolation levels\<close>

datatype sql_iso = ISO_READ_UNCOMMITTED | ISO_READ_COMMITTED | ISO_REPEATABLE_READ | ISO_SERIALIZABLE | ISO_OTHER

definition resolve_effective_isolation :: "bool \<Rightarrow> sql_iso \<Rightarrow> isolation \<Rightarrow> isolation" where
  "resolve_effective_isolation srv_pessimistic_locking session_iso table_iso =
     (if srv_pessimistic_locking then TDB_ISOLATION_READ_COMMITTED
      else case session_iso of
             ISO_READ_UNCOMMITTED \<Rightarrow> TDB_ISOLATION_READ_UNCOMMITTED
           | ISO_READ_COMMITTED \<Rightarrow> TDB_ISOLATION_READ_COMMITTED
           | ISO_REPEATABLE_READ \<Rightarrow> TDB_ISOLATION_SNAPSHOT
           | ISO_SERIALIZABLE \<Rightarrow> TDB_ISOLATION_SERIALIZABLE
           | ISO_OTHER \<Rightarrow> TDB_ISOLATION_READ_COMMITTED)"

subsection \<open>Getting a transaction\<close>

text \<open>\<open>get_or_create_trx\<close>: false where the code returns NULL.\<close>

definition new_trx :: "isolation \<Rightarrow> nat \<Rightarrow> tidesdb_trx" where
  "new_trx lvl t = \<lparr>tx_txn = Some t, tx_dirty = False, tx_stmt_savepoint_active = False,
     tx_stmt_was_dirty = False, tx_needs_reset = False, tx_isolation_level = lvl, tx_generation = 1, tx_locks = []\<rparr>"

definition get_or_create_trx :: "'e engine \<Rightarrow> isolation \<Rightarrow> 'e conn \<Rightarrow> bool \<times> 'e conn" where
  "get_or_create_trx E lvl c =
     (case cn_trx c of
        Some tr \<Rightarrow>
          (case tx_txn tr of
             None \<Rightarrow>
               (case txn_begin_with_isolation E lvl (cn_eng c) of (rc, t, e) \<Rightarrow>
                  if rc \<noteq> TDB_SUCCESS then (False, c\<lparr>cn_eng := e\<rparr>)
                  else (True, \<lparr>cn_trx = Some (tr\<lparr>tx_txn := Some t, tx_dirty := False, tx_isolation_level := lvl,
                                                tx_generation := tx_generation tr + 1\<rparr>), cn_eng = e\<rparr>))
           | Some t \<Rightarrow>
               if tx_needs_reset tr
               then (case txn_reset E t lvl (cn_eng c) of (rrc, e1) \<Rightarrow>
                  if rrc = TDB_SUCCESS
                  then (True, \<lparr>cn_trx = Some (tr\<lparr>tx_needs_reset := False, tx_isolation_level := lvl,
                                                tx_generation := tx_generation tr + 1\<rparr>), cn_eng = e1\<rparr>)
                  else (case txn_begin_with_isolation E lvl (txn_free E t e1) of (rc, t', e2) \<Rightarrow>
                     if rc \<noteq> TDB_SUCCESS then (False, \<lparr>cn_trx = Some (tr\<lparr>tx_txn := None\<rparr>), cn_eng = e2\<rparr>)
                     else (True, \<lparr>cn_trx = Some (tr\<lparr>tx_txn := Some t', tx_needs_reset := False,
                                                   tx_isolation_level := lvl, tx_generation := tx_generation tr + 1\<rparr>),
                                  cn_eng = e2\<rparr>)))
               else (True, c))
      | None \<Rightarrow>
          (case txn_begin_with_isolation E lvl (cn_eng c) of (rc, t, e) \<Rightarrow>
             if rc \<noteq> TDB_SUCCESS then (False, c\<lparr>cn_eng := e\<rparr>)
             else (True, \<lparr>cn_trx = Some (new_trx lvl t), cn_eng = e\<rparr>)))"

definition tidesdb_start_consistent_snapshot :: "'e engine \<Rightarrow> bool \<Rightarrow> sql_iso \<Rightarrow> 'e conn \<Rightarrow> bool \<times> 'e conn" where
  "tidesdb_start_consistent_snapshot E srv_pessimistic_locking session_iso c =
     (let lvl = resolve_effective_isolation srv_pessimistic_locking session_iso TDB_ISOLATION_REPEATABLE_READ in
      get_or_create_trx E (if iso_rank lvl < iso_rank TDB_ISOLATION_SNAPSHOT then TDB_ISOLATION_SNAPSHOT else lvl) c)"

subsection \<open>Savepoints\<close>

text \<open>\<open>sv\<close> is the address of the server's savepoint slot. The callbacks do nothing without a live
  transaction or a slot.\<close>

definition live_txn :: "'e conn \<Rightarrow> (tidesdb_trx \<times> nat) option" where
  "live_txn c = (case cn_trx c of None \<Rightarrow> None | Some tr \<Rightarrow> map_option (Pair tr) (tx_txn tr))"

definition tidesdb_savepoint_set :: "'e engine \<Rightarrow> nat option \<Rightarrow> 'e conn \<Rightarrow> ha_err \<times> 'e conn" where
  "tidesdb_savepoint_set E sv c =
     (case (live_txn c, sv) of
        (Some (tr, t), Some p) \<Rightarrow>
          (case txn_savepoint E t (SvPtr p) (cn_eng c) of (rc, e) \<Rightarrow>
             (if rc = TDB_SUCCESS then HA_OK else tdb_rc_to_ha rc, c\<lparr>cn_eng := e\<rparr>))
      | _ \<Rightarrow> (HA_OK, c))"

definition tidesdb_savepoint_rollback :: "'e engine \<Rightarrow> nat option \<Rightarrow> 'e conn \<Rightarrow> ha_err \<times> 'e conn" where
  "tidesdb_savepoint_rollback E sv c =
     (case (live_txn c, sv) of
        (Some (tr, t), Some p) \<Rightarrow>
          (case txn_rollback_to_savepoint E t (SvPtr p) (cn_eng c) of (rc, e) \<Rightarrow>
             if rc = TDB_SUCCESS then (HA_OK, c\<lparr>cn_eng := snd (txn_savepoint E t (SvPtr p) e)\<rparr>)
             else (if rc = TDB_ERR_NOT_FOUND then HA_ERR_NO_SAVEPOINT else tdb_rc_to_ha rc, c\<lparr>cn_eng := e\<rparr>))
      | _ \<Rightarrow> (HA_OK, c))"

definition tidesdb_savepoint_release :: "'e engine \<Rightarrow> nat option \<Rightarrow> 'e conn \<Rightarrow> ha_err \<times> 'e conn" where
  "tidesdb_savepoint_release E sv c =
     (case (live_txn c, sv) of
        (Some (tr, t), Some p) \<Rightarrow>
          (case txn_release_savepoint E t (SvPtr p) (cn_eng c) of (rc, e) \<Rightarrow>
             (if rc = TDB_SUCCESS then HA_OK
              else if rc = TDB_ERR_NOT_FOUND then HA_ERR_NO_SAVEPOINT else tdb_rc_to_ha rc, c\<lparr>cn_eng := e\<rparr>))
      | _ \<Rightarrow> (HA_OK, c))"

subsection \<open>Two-phase commit\<close>

text \<open>\<open>all\<close> and \<open>in_block\<close> (\<open>OPTION_NOT_AUTOCOMMIT | OPTION_BEGIN\<close>) decide whether a callback ends
  the transaction. A finished transaction is kept for reuse and marked for reset, or freed.\<close>

definition is_real_end :: "bool \<Rightarrow> bool \<Rightarrow> bool" where "is_real_end all in_block = (all \<or> \<not> in_block)"

definition release_stmt_savepoint :: "'e engine \<Rightarrow> nat \<Rightarrow> tidesdb_trx \<times> 'e \<Rightarrow> tidesdb_trx \<times> 'e" where
  "release_stmt_savepoint E t = (\<lambda>(tr, e).
     if tx_stmt_savepoint_active tr
     then (tr\<lparr>tx_stmt_savepoint_active := False\<rparr>, snd (txn_release_savepoint E t StmtSp e)) else (tr, e))"

definition finish_reusable :: "tidesdb_trx \<Rightarrow> tidesdb_trx" where
  "finish_reusable tr = row_locks_release_all (tr\<lparr>tx_generation := tx_generation tr + 1, tx_needs_reset := True,
     tx_dirty := False, tx_stmt_savepoint_active := False\<rparr>)"

definition finish_freed :: "tidesdb_trx \<Rightarrow> tidesdb_trx" where
  "finish_freed tr = row_locks_release_all (tr\<lparr>tx_txn := None, tx_generation := tx_generation tr + 1,
     tx_dirty := False, tx_stmt_savepoint_active := False\<rparr>)"

record xid_t =
  xid_format_id :: int
  xid_gtrid_length :: int
  xid_bqual_length :: int
  xid_data :: bytes

definition tidesdb_prepare :: "'e engine \<Rightarrow> xid_t \<Rightarrow> bool \<Rightarrow> bool \<Rightarrow> 'e conn \<Rightarrow> ha_err \<times> 'e conn" where
  "tidesdb_prepare E xid all in_block c =
     (case live_txn c of
        None \<Rightarrow> (HA_OK, c)
      | Some (tr, t) \<Rightarrow>
          if \<not> is_real_end all in_block then (HA_OK, c)
          else if \<not> tx_dirty tr then (HA_OK, c)
          else (case release_stmt_savepoint E t (tr, cn_eng c) of (tr1, e1) \<Rightarrow>
            (case tdb_xid_serialize (xid_format_id xid) (xid_gtrid_length xid) (xid_bqual_length xid)
                    (Some (xid_data xid)) (Some TDB_XID_MAX_SERIALIZED) of
               None \<Rightarrow> (HA_ERR_INTERNAL_ERROR, \<lparr>cn_trx = Some (finish_reusable tr1), cn_eng = txn_rollback E t e1\<rparr>)
             | Some x \<Rightarrow>
                 (case txn_prepare E t x e1 of (rc, e2) \<Rightarrow>
                    if rc \<noteq> TDB_SUCCESS
                    then (tdb_rc_to_ha rc, \<lparr>cn_trx = Some (finish_freed tr1),
                                            cn_eng = txn_free E t (txn_rollback E t e2)\<rparr>)
                    else (HA_OK, \<lparr>cn_trx = Some tr1, cn_eng = e2\<rparr>)))))"

definition tidesdb_commit :: "'e engine \<Rightarrow> bool \<Rightarrow> bool \<Rightarrow> 'e conn \<Rightarrow> ha_err \<times> 'e conn" where
  "tidesdb_commit E all in_block c =
     (case live_txn c of
        None \<Rightarrow> (HA_OK, c)
      | Some (tr, t) \<Rightarrow>
          if \<not> is_real_end all in_block then (HA_OK, c\<lparr>cn_trx := Some (tr\<lparr>tx_stmt_was_dirty := False\<rparr>)\<rparr>)
          else (case txn_state_of E t (cn_eng c) of
                  Some TDB_TXN_STATE_COMMITTED \<Rightarrow> (HA_OK, c\<lparr>cn_trx := Some (finish_reusable tr)\<rparr>)
                | Some TDB_TXN_STATE_ABORTED \<Rightarrow> (HA_OK, c\<lparr>cn_trx := Some (finish_reusable tr)\<rparr>)
                | Some TDB_TXN_STATE_PREPARED \<Rightarrow>
                    (case txn_commit_prepared E t (cn_eng c) of (prc, e) \<Rightarrow>
                       if prc \<noteq> TDB_SUCCESS then (tdb_rc_to_ha prc, c\<lparr>cn_eng := e\<rparr>)
                       else (HA_OK, \<lparr>cn_trx = Some (finish_reusable tr), cn_eng = e\<rparr>))
                | _ \<Rightarrow>
                    (case release_stmt_savepoint E t (tr, cn_eng c) of (tr1, e1) \<Rightarrow>
                       if tx_dirty tr1
                       then (case txn_commit E t e1 of (rc, e2) \<Rightarrow>
                         if rc \<noteq> TDB_SUCCESS
                         then (tdb_rc_to_ha rc, \<lparr>cn_trx = Some (finish_freed tr1),
                                                 cn_eng = txn_free E t (txn_rollback E t e2)\<rparr>)
                         else (HA_OK, \<lparr>cn_trx = Some (finish_reusable tr1), cn_eng = e2\<rparr>))
                       else (HA_OK, \<lparr>cn_trx = Some (finish_reusable tr1), cn_eng = txn_rollback E t e1\<rparr>))))"

definition tidesdb_rollback :: "'e engine \<Rightarrow> bool \<Rightarrow> bool \<Rightarrow> 'e conn \<Rightarrow> ha_err \<times> 'e conn" where
  "tidesdb_rollback E all in_block c =
     (case live_txn c of
        None \<Rightarrow> (HA_OK, c)
      | Some (tr, t) \<Rightarrow>
          (case release_stmt_savepoint E t (tr, cn_eng c) of (tr1, e1) \<Rightarrow>
             let e2 = (case txn_state_of E t e1 of
                         Some TDB_TXN_STATE_COMMITTED \<Rightarrow> e1
                       | Some TDB_TXN_STATE_ABORTED \<Rightarrow> e1
                       | Some TDB_TXN_STATE_PREPARED \<Rightarrow> snd (txn_rollback_prepared E t e1)
                       | _ \<Rightarrow> txn_rollback E t e1)
             in (HA_OK, \<lparr>cn_trx = Some (finish_reusable tr1), cn_eng = e2\<rparr>)))"

definition tidesdb_close_connection :: "'e engine \<Rightarrow> 'e conn \<Rightarrow> 'e conn" where
  "tidesdb_close_connection E c =
     (case cn_trx c of
        None \<Rightarrow> c
      | Some tr \<Rightarrow>
          \<lparr>cn_trx = None,
           cn_eng = (case tx_txn tr of None \<Rightarrow> cn_eng c | Some t \<Rightarrow> txn_free E t (txn_rollback E t (cn_eng c)))\<rparr>)"

subsection \<open>Dropping a transaction elsewhere\<close>

text \<open>What a DML statement does to the transaction record before its first write.\<close>

definition mark_dirty :: "'e conn \<Rightarrow> 'e conn" where
  "mark_dirty c = c\<lparr>cn_trx := map_option (\<lambda>tr. tr\<lparr>tx_dirty := True, tx_stmt_was_dirty := True\<rparr>) (cn_trx c)\<rparr>"

text \<open>The part of \<open>tidesdb_backup_dir_check\<close> that discards the connection's transaction, the same
  step of \<open>delete_all_rows\<close>, and the flush before column families change.\<close>

definition backup_discard_txn :: "'e engine \<Rightarrow> 'e conn \<Rightarrow> 'e conn" where
  "backup_discard_txn E c =
     (case live_txn c of
        None \<Rightarrow> c
      | Some (tr, t) \<Rightarrow>
          \<lparr>cn_trx = Some (tr\<lparr>tx_txn := None, tx_dirty := False, tx_generation := tx_generation tr + 1\<rparr>),
           cn_eng = txn_free E t (txn_rollback E t (cn_eng c))\<rparr>)"

definition truncate_discard_txn :: "'e engine \<Rightarrow> 'e conn \<Rightarrow> 'e conn" where
  "truncate_discard_txn E c =
     (case live_txn c of
        None \<Rightarrow> c
      | Some (tr, t) \<Rightarrow>
          \<lparr>cn_trx = Some (tr\<lparr>tx_txn := None, tx_dirty := False\<rparr>),
           cn_eng = txn_free E t (txn_rollback E t (cn_eng c))\<rparr>)"

definition tidesdb_flush_engine_txn_before_cf_mutation :: "'e engine \<Rightarrow> 'e conn \<Rightarrow> 'e conn" where
  "tidesdb_flush_engine_txn_before_cf_mutation E c =
     (case live_txn c of
        None \<Rightarrow> c
      | Some (tr, t) \<Rightarrow>
          (case release_stmt_savepoint E t (tr, cn_eng c) of (tr1, e1) \<Rightarrow>
             let e2 = (if tx_dirty tr1
                       then (case txn_commit E t e1 of (rc, e) \<Rightarrow> if rc \<noteq> TDB_SUCCESS then txn_rollback E t e else e)
                       else txn_rollback E t e1)
             in \<lparr>cn_trx = Some ((finish_freed tr1)\<lparr>tx_needs_reset := False\<rparr>), cn_eng = txn_free E t e2\<rparr>))"

text \<open>\<open>maybe_bulk_commit\<close>, without the handler's iterators, which it frees.\<close>

definition maybe_bulk_commit :: "'e engine \<Rightarrow> 'e conn \<Rightarrow> ha_err \<times> 'e conn" where
  "maybe_bulk_commit E c =
     (case live_txn c of
        None \<Rightarrow> (HA_OK, c)
      | Some (tr, t) \<Rightarrow>
          (case txn_commit E t (cn_eng c) of (crc, e1) \<Rightarrow>
             if crc \<noteq> TDB_SUCCESS then (tdb_rc_to_ha crc, c\<lparr>cn_eng := e1\<rparr>)
             else (case txn_reset E t TDB_ISOLATION_READ_COMMITTED e1 of (rrc, e2) \<Rightarrow>
               if rrc = TDB_SUCCESS
               then (HA_OK, \<lparr>cn_trx = Some (tr\<lparr>tx_generation := tx_generation tr + 1\<rparr>), cn_eng = e2\<rparr>)
               else (case txn_begin_with_isolation E TDB_ISOLATION_READ_COMMITTED (txn_free E t e2) of (rc, t', e3) \<Rightarrow>
                 if rc \<noteq> TDB_SUCCESS then (tdb_rc_to_ha rc, \<lparr>cn_trx = Some (tr\<lparr>tx_txn := None\<rparr>), cn_eng = e3\<rparr>)
                 else (HA_OK, \<lparr>cn_trx = Some (tr\<lparr>tx_txn := Some t', tx_generation := tx_generation tr + 1\<rparr>), cn_eng = e3\<rparr>)))))"

subsection \<open>A connection as a state machine\<close>

text \<open>The calls the server makes on one connection, in any order it can make them: a statement
  starts by getting the transaction, writes while it runs, and ends with a commit or rollback
  callback. The flag says that a statement is running. Of the failures of \<open>get_or_create_trx\<close>, the
  one that leaves a freed transaction still marked for reset is left out here, and so are the two
  discards above; \<open>stale_reset_loses_write\<close> shows what they lead to.\<close>

definition stale_reset :: "'e conn \<Rightarrow> bool" where
  "stale_reset c \<longleftrightarrow> (\<exists>tr. cn_trx c = Some tr \<and> tx_txn tr = None \<and> tx_needs_reset tr)"

inductive conn_step :: "'e engine \<Rightarrow> 'e conn \<times> bool \<Rightarrow> 'e conn \<times> bool \<Rightarrow> bool" for E where
  start: "get_or_create_trx E lvl c = (ok, c') \<Longrightarrow> \<not> stale_reset c' \<Longrightarrow> conn_step E (c, False) (c', ok)"
| snapshot: "tidesdb_start_consistent_snapshot E pess lvl c = (ok, c') \<Longrightarrow> \<not> stale_reset c' \<Longrightarrow>
    conn_step E (c, False) (c', False)"
| put: "live_txn c = Some (tr, t) \<Longrightarrow> txn_put E t cf k v ttl (cn_eng c) = (rc, e) \<Longrightarrow>
    conn_step E (c, True) ((mark_dirty c)\<lparr>cn_eng := e\<rparr>, True)"
| del: "live_txn c = Some (tr, t) \<Longrightarrow> txn_delete E t cf k (cn_eng c) = (rc, e) \<Longrightarrow>
    conn_step E (c, True) ((mark_dirty c)\<lparr>cn_eng := e\<rparr>, True)"
| bulk: "maybe_bulk_commit E c = (r, c') \<Longrightarrow> conn_step E (c, True) (c', r = HA_OK)"
| savepoint: "tidesdb_savepoint_set E sv c = (r, c') \<Longrightarrow> conn_step E (c, b) (c', b)"
| savepoint_rollback: "tidesdb_savepoint_rollback E sv c = (r, c') \<Longrightarrow> conn_step E (c, b) (c', b)"
| savepoint_release: "tidesdb_savepoint_release E sv c = (r, c') \<Longrightarrow> conn_step E (c, b) (c', b)"
| prepare: "tidesdb_prepare E xid all blk c = (r, c') \<Longrightarrow> conn_step E (c, b) (c', False)"
| commit: "tidesdb_commit E all blk c = (r, c') \<Longrightarrow> conn_step E (c, b) (c', False)"
| rollback: "tidesdb_rollback E all blk c = (r, c') \<Longrightarrow> conn_step E (c, b) (c', False)"
| flush: "conn_step E (c, b) (tidesdb_flush_engine_txn_before_cf_mutation E c, False)"
| close: "conn_step E (c, b) (tidesdb_close_connection E c, False)"

definition conn_init :: "'e conn \<times> bool \<Rightarrow> bool" where
  "conn_init s \<longleftrightarrow> cn_trx (fst s) = None \<and> \<not> snd s"

text \<open>A run of row operations of a statement on the engine.\<close>

datatype dml_op = PutOp nat bytes bytes int | DelOp nat bytes

fun run_ops :: "'e engine \<Rightarrow> nat \<Rightarrow> dml_op list \<Rightarrow> 'e \<Rightarrow> 'e" where
  "run_ops E t [] e = e"
| "run_ops E t (PutOp cf k v ttl # ops) e = run_ops E t ops (snd (txn_put E t cf k v ttl e))"
| "run_ops E t (DelOp cf k # ops) e = run_ops E t ops (snd (txn_delete E t cf k e))"

text \<open>A statement that writes, as the callbacks see it: join the transaction, mark it, write.\<close>

definition write_stmt :: "'e engine \<Rightarrow> isolation \<Rightarrow> dml_op list \<Rightarrow> 'e conn \<Rightarrow> 'e conn" where
  "write_stmt E lvl ops c =
     (let c1 = snd (get_or_create_trx E lvl c) in
      case live_txn c1 of None \<Rightarrow> c1
      | Some (tr, t) \<Rightarrow> (mark_dirty c1)\<lparr>cn_eng := run_ops E t ops (cn_eng c1)\<rparr>)"

text \<open>The invariant: a transaction that a statement uses, or that has uncommitted writes, is not
  marked for reset, and a freed one is not marked either.\<close>

definition trx_ok :: "bool \<Rightarrow> tidesdb_trx \<Rightarrow> bool" where
  "trx_ok b tr \<longleftrightarrow> (tx_needs_reset tr \<longrightarrow> \<not> b \<and> \<not> tx_dirty tr \<and> tx_txn tr \<noteq> None)"

definition conn_inv :: "'e conn \<times> bool \<Rightarrow> bool" where
  "conn_inv s \<longleftrightarrow> (case cn_trx (fst s) of None \<Rightarrow> True | Some tr \<Rightarrow> trx_ok (snd s) tr)"

text \<open>What a step may do to committed data: nothing, or publish the whole write buffer of the
  connection's transaction.\<close>

definition only_publishes :: "'e observer \<Rightarrow> 'e conn \<Rightarrow> 'e conn \<Rightarrow> bool" where
  "only_publishes B c c' \<longleftrightarrow>
     ob_db B (cn_eng c') = ob_db B (cn_eng c) \<or>
     (\<exists>tr t. live_txn c = Some (tr, t) \<and>
        ob_db B (cn_eng c') = apply_writes (ob_buf B (cn_eng c) t) (ob_db B (cn_eng c)))"

section \<open>Lemmas\<close>

lemmas engine_law_defs = engine_laws_def begin_laws_def finish_laws_def prepare_laws_def savepoint_laws_def
lemmas finish_defs = finish_reusable_def finish_freed_def row_locks_release_all_def

lemma tdb_rc_to_ha_OK [simp]: "tdb_rc_to_ha rc = HA_OK \<longleftrightarrow> rc = TDB_SUCCESS"
  by (cases rc) simp_all

lemma live_txn_Some: "live_txn c = Some (tr, t) \<longleftrightarrow> cn_trx c = Some tr \<and> tx_txn tr = Some t"
  by (auto simp: live_txn_def split: option.splits)

lemma live_txn_None: "live_txn c = None \<longleftrightarrow> (\<forall>tr. cn_trx c = Some tr \<longrightarrow> tx_txn tr = None)"
  by (auto simp: live_txn_def split: option.splits)

lemma release_stmt_savepoint_keeps:
  assumes "engine_laws E B" "release_stmt_savepoint E t (tr, e) = (tr', e')"
  shows "ob_db B e' = ob_db B e" "ob_buf B e' t = ob_buf B e t" "txn_state_of E t e' = txn_state_of E t e"
    "tr' = tr\<lparr>tx_stmt_savepoint_active := False\<rparr>"
proof -
  obtain rc e1 where r: "txn_release_savepoint E t StmtSp e = (rc, e1)" by (cases "txn_release_savepoint E t StmtSp e")
  note k = law_release_savepoint [OF assms(1) r]
  show "ob_db B e' = ob_db B e" "ob_buf B e' t = ob_buf B e t" "txn_state_of E t e' = txn_state_of E t e"
    "tr' = tr\<lparr>tx_stmt_savepoint_active := False\<rparr>"
    using assms(2) r k by (auto simp: release_stmt_savepoint_def split: if_splits)
qed

lemma publishes_same: "ob_db B (cn_eng c') = ob_db B (cn_eng c) \<Longrightarrow> only_publishes B c c'"
  by (simp add: only_publishes_def)

lemma get_or_create_trx_db:
  assumes "engine_laws E B" "get_or_create_trx E lvl c = (ok, c')"
  shows "ob_db B (cn_eng c') = ob_db B (cn_eng c)"
  using assms(2)
  by (auto simp: get_or_create_trx_def law_begin(1) [OF assms(1)] law_reset(1) [OF assms(1)] law_drop [OF assms(1)]
      split: option.splits prod.splits if_splits)

lemma savepoint_callbacks_db:
  assumes "engine_laws E B"
  shows "tidesdb_savepoint_set E sv c = (r, c') \<Longrightarrow> ob_db B (cn_eng c') = ob_db B (cn_eng c)"
    "tidesdb_savepoint_rollback E sv c = (r, c') \<Longrightarrow> ob_db B (cn_eng c') = ob_db B (cn_eng c)"
    "tidesdb_savepoint_release E sv c = (r, c') \<Longrightarrow> ob_db B (cn_eng c') = ob_db B (cn_eng c)"
proof -
  have s: "ob_db B (snd (txn_savepoint E t n e)) = ob_db B e" for t n e
    by (cases "txn_savepoint E t n e") (simp add: law_savepoint(1) [OF assms])
  show "tidesdb_savepoint_set E sv c = (r, c') \<Longrightarrow> ob_db B (cn_eng c') = ob_db B (cn_eng c)"
    by (auto simp: tidesdb_savepoint_set_def law_savepoint(1) [OF assms] split: option.splits prod.splits)
  show "tidesdb_savepoint_rollback E sv c = (r, c') \<Longrightarrow> ob_db B (cn_eng c') = ob_db B (cn_eng c)"
    by (auto simp: tidesdb_savepoint_rollback_def s law_rollback_to(1) [OF assms] split: option.splits prod.splits if_splits)
  show "tidesdb_savepoint_release E sv c = (r, c') \<Longrightarrow> ob_db B (cn_eng c') = ob_db B (cn_eng c)"
    by (auto simp: tidesdb_savepoint_release_def law_release_savepoint(1) [OF assms] split: option.splits prod.splits)
qed

lemma prepare_db:
  assumes "engine_laws E B" "tidesdb_prepare E xid all blk c = (r, c')"
  shows "ob_db B (cn_eng c') = ob_db B (cn_eng c)"
  using assms(2)
  by (auto simp: tidesdb_prepare_def law_prepare(1) [OF assms(1)] law_drop [OF assms(1)]
      release_stmt_savepoint_keeps(1) [OF assms(1)] split: option.splits prod.splits if_splits)

lemma rollback_db:
  assumes "engine_laws E B" "tidesdb_rollback E all blk c = (r, c')"
  shows "ob_db B (cn_eng c') = ob_db B (cn_eng c)"
proof -
  have p: "ob_db B (snd (txn_rollback_prepared E t e)) = ob_db B e" if "txn_state_of E t e = Some TDB_TXN_STATE_PREPARED" for t e
    using that by (cases "txn_rollback_prepared E t e") (simp add: law_rollback_prepared [OF assms(1)])
  show ?thesis using assms(2)
    by (auto simp: tidesdb_rollback_def p law_drop [OF assms(1)] release_stmt_savepoint_keeps(1) [OF assms(1)]
        split: option.splits prod.splits txn_state.splits)
qed

lemma close_db:
  assumes "engine_laws E B"
  shows "ob_db B (cn_eng (tidesdb_close_connection E c)) = ob_db B (cn_eng c)"
  by (auto simp: tidesdb_close_connection_def law_drop [OF assms] split: option.splits)

lemma commit_publishes:
  assumes "engine_laws E B" "tidesdb_commit E all blk c = (r, c')" "live_txn c = Some (tr, t)"
  shows "if r = HA_OK \<and> is_real_end all blk \<and>
            (tx_dirty tr \<and> txn_state_of E t (cn_eng c) \<notin> {Some TDB_TXN_STATE_COMMITTED, Some TDB_TXN_STATE_ABORTED} \<or>
             txn_state_of E t (cn_eng c) = Some TDB_TXN_STATE_PREPARED)
         then ob_db B (cn_eng c') = apply_writes (ob_buf B (cn_eng c) t) (ob_db B (cn_eng c))
         else ob_db B (cn_eng c') = ob_db B (cn_eng c)"
proof -
  obtain tr1 e1 where r: "release_stmt_savepoint E t (tr, cn_eng c) = (tr1, e1)"
    by (cases "release_stmt_savepoint E t (tr, cn_eng c)")
  note k = release_stmt_savepoint_keeps [OF assms(1) r]
  have cp: "ob_db B e = (if rc = TDB_SUCCESS then apply_writes (ob_buf B e0 t) (ob_db B e0) else ob_db B e0)"
    if "txn_commit_prepared E t e0 = (rc, e)" "txn_state_of E t e0 = Some TDB_TXN_STATE_PREPARED" for e0 rc e
    using law_commit_prepared(1,2) [OF assms(1) that] by simp
  show ?thesis using assms(2,3) k cp
    by (auto simp: tidesdb_commit_def r law_drop [OF assms(1)] law_commit [OF assms(1)]
        split: option.splits prod.splits txn_state.splits if_splits)
qed

lemma prepare_yes:
  assumes L: "engine_laws E B" and live: "live_txn c = Some (tr, t)" and "tx_dirty tr" "is_real_end all blk"
    and act: "txn_state_of E t (cn_eng c) = Some TDB_TXN_STATE_ACTIVE"
    and prep: "tidesdb_prepare E xid all blk c = (HA_OK, c1)"
  obtains x tr1 where
    "tdb_xid_serialize (xid_format_id xid) (xid_gtrid_length xid) (xid_bqual_length xid) (Some (xid_data xid))
       (Some TDB_XID_MAX_SERIALIZED) = Some x"
    "live_txn c1 = Some (tr1, t)" "ob_buf B (cn_eng c1) t = ob_buf B (cn_eng c) t" "ob_db B (cn_eng c1) = ob_db B (cn_eng c)"
    "txn_state_of E t (cn_eng c1) =
       Some (if ob_buf B (cn_eng c) t = Map.empty then TDB_TXN_STATE_COMMITTED else TDB_TXN_STATE_PREPARED)"
proof -
  obtain tr1 e1 where r: "release_stmt_savepoint E t (tr, cn_eng c) = (tr1, e1)"
    by (cases "release_stmt_savepoint E t (tr, cn_eng c)")
  note k = release_stmt_savepoint_keeps [OF L r]
  obtain x e2 where x: "tdb_xid_serialize (xid_format_id xid) (xid_gtrid_length xid) (xid_bqual_length xid)
      (Some (xid_data xid)) (Some TDB_XID_MAX_SERIALIZED) = Some x"
    and p: "txn_prepare E t x e1 = (TDB_SUCCESS, e2)" "c1 = \<lparr>cn_trx = Some tr1, cn_eng = e2\<rparr>"
    using prep assms(3,4) by (auto simp: tidesdb_prepare_def live r split: option.splits prod.splits if_splits)
  have "live_txn c1 = Some (tr1, t)" using live k(4) p(2) by (simp add: live_txn_Some)
  then show thesis using that [OF x] law_prepare [OF L p(1)] act k p(2) by simp
qed

lemma commit_prepared_failure:
  assumes "tidesdb_commit E all blk c = (r, c')" "r \<noteq> HA_OK" "live_txn c = Some (tr, t)"
    "txn_state_of E t (cn_eng c) = Some TDB_TXN_STATE_PREPARED"
  obtains rc e where "txn_commit_prepared E t (cn_eng c) = (rc, e)" "rc \<noteq> TDB_SUCCESS" "c' = c\<lparr>cn_eng := e\<rparr>"
  using assms by (auto simp: tidesdb_commit_def split: prod.splits if_splits)

lemma live_txn_eng [simp]: "live_txn (c\<lparr>cn_eng := e\<rparr>) = live_txn c"
  by (simp add: live_txn_def)

lemma flush_publishes:
  assumes "engine_laws E B"
  shows "only_publishes B c (tidesdb_flush_engine_txn_before_cf_mutation E c)"
proof (cases "live_txn c")
  case (Some p)
  obtain tr t where p: "p = (tr, t)" by (cases p)
  obtain tr1 e1 where r: "release_stmt_savepoint E t (tr, cn_eng c) = (tr1, e1)"
    by (cases "release_stmt_savepoint E t (tr, cn_eng c)")
  obtain rc e2 where q: "txn_commit E t e1 = (rc, e2)" by (cases "txn_commit E t e1")
  note k = release_stmt_savepoint_keeps [OF assms r] law_commit [OF assms q]
  show ?thesis using Some k
    by (auto simp: only_publishes_def tidesdb_flush_engine_txn_before_cf_mutation_def p r q law_drop [OF assms])
qed (simp add: only_publishes_def tidesdb_flush_engine_txn_before_cf_mutation_def)

lemma bulk_publishes:
  assumes "engine_laws E B" "maybe_bulk_commit E c = (r, c')"
  shows "only_publishes B c c'"
proof (cases "live_txn c")
  case (Some p)
  obtain tr t where p: "p = (tr, t)" by (cases p)
  obtain rc e2 where q: "txn_commit E t (cn_eng c) = (rc, e2)" by (cases "txn_commit E t (cn_eng c)")
  note k = law_commit [OF assms(1) q]
  show ?thesis using Some k assms(2)
    by (auto simp: only_publishes_def maybe_bulk_commit_def p q law_drop [OF assms(1)] law_begin(1) [OF assms(1)]
        law_reset(1) [OF assms(1)] split: if_splits prod.splits)
qed (use assms(2) in \<open>simp add: only_publishes_def maybe_bulk_commit_def\<close>)

lemma trx_ok_simps [simp]:
  "trx_ok b (tr\<lparr>tx_stmt_savepoint_active := x\<rparr>) = trx_ok b tr"
  "trx_ok b (tr\<lparr>tx_stmt_was_dirty := x\<rparr>) = trx_ok b tr"
  "trx_ok b (tr\<lparr>tx_generation := g\<rparr>) = trx_ok b tr"
  by (simp_all add: trx_ok_def)

lemma trx_ok_closed: "trx_ok b tr \<Longrightarrow> trx_ok False tr"
  by (simp add: trx_ok_def)

lemma release_stmt_savepoint_fields:
  assumes "release_stmt_savepoint E t (tr, e) = (tr', e')"
  shows "tx_txn tr' = tx_txn tr \<and> tx_dirty tr' = tx_dirty tr \<and> tx_needs_reset tr' = tx_needs_reset tr"
  using assms by (auto simp: release_stmt_savepoint_def split: if_splits)

lemma get_or_create_trx_inv:
  assumes "get_or_create_trx E lvl c = (ok, c')" "conn_inv (c, False)" "\<not> stale_reset c'"
  shows "conn_inv (c', ok)"
  using assms
  by (auto simp: get_or_create_trx_def conn_inv_def trx_ok_def stale_reset_def new_trx_def
      split: option.splits prod.splits if_splits)

lemma end_callbacks_inv:
  assumes "conn_inv (c, b)"
  shows "tidesdb_prepare E xid all blk c = (r, c') \<Longrightarrow> conn_inv (c', False)"
    "tidesdb_commit E all blk c = (r, c') \<Longrightarrow> conn_inv (c', False)"
    "tidesdb_rollback E all blk c = (r, c') \<Longrightarrow> conn_inv (c', False)"
    "conn_inv (tidesdb_flush_engine_txn_before_cf_mutation E c, False)"
    "conn_inv (tidesdb_close_connection E c, False)"
proof -
  show "tidesdb_prepare E xid all blk c = (r, c') \<Longrightarrow> conn_inv (c', False)"
    using assms by (auto simp: tidesdb_prepare_def conn_inv_def trx_ok_def finish_defs live_txn_Some
        dest!: release_stmt_savepoint_fields split: option.splits prod.splits if_splits)
  show "tidesdb_commit E all blk c = (r, c') \<Longrightarrow> conn_inv (c', False)"
    using assms by (auto simp: tidesdb_commit_def conn_inv_def trx_ok_def finish_defs live_txn_Some
        dest!: release_stmt_savepoint_fields split: option.splits prod.splits if_splits txn_state.splits)
  show "tidesdb_rollback E all blk c = (r, c') \<Longrightarrow> conn_inv (c', False)"
    using assms by (auto simp: tidesdb_rollback_def conn_inv_def trx_ok_def finish_defs live_txn_Some
        dest!: release_stmt_savepoint_fields split: option.splits prod.splits)
  show "conn_inv (tidesdb_flush_engine_txn_before_cf_mutation E c, False)"
    using assms by (auto simp: tidesdb_flush_engine_txn_before_cf_mutation_def conn_inv_def trx_ok_def finish_defs
        split: option.splits prod.splits)
  show "conn_inv (tidesdb_close_connection E c, False)"
    using assms by (auto simp: tidesdb_close_connection_def conn_inv_def split: option.splits)
qed

lemma statement_callbacks_inv:
  assumes "conn_inv (c, b)"
  shows "maybe_bulk_commit E c = (r, c') \<Longrightarrow> b \<Longrightarrow> conn_inv (c', r = HA_OK)"
    "tidesdb_savepoint_set E sv c = (r, c') \<Longrightarrow> conn_inv (c', b)"
    "tidesdb_savepoint_rollback E sv c = (r, c') \<Longrightarrow> conn_inv (c', b)"
    "tidesdb_savepoint_release E sv c = (r, c') \<Longrightarrow> conn_inv (c', b)"
    "b \<Longrightarrow> conn_inv ((mark_dirty c)\<lparr>cn_eng := e\<rparr>, b)"
proof -
  show "maybe_bulk_commit E c = (r, c') \<Longrightarrow> b \<Longrightarrow> conn_inv (c', r = HA_OK)"
    using assms by (auto simp: maybe_bulk_commit_def conn_inv_def trx_ok_def live_txn_Some
        split: option.splits prod.splits if_splits)
  show "tidesdb_savepoint_set E sv c = (r, c') \<Longrightarrow> conn_inv (c', b)"
    using assms by (auto simp: tidesdb_savepoint_set_def conn_inv_def split: option.splits prod.splits)
  show "tidesdb_savepoint_rollback E sv c = (r, c') \<Longrightarrow> conn_inv (c', b)"
    using assms by (auto simp: tidesdb_savepoint_rollback_def conn_inv_def split: option.splits prod.splits if_splits)
  show "tidesdb_savepoint_release E sv c = (r, c') \<Longrightarrow> conn_inv (c', b)"
    using assms by (auto simp: tidesdb_savepoint_release_def conn_inv_def split: option.splits prod.splits)
  show "b \<Longrightarrow> conn_inv ((mark_dirty c)\<lparr>cn_eng := e\<rparr>, b)"
    using assms by (auto simp: mark_dirty_def conn_inv_def trx_ok_def split: option.splits)
qed

lemma snapshot_is_get:
  "\<exists>lvl'. tidesdb_start_consistent_snapshot E pess lvl c = get_or_create_trx E lvl' c"
  by (auto simp: tidesdb_start_consistent_snapshot_def Let_def)

lemma conn_inv_weaken: "conn_inv (c, b) \<Longrightarrow> conn_inv (c, False)"
  by (auto simp: conn_inv_def trx_ok_def split: option.splits)

lemma conn_inv_step: "conn_step E s s' \<Longrightarrow> conn_inv s \<Longrightarrow> conn_inv s'"
proof (induction rule: conn_step.induct)
  case (snapshot pess lvl c ok c')
  then obtain lvl' where "get_or_create_trx E lvl' c = (ok, c')" using snapshot_is_get by metis
  then show ?case using snapshot get_or_create_trx_inv conn_inv_weaken by blast
qed (auto intro: get_or_create_trx_inv end_callbacks_inv statement_callbacks_inv)

interpretation conn_machine: transition_system conn_init "conn_step E" conn_inv
proof
  show "conn_init s \<Longrightarrow> conn_inv s" for s :: "'a conn \<times> bool" by (auto simp: conn_init_def conn_inv_def)
  show "conn_inv s \<Longrightarrow> conn_step E s t \<Longrightarrow> conn_inv t" for s t by (rule conn_inv_step)
qed

lemma run_ops_saved:
  assumes "engine_laws E B"
  shows "ob_saved B (run_ops E t ops e) t = ob_saved B e t \<and> ob_db B (run_ops E t ops e) = ob_db B e"
proof (induction ops arbitrary: e)
  case (Cons a ops)
  show ?case
  proof (cases a)
    case (PutOp cf k v ttl)
    then show ?thesis using Cons law_put(1,2) [OF assms]
      by (cases "txn_put E t cf k v ttl e") simp
  next
    case (DelOp cf k)
    then show ?thesis using Cons law_delete(1,2) [OF assms]
      by (cases "txn_delete E t cf k e") simp
  qed
qed simp

lemmas conn_run_defs = write_stmt_def get_or_create_trx_def new_trx_def live_txn_def mark_dirty_def tidesdb_commit_def
  tidesdb_rollback_def tidesdb_prepare_def backup_discard_txn_def truncate_discard_txn_def is_real_end_def
  release_stmt_savepoint_def finish_defs mem_engine_def mem_observer_def mem_fresh_def mem_finish_def mem_apply_db_def
  mem_write_def mem_init_def

section \<open>Findings\<close>

text \<open>The sample runs start from a connection that has not used the engine.\<close>

definition fresh_conn :: "mem_state conn" where
  "fresh_conn = \<lparr>cn_trx = None, cn_eng = mem_init\<rparr>"

text \<open>A transaction discarded by a backup keeps its reset mark. After a committed statement and a
  backup, the first statement of a new transaction writes under that mark, so the second statement
  resets the transaction; the commit reports success and the first statement's row is not there.\<close>

theorem stale_reset_loses_write:
  "let c1 = snd (tidesdb_commit mem_engine True False (write_stmt mem_engine TDB_ISOLATION_READ_COMMITTED [PutOp 0 [1] [1] 0] fresh_conn));
       c2 = write_stmt mem_engine TDB_ISOLATION_SNAPSHOT [PutOp 0 [2] [2] 0] (backup_discard_txn mem_engine c1);
       c3 = write_stmt mem_engine TDB_ISOLATION_SNAPSHOT [PutOp 0 [3] [3] 0] (snd (tidesdb_commit mem_engine False True c2));
       (r, c4) = tidesdb_commit mem_engine True True c3
   in r = HA_OK \<and> map_of (ms_db (cn_eng c4)) (0, [3]) = Some [3] \<and> map_of (ms_db (cn_eng c4)) (0, [2]) = None"
  by code_simp

text \<open>A statement-level rollback inside a transaction discards the whole transaction, and the server
  goes on with it: the next statement writes, the commit reports success, and the row of the first
  statement, which had succeeded, is not there.\<close>

theorem stmt_rollback_drops_transaction:
  "let c1 = write_stmt mem_engine TDB_ISOLATION_SNAPSHOT [PutOp 0 [1] [1] 0] fresh_conn;
       (r2, c2) = tidesdb_rollback mem_engine False True (snd (tidesdb_commit mem_engine False True c1));
       c3 = write_stmt mem_engine TDB_ISOLATION_SNAPSHOT [PutOp 0 [2] [2] 0] c2;
       (r4, c4) = tidesdb_commit mem_engine True True c3
   in r2 = HA_OK \<and> r4 = HA_OK \<and> map_of (ms_db (cn_eng c4)) (0, [2]) = Some [2] \<and>
      map_of (ms_db (cn_eng c4)) (0, [1]) = None"
  by (simp add: conn_run_defs fresh_conn_def Let_def)

text \<open>Both discards keep the row locks, and a following rollback or commit keeps them too: without a
  transaction handle the callbacks return at once.\<close>

theorem discard_keeps_row_locks:
  "cn_trx c = Some tr \<Longrightarrow> tx_txn tr \<noteq> None \<Longrightarrow>
     map_option tx_locks (cn_trx (snd (tidesdb_rollback E all blk (backup_discard_txn E c)))) = Some (tx_locks tr) \<and>
     map_option tx_locks (cn_trx (snd (tidesdb_commit E all blk (truncate_discard_txn E c)))) = Some (tx_locks tr)"
  by (auto simp: backup_discard_txn_def truncate_discard_txn_def live_txn_def tidesdb_rollback_def tidesdb_commit_def)

text \<open>A connection with one uncommitted row, and one that has started a statement.\<close>

definition started_conn :: "mem_state conn" where
  "started_conn = snd (get_or_create_trx mem_engine TDB_ISOLATION_SNAPSHOT fresh_conn)"

definition dirty_conn :: "mem_state conn" where
  "dirty_conn = (mark_dirty started_conn)\<lparr>cn_eng := snd (txn_put mem_engine 0 0 [1] [9] 0 (cn_eng started_conn))\<rparr>"

definition dirty_trx :: tidesdb_trx where
  "dirty_trx = (new_trx TDB_ISOLATION_SNAPSHOT 0)\<lparr>tx_dirty := True, tx_stmt_was_dirty := True\<rparr>"

definition ex_xid :: xid_t where
  "ex_xid = \<lparr>xid_format_id = 1, xid_gtrid_length = 2, xid_bqual_length = 0, xid_data = [7, 8]\<rparr>"

lemma dirty_conn_eval:
  "live_txn started_conn = Some (new_trx TDB_ISOLATION_SNAPSHOT 0, 0)"
  "live_txn dirty_conn = Some (dirty_trx, 0)" "tx_dirty dirty_trx"
  "txn_state_of mem_engine 0 (cn_eng dirty_conn) = Some TDB_TXN_STATE_ACTIVE"
  "ob_buf mem_observer (cn_eng dirty_conn) 0 = [(0, [1]) \<mapsto> Some [9]]"
  "\<not> stale_reset started_conn"
  by (simp_all add: dirty_conn_def started_conn_def dirty_trx_def fresh_conn_def conn_run_defs stale_reset_def)

lemma dirty_conn_reachable: "reachable conn_init (conn_step mem_engine) (dirty_conn, True)"
proof -
  have "reachable conn_init (conn_step mem_engine) (fresh_conn, False)"
    by (rule reachable.intros) (simp add: conn_init_def fresh_conn_def)
  moreover have "get_or_create_trx mem_engine TDB_ISOLATION_SNAPSHOT fresh_conn = (True, started_conn)"
    by (simp add: started_conn_def fresh_conn_def get_or_create_trx_def mem_engine_def)
  then have "conn_step mem_engine (fresh_conn, False) (started_conn, True)"
    using dirty_conn_eval(6) by (rule conn_step.start)
  moreover obtain rc e where p: "txn_put mem_engine 0 0 [1] [9] 0 (cn_eng started_conn) = (rc, e)"
    by (cases "txn_put mem_engine 0 0 [1] [9] 0 (cn_eng started_conn)")
  have "conn_step mem_engine (started_conn, True) (dirty_conn, True)"
    using conn_step.put [OF dirty_conn_eval(1) p] by (simp add: dirty_conn_def p)
  ultimately show ?thesis by (meson reachable.intros)
qed

section \<open>Properties\<close>





text \<open>C9: a two-phase commit. When the prepare callback votes yes for a transaction with writes,
  nothing is committed yet and the transaction keeps its writes. A commit then publishes exactly
  those writes and says so, or reports an error, publishes nothing and leaves the transaction
  prepared so that the decision can be made again. A rollback publishes nothing. When the
  prepare callback votes no, nothing is committed and the row locks are gone.\<close>

theorem two_phase_commit_decides:
  assumes L: "engine_laws E B" and live: "live_txn c = Some (tr, t)" and dirty: "tx_dirty tr" and "is_real_end all blk"
    and act: "txn_state_of E t (cn_eng c) = Some TDB_TXN_STATE_ACTIVE" and ne: "ob_buf B (cn_eng c) t \<noteq> Map.empty"
    and prep: "tidesdb_prepare E xid all blk c = (r1, c1)"
    and com: "tidesdb_commit E True blk c1 = (r2, c2)" and rb: "tidesdb_rollback E True blk c1 = (r3, c3)"
  shows "ob_db B (cn_eng c1) = ob_db B (cn_eng c) \<and>
    (r1 = HA_OK \<longrightarrow>
       ob_db B (cn_eng c2) =
         (if r2 = HA_OK then apply_writes (ob_buf B (cn_eng c) t) (ob_db B (cn_eng c)) else ob_db B (cn_eng c)) \<and>
       (r2 \<noteq> HA_OK \<longrightarrow> live_txn c2 = live_txn c1 \<and> txn_state_of E t (cn_eng c2) = Some TDB_TXN_STATE_PREPARED \<and>
          ob_buf B (cn_eng c2) t = ob_buf B (cn_eng c) t) \<and>
       ob_db B (cn_eng c3) = ob_db B (cn_eng c)) \<and>
    (r1 \<noteq> HA_OK \<longrightarrow> (\<exists>tr'. cn_trx c1 = Some tr' \<and> tx_locks tr' = [] \<and> \<not> tx_dirty tr'))"
proof (cases "r1 = HA_OK")
  case True
  from prepare_yes [OF L live dirty assms(4) act prep [unfolded True]] obtain x tr1 where
    l1: "live_txn c1 = Some (tr1, t)" and b2: "ob_buf B (cn_eng c1) t = ob_buf B (cn_eng c) t"
    and d2: "ob_db B (cn_eng c1) = ob_db B (cn_eng c)"
    and "txn_state_of E t (cn_eng c1) =
       Some (if ob_buf B (cn_eng c) t = Map.empty then TDB_TXN_STATE_COMMITTED else TDB_TXN_STATE_PREPARED)" .
  then have s2: "txn_state_of E t (cn_eng c1) = Some TDB_TXN_STATE_PREPARED" using ne by simp
  have c2: "live_txn c2 = live_txn c1 \<and> txn_state_of E t (cn_eng c2) = Some TDB_TXN_STATE_PREPARED \<and>
      ob_buf B (cn_eng c2) t = ob_buf B (cn_eng c) t" if f: "r2 \<noteq> HA_OK"
  proof -
    from commit_prepared_failure [OF com f l1 s2] obtain rc e where
      q: "txn_commit_prepared E t (cn_eng c1) = (rc, e)" "rc \<noteq> TDB_SUCCESS" "c2 = c1\<lparr>cn_eng := e\<rparr>" .
    show ?thesis using law_commit_prepared(3,4) [OF L q(1) s2 q(2)] q(3) b2 by simp
  qed
  show ?thesis
    using commit_publishes [OF L com l1] rollback_db [OF L rb] prepare_db [OF L prep] True s2 b2 d2 c2
    by (auto simp: is_real_end_def split: if_splits)
next
  case False
  have "\<exists>tr'. cn_trx c1 = Some tr' \<and> tx_locks tr' = [] \<and> \<not> tx_dirty tr'"
    using prep False assms(3,4)
    by (auto simp: tidesdb_prepare_def live finish_defs split: option.splits prod.splits if_splits)
  then show ?thesis using False prepare_db [OF L prep] by simp
qed

theorem two_phase_commit_decides_witness:
  "let (r1, c1) = tidesdb_prepare mem_engine ex_xid True True dirty_conn;
       (r2, c2) = tidesdb_commit mem_engine True True c1;
       (r3, c3) = tidesdb_rollback mem_engine True True c1
   in r1 = HA_OK \<and> r2 = HA_OK \<and> ob_db mem_observer (cn_eng c1) = Map.empty \<and>
      ob_db mem_observer (cn_eng c2) = [(0, [1]) \<mapsto> [9]] \<and> ob_db mem_observer (cn_eng c3) = Map.empty"
proof -
  obtain r1 c1 where p: "tidesdb_prepare mem_engine ex_xid True True dirty_conn = (r1, c1)"
    by (cases "tidesdb_prepare mem_engine ex_xid True True dirty_conn")
  obtain r2 c2 where c: "tidesdb_commit mem_engine True True c1 = (r2, c2)"
    by (cases "tidesdb_commit mem_engine True True c1")
  obtain r3 c3 where r: "tidesdb_rollback mem_engine True True c1 = (r3, c3)"
    by (cases "tidesdb_rollback mem_engine True True c1")
  have x: "tdb_xid_serialize 1 2 0 (Some [7, 8]) (Some TDB_XID_MAX_SERIALIZED) \<noteq> None" by code_simp
  have ok: "r1 = HA_OK" "r2 = HA_OK" "ob_db mem_observer (cn_eng dirty_conn) = Map.empty"
    using p c x by (auto simp: ex_xid_def dirty_conn_def started_conn_def fresh_conn_def conn_run_defs)
  show ?thesis
    using two_phase_commit_decides [OF mem_engine_laws dirty_conn_eval(2,3) _ dirty_conn_eval(4) _ p c r] ok
    by (simp add: p c r dirty_conn_eval(5) is_real_end_def apply_writes_def fun_eq_iff)
qed

text \<open>C22: what a single-phase commit of a transaction with writes reports is what happened: success
  means that all writes are committed, any error that none is. Either way the transaction is over:
  its row locks are released, it counts as clean, its generation has moved on, and the next
  statement begins a fresh one.\<close>

theorem commit_reports_outcome:
  assumes L: "engine_laws E B" and live: "live_txn c = Some (tr, t)" and "tx_dirty tr" and "is_real_end all blk"
    and act: "txn_state_of E t (cn_eng c) = Some TDB_TXN_STATE_ACTIVE" and com: "tidesdb_commit E all blk c = (r, c')"
  shows "ob_db B (cn_eng c') =
      (if r = HA_OK then apply_writes (ob_buf B (cn_eng c) t) (ob_db B (cn_eng c)) else ob_db B (cn_eng c)) \<and>
    (\<exists>tr'. cn_trx c' = Some tr' \<and> tx_locks tr' = [] \<and> \<not> tx_dirty tr' \<and> tx_generation tr' = tx_generation tr + 1 \<and>
       (tx_txn tr' = None \<or> tx_needs_reset tr'))"
proof -
  obtain tr1 e1 where r: "release_stmt_savepoint E t (tr, cn_eng c) = (tr1, e1)"
    by (cases "release_stmt_savepoint E t (tr, cn_eng c)")
  note k = release_stmt_savepoint_keeps [OF L r]
  have "\<exists>tr'. cn_trx c' = Some tr' \<and> tx_locks tr' = [] \<and> \<not> tx_dirty tr' \<and> tx_generation tr' = tx_generation tr + 1 \<and>
       (tx_txn tr' = None \<or> tx_needs_reset tr')"
    using com live act assms(3,4) k(4)
    by (auto simp: tidesdb_commit_def r finish_defs split: prod.splits if_splits)
  then show ?thesis using commit_publishes [OF L com live] assms(3,4) act by simp
qed

theorem commit_reports_outcome_witness:
  "fst (tidesdb_commit mem_engine True False dirty_conn) = HA_OK \<and>
   ob_db mem_observer (cn_eng (snd (tidesdb_commit mem_engine True False dirty_conn))) = [(0, [1]) \<mapsto> [9]]"
proof -
  obtain r c where p: "tidesdb_commit mem_engine True False dirty_conn = (r, c)"
    by (cases "tidesdb_commit mem_engine True False dirty_conn")
  have ok: "r = HA_OK" "ob_db mem_observer (cn_eng dirty_conn) = Map.empty"
    using p by (auto simp: dirty_conn_def started_conn_def fresh_conn_def conn_run_defs)
  show ?thesis
    using commit_reports_outcome [OF mem_engine_laws dirty_conn_eval(2,3) _ dirty_conn_eval(4) p] ok
    by (simp add: p dirty_conn_eval(5) is_real_end_def apply_writes_def fun_eq_iff)
qed

text \<open>C24: rolling back to a savepoint gives back the write buffer of the moment the savepoint was
  set, whatever the statements in between wrote; committed data is untouched, and the savepoint is
  set again with that buffer. When the engine refuses, the buffer stays as it is.\<close>

theorem savepoint_rollback_restores:
  assumes L: "engine_laws E B" and live: "live_txn c = Some (tr, t)"
    and set: "tidesdb_savepoint_set E (Some p) c = (HA_OK, c1)"
    and "c2 = c1\<lparr>cn_eng := run_ops E t ops (cn_eng c1)\<rparr>"
    and rb: "tidesdb_savepoint_rollback E (Some p) c2 = (r, c3)"
  shows "ob_db B (cn_eng c3) = ob_db B (cn_eng c) \<and>
    ob_buf B (cn_eng c3) t = ob_buf B (if r = HA_OK then cn_eng c else cn_eng c2) t \<and>
    (r = HA_OK \<longrightarrow> (\<exists>rc e. txn_savepoint E t (SvPtr p) e = (rc, cn_eng c3) \<and>
       (rc = TDB_SUCCESS \<longrightarrow> ob_saved B (cn_eng c3) t (SvPtr p) = Some (ob_buf B (cn_eng c) t))))"
proof -
  obtain e1 where s: "txn_savepoint E t (SvPtr p) (cn_eng c) = (TDB_SUCCESS, e1)" "c1 = c\<lparr>cn_eng := e1\<rparr>"
    using set live by (auto simp: tidesdb_savepoint_set_def split: prod.splits if_splits)
  note k = law_savepoint [OF L s(1)]
  let ?e2 = "run_ops E t ops e1"
  have e2: "cn_eng c2 = ?e2" "live_txn c2 = Some (tr, t)" using assms(4) s(2) live by simp_all
  have sv: "ob_saved B ?e2 t (SvPtr p) = Some (ob_buf B (cn_eng c) t)" "ob_db B ?e2 = ob_db B (cn_eng c)"
    using run_ops_saved [OF L, of t ops e1] k by simp_all
  obtain rc e3 where q: "txn_rollback_to_savepoint E t (SvPtr p) ?e2 = (rc, e3)"
    by (cases "txn_rollback_to_savepoint E t (SvPtr p) ?e2")
  obtain rc' e4 where q': "txn_savepoint E t (SvPtr p) e3 = (rc', e4)" by (cases "txn_savepoint E t (SvPtr p) e3")
  note m = law_rollback_to [OF L q] law_savepoint [OF L q']
  show ?thesis
  proof (cases "rc = TDB_SUCCESS")
    case True
    have "r = HA_OK" "cn_eng c3 = e4" using rb True by (auto simp: tidesdb_savepoint_rollback_def e2 q q')
    then show ?thesis using True m sv q' by auto
  next
    case False
    have "r \<noteq> HA_OK" "cn_eng c3 = e3"
      using rb False by (auto simp: tidesdb_savepoint_rollback_def e2 q split: if_splits)
    then show ?thesis using False m sv e2 by simp
  qed
qed

theorem savepoint_rollback_restores_witness:
  "let c1 = snd (tidesdb_savepoint_set mem_engine (Some 5) dirty_conn);
       c2 = c1\<lparr>cn_eng := run_ops mem_engine 0 [PutOp 0 [1] [8] 0, DelOp 0 [2]] (cn_eng c1)\<rparr>;
       c3 = snd (tidesdb_savepoint_rollback mem_engine (Some 5) c2)
   in ob_buf mem_observer (cn_eng c2) 0 (0, [1]) = Some (Some [8]) \<and>
      ob_buf mem_observer (cn_eng c3) 0 = [(0, [1]) \<mapsto> Some [9]]"
proof -
  define c1 where "c1 = snd (tidesdb_savepoint_set mem_engine (Some 5) dirty_conn)"
  define c2 where "c2 = c1\<lparr>cn_eng := run_ops mem_engine 0 [PutOp 0 [1] [8] 0, DelOp 0 [2]] (cn_eng c1)\<rparr>"
  obtain r c3 where r: "tidesdb_savepoint_rollback mem_engine (Some 5) c2 = (r, c3)"
    by (cases "tidesdb_savepoint_rollback mem_engine (Some 5) c2")
  note ev = tidesdb_savepoint_set_def tidesdb_savepoint_rollback_def dirty_conn_def started_conn_def
    fresh_conn_def conn_run_defs
  have s: "tidesdb_savepoint_set mem_engine (Some 5) dirty_conn = (HA_OK, c1)" by (simp add: c1_def ev)
  have ok: "r = HA_OK" "ob_buf mem_observer (cn_eng c2) 0 (0, [1]) = Some (Some [8])"
    using r by (auto simp: c1_def c2_def ev)
  show ?thesis
    using savepoint_rollback_restores [OF mem_engine_laws dirty_conn_eval(2) s c2_def r] ok
    unfolding Let_def c1_def [symmetric] c2_def [symmetric] by (simp add: r dirty_conn_eval(5))
qed

end
