(* ===== verification/XA_Recover.thy ===== *)
theory XA_Recover
  imports Trx
begin

text \<open>Recovery of prepared transactions after a restart: the in-doubt list with its cursor, handing
  identifiers out to the server, and resolving them one by one.\<close>

section \<open>Definitions\<close>

record TdbInDoubtTxn =
  id_xid :: bytes
  id_txn :: nat

record 'e xa_state =
  g_indoubt :: "TdbInDoubtTxn list"
  g_indoubt_cursor :: nat
  xa_eng :: 'e

text \<open>The engine's listing of prepared transactions is a parameter: for a capacity it gives a result
  code, the entries it filled in, and their number. An entry may lack its handle or identifier.\<close>

type_synonym prepared_txn = "nat option \<times> bytes option"
type_synonym recover_fn = "nat \<Rightarrow> tdb_rc \<times> prepared_txn list \<times> int"

fun indoubt_entries :: "prepared_txn list \<Rightarrow> TdbInDoubtTxn list" where
  "indoubt_entries [] = []"
| "indoubt_entries ((txn, xid) # fs) =
     (case (txn, xid) of
        (Some t, Some x) \<Rightarrow> if x = [] then indoubt_entries fs else \<lparr>id_xid = x, id_txn = t\<rparr> # indoubt_entries fs
      | _ \<Rightarrow> indoubt_entries fs)"

definition tidesdb_collect_prepared :: "recover_fn option \<Rightarrow> 'e xa_state \<Rightarrow> 'e xa_state" where
  "tidesdb_collect_prepared db st =
     (case db of
        None \<Rightarrow> st
      | Some tidesdb_recover_prepared \<Rightarrow>
          (case tidesdb_recover_prepared 0 of (rc, _, count) \<Rightarrow>
             if rc \<noteq> TDB_SUCCESS then st
             else if count \<le> 0 then st
             else (case tidesdb_recover_prepared (nat count) of (rc2, found, count2) \<Rightarrow>
               if rc2 \<noteq> TDB_SUCCESS then st
               else st\<lparr>g_indoubt := indoubt_entries (take (nat count2) found), g_indoubt_cursor := 0\<rparr>)))"

definition tidesdb_release_indoubt :: "'e engine \<Rightarrow> 'e xa_state \<Rightarrow> 'e xa_state" where
  "tidesdb_release_indoubt E st =
     \<lparr>g_indoubt = [], g_indoubt_cursor = 0, xa_eng = fold (\<lambda>e s. txn_free E (id_txn e) s) (g_indoubt st) (xa_eng st)\<rparr>"

text \<open>An identifier as the server gets it: its data is the meaningful prefix.\<close>

definition xid_of :: "int \<times> int \<times> int \<times> bytes \<Rightarrow> xid_t" where
  "xid_of x = (case x of (f, g, b, data) \<Rightarrow>
     \<lparr>xid_format_id = f, xid_gtrid_length = g, xid_bqual_length = b, xid_data = take (nat (g + b)) data\<rparr>)"

text \<open>The loop over the entries from the cursor on: \<open>room\<close> slots are left; the second result is how
  far the cursor moves. An entry that does not decode is passed over.\<close>

fun recover_loop :: "nat \<Rightarrow> TdbInDoubtTxn list \<Rightarrow> xid_t list \<times> nat" where
  "recover_loop 0 es = ([], 0)"
| "recover_loop (Suc room) [] = ([], 0)"
| "recover_loop (Suc room) (e # es) =
     (case tdb_xid_deserialize (Some (id_xid e)) of
        None \<Rightarrow> (case recover_loop (Suc room) es of (xs, n) \<Rightarrow> (xs, Suc n))
      | Some x \<Rightarrow> (case recover_loop room es of (xs, n) \<Rightarrow> (xid_of x # xs, Suc n)))"

definition tidesdb_xa_recover :: "nat \<Rightarrow> 'e xa_state \<Rightarrow> xid_t list \<times> 'e xa_state" where
  "tidesdb_xa_recover len st =
     (if len = 0 then ([], st)
      else case recover_loop len (drop (g_indoubt_cursor st) (g_indoubt st)) of (xs, n) \<Rightarrow>
             (xs, st\<lparr>g_indoubt_cursor := g_indoubt_cursor st + n\<rparr>))"

datatype xa_status_code = XA_OK | XAER_NOTA | XAER_RMERR

fun find_index :: "bytes \<Rightarrow> TdbInDoubtTxn list \<Rightarrow> nat option" where
  "find_index key [] = None"
| "find_index key (e # es) = (if id_xid e = key then Some 0 else map_option Suc (find_index key es))"

definition serialize_xid :: "xid_t \<Rightarrow> bytes option" where
  "serialize_xid xid = tdb_xid_serialize (xid_format_id xid) (xid_gtrid_length xid) (xid_bqual_length xid)
     (Some (xid_data xid)) (Some TDB_XID_MAX_SERIALIZED)"

definition tidesdb_resolve_by_xid ::
  "'e engine \<Rightarrow> xid_t option \<Rightarrow> (nat \<Rightarrow> 'e \<Rightarrow> tdb_rc \<times> 'e) \<Rightarrow> 'e xa_state \<Rightarrow> xa_status_code \<times> 'e xa_state" where
  "tidesdb_resolve_by_xid E xid fn st =
     (case xid of
        None \<Rightarrow> (XAER_NOTA, st)
      | Some x \<Rightarrow>
          (case serialize_xid x of
             None \<Rightarrow> (XAER_NOTA, st)
           | Some key \<Rightarrow>
               (case find_index key (g_indoubt st) of
                  None \<Rightarrow> (XAER_NOTA, st)
                | Some i \<Rightarrow>
                    (let t = id_txn (g_indoubt st ! i) in
                     case fn t (xa_eng st) of (rc, e) \<Rightarrow>
                       if rc \<noteq> TDB_SUCCESS then (XAER_RMERR, st\<lparr>xa_eng := e\<rparr>)
                       else (XA_OK,
                             \<lparr>g_indoubt = take i (g_indoubt st) @ drop (Suc i) (g_indoubt st),
                              g_indoubt_cursor = (if g_indoubt_cursor st > i then g_indoubt_cursor st - 1 else g_indoubt_cursor st),
                              xa_eng = txn_free E t e\<rparr>)))))"

definition tidesdb_commit_by_xid :: "'e engine \<Rightarrow> xid_t option \<Rightarrow> 'e xa_state \<Rightarrow> xa_status_code \<times> 'e xa_state" where
  "tidesdb_commit_by_xid E xid = tidesdb_resolve_by_xid E xid (txn_commit_prepared E)"

definition tidesdb_rollback_by_xid :: "'e engine \<Rightarrow> xid_t option \<Rightarrow> 'e xa_state \<Rightarrow> xa_status_code \<times> 'e xa_state" where
  "tidesdb_rollback_by_xid E xid = tidesdb_resolve_by_xid E xid (txn_rollback_prepared E)"

text \<open>The client of these calls, as the comment on the recover call describes it: the server asks for
  batches until one comes back short, and after each batch commits, rolls back or leaves each
  identifier it got. The fuel counts batches.\<close>

definition server_decide :: "'e engine \<Rightarrow> (xid_t \<Rightarrow> bool option) \<Rightarrow> xid_t \<Rightarrow> 'e xa_state \<Rightarrow> 'e xa_state" where
  "server_decide E decide x st =
     (case decide x of
        None \<Rightarrow> st
      | Some True \<Rightarrow> snd (tidesdb_commit_by_xid E (Some x) st)
      | Some False \<Rightarrow> snd (tidesdb_rollback_by_xid E (Some x) st))"

fun server_recovery ::
  "'e engine \<Rightarrow> (xid_t \<Rightarrow> bool option) \<Rightarrow> nat \<Rightarrow> nat \<Rightarrow> 'e xa_state \<Rightarrow> (xid_t list \<times> 'e xa_state) option" where
  "server_recovery E decide len 0 st = None"
| "server_recovery E decide len (Suc fuel) st =
     (case tidesdb_xa_recover len st of (xs, st1) \<Rightarrow>
        let st2 = fold (server_decide E decide) xs st1 in
        if length xs < len then Some (xs, st2)
        else map_option (\<lambda>(ys, st3). (xs @ ys, st3)) (server_recovery E decide len fuel st2))"

section \<open>Handing identifiers out\<close>

definition decodable :: "TdbInDoubtTxn list \<Rightarrow> xid_t list" where
  "decodable es = List.map_filter (\<lambda>e. map_option xid_of (tdb_xid_deserialize (Some (id_xid e)))) es"

lemma decodable_simps [simp]:
  "decodable [] = []"
  "decodable (e # es) =
     (case tdb_xid_deserialize (Some (id_xid e)) of None \<Rightarrow> decodable es | Some x \<Rightarrow> xid_of x # decodable es)"
  "decodable (es @ fs) = decodable es @ decodable fs"
  by (auto simp: decodable_def List.map_filter_def split: option.splits)

lemma recover_loop_spec:
  "recover_loop room es = (xs, n) \<Longrightarrow>
     xs = decodable (take n es) \<and> n \<le> length es \<and> length xs \<le> room \<and> length xs \<le> n \<and> (n < length es \<longrightarrow> room \<le> length xs)"
proof (induction room es arbitrary: xs n rule: recover_loop.induct)
  case (3 room e es)
  show ?case
  proof (cases "tdb_xid_deserialize (Some (id_xid e))")
    case None
    obtain ys m where r: "recover_loop (Suc room) es = (ys, m)" by (cases "recover_loop (Suc room) es")
    then have "xs = ys" "n = Suc m" using 3(3) None by simp_all
    then show ?thesis using 3(1) [OF None r] None by auto
  next
    case (Some x)
    obtain ys m where r: "recover_loop room es = (ys, m)" by (cases "recover_loop room es")
    then have "xs = xid_of x # ys" "n = Suc m" using 3(3) Some by simp_all
    then show ?thesis using 3(2) [OF Some r] Some by auto
  qed
qed auto

lemma find_indexD:
  "find_index key es = Some i \<Longrightarrow> i < length es \<and> id_xid (es ! i) = key \<and> (\<forall>j<i. id_xid (es ! j) \<noteq> key)"
proof (induction es arbitrary: i)
  case (Cons e es)
  show ?case
  proof (cases "id_xid e = key")
    case False
    then obtain z where z: "i = Suc z" "find_index key es = Some z" using Cons(2) by auto
    have "id_xid ((e # es) ! j) \<noteq> key" if "j < i" for j
      using that False z(1) Cons(1) [OF z(2)] by (cases j) auto
    then show ?thesis using Cons(1) [OF z(2)] z(1) by simp
  qed (use Cons(2) in auto)
qed simp

lemma find_index_exists: "e \<in> set es \<Longrightarrow> id_xid e = key \<Longrightarrow> find_index key es \<noteq> None"
  by (induction es) auto

lemma find_index_append: "find_index key es = Some i \<Longrightarrow> find_index key (es @ fs) = Some i"
  by (induction es arbitrary: i) (auto split: if_splits)

text \<open>The server's copy of an identifier encodes to the stored bytes.\<close>

lemma serialize_xid_of:
  assumes "tdb_xid_deserialize (Some bs) = Some x"
  shows "serialize_xid (xid_of x) = Some bs"
proof -
  obtain f g b data where x: "x = (f, g, b, data)" by (cases x)
  have "length bs \<le> TDB_XID_MAX_SERIALIZED"
    using deserialize_SomeD(1,2) [OF assms [unfolded x]] by (auto simp: lengths_valid_iff xid_const_defs)
  then have "tdb_xid_serialize f g b (Some data) (Some TDB_XID_MAX_SERIALIZED) = Some bs"
    using serialize_deserialize [OF assms [unfolded x]] by blast
  then show ?thesis by (auto simp: serialize_xid_def xid_of_def x serialize_Some_iff)
qed

lemma decodableD: "x \<in> set (decodable es) \<Longrightarrow> \<exists>e\<in>set es. serialize_xid x = Some (id_xid e)"
proof (induction es)
  case (Cons e es)
  then show ?case by (auto split: option.splits simp: serialize_xid_of)
qed simp

section \<open>Resolving\<close>

text \<open>Resolving an identifier that has been handed out never moves the entries behind the cursor.\<close>

definition handed_out :: "'e xa_state \<Rightarrow> xid_t \<Rightarrow> bool" where
  "handed_out st x \<longleftrightarrow> (\<exists>i<g_indoubt_cursor st. i < length (g_indoubt st) \<and> serialize_xid x = Some (id_xid (g_indoubt st ! i)))"

definition cursor_ok :: "'e xa_state \<Rightarrow> bool" where
  "cursor_ok st \<longleftrightarrow> g_indoubt_cursor st \<le> length (g_indoubt st)"

abbreviation remaining :: "'e xa_state \<Rightarrow> TdbInDoubtTxn list" where
  "remaining st \<equiv> drop (g_indoubt_cursor st) (g_indoubt st)"

lemma resolve_cases:
  assumes "tidesdb_resolve_by_xid E (Some x) fn st = (r, st')"
  obtains (unchanged) "g_indoubt st' = g_indoubt st" "g_indoubt_cursor st' = g_indoubt_cursor st" "r \<noteq> XA_OK"
  | (removed) key i where "serialize_xid x = Some key" "find_index key (g_indoubt st) = Some i" "r = XA_OK"
      "g_indoubt st' = take i (g_indoubt st) @ drop (Suc i) (g_indoubt st)"
      "g_indoubt_cursor st' = (if g_indoubt_cursor st > i then g_indoubt_cursor st - 1 else g_indoubt_cursor st)"
proof (cases "serialize_xid x")
  case (Some key)
  show ?thesis
  proof (cases "find_index key (g_indoubt st)")
    case (Some i)
    obtain rc e where "fn (id_txn (g_indoubt st ! i)) (xa_eng st) = (rc, e)" by fastforce
    then show ?thesis using assms removed [OF \<open>serialize_xid x = Some key\<close> Some] unchanged Some \<open>serialize_xid x = Some key\<close>
      by (cases "rc = TDB_SUCCESS") (simp_all add: tidesdb_resolve_by_xid_def Let_def, force+)
  qed (use assms unchanged \<open>serialize_xid x = Some key\<close> in \<open>simp add: tidesdb_resolve_by_xid_def\<close>)
qed (use assms unchanged in \<open>simp add: tidesdb_resolve_by_xid_def\<close>)

lemma find_index_least: "i < length es \<Longrightarrow> id_xid (es ! i) = key \<Longrightarrow> \<exists>j\<le>i. find_index key es = Some j"
proof -
  assume i: "i < length es" "id_xid (es ! i) = key"
  then have "find_index key es \<noteq> None" using find_index_exists [of "es ! i"] by simp
  then obtain j where j: "find_index key es = Some j" by blast
  have "j \<le> i" using find_indexD [OF j] i(2) by (metis not_le)
  with j show ?thesis by blast
qed

lemma resolve_keeps_remaining:
  assumes "tidesdb_resolve_by_xid E (Some x) fn st = (r, st')" "handed_out st x" "cursor_ok st"
  shows "remaining st' = remaining st" "cursor_ok st'"
proof -
  have "remaining st' = remaining st \<and> cursor_ok st'"
    using assms(1)
  proof (cases rule: resolve_cases)
    case unchanged
    then show ?thesis using assms(3) by (simp add: cursor_ok_def)
  next
    case (removed key i)
    obtain i' where i': "i' < g_indoubt_cursor st" "i' < length (g_indoubt st)" "id_xid (g_indoubt st ! i') = key"
      using assms(2) removed(1) by (auto simp: handed_out_def)
    then have lt: "i < g_indoubt_cursor st" using find_index_least [OF i'(2,3)] removed(2) by auto
    then show ?thesis using removed(4,5) find_indexD [OF removed(2)] assms(3)
      by (auto simp: cursor_ok_def min_def)
  qed
  then show "remaining st' = remaining st" "cursor_ok st'" by blast+
qed

lemma resolve_keeps_handed_out:
  assumes "tidesdb_resolve_by_xid E (Some x) fn st = (r, st')" "handed_out st x" "handed_out st y"
    "serialize_xid y \<noteq> serialize_xid x" "cursor_ok st"
  shows "handed_out st' y"
  using assms(1)
proof (cases rule: resolve_cases)
  case (removed key i)
  obtain i' where i': "i' < g_indoubt_cursor st" "i' < length (g_indoubt st)" "id_xid (g_indoubt st ! i') = key"
    using assms(2) removed(1) by (auto simp: handed_out_def)
  then have lt: "i < g_indoubt_cursor st" using find_index_least [OF i'(2,3)] removed(2) by auto
  obtain j where j: "j < g_indoubt_cursor st" "j < length (g_indoubt st)" "serialize_xid y = Some (id_xid (g_indoubt st ! j))"
    using assms(3) by (auto simp: handed_out_def)
  then have "j \<noteq> i" using find_indexD [OF removed(2)] removed(1) assms(4) by auto
  then have "(if j < i then j else j - 1) < g_indoubt_cursor st'" "(if j < i then j else j - 1) < length (g_indoubt st')"
    "g_indoubt st' ! (if j < i then j else j - 1) = g_indoubt st ! j"
    using j(1,2) lt removed(4,5) find_indexD [OF removed(2)] by (auto simp: nth_append min_def)
  then show ?thesis using j(3) unfolding handed_out_def by metis
qed (use assms(3) in \<open>simp add: handed_out_def\<close>)

text \<open>Entries the server cannot name or leaves alone.\<close>

definition undecided :: "(xid_t \<Rightarrow> bool option) \<Rightarrow> TdbInDoubtTxn \<Rightarrow> bool" where
  "undecided decide e \<longleftrightarrow>
     (case tdb_xid_deserialize (Some (id_xid e)) of None \<Rightarrow> True | Some x \<Rightarrow> decide (xid_of x) = None)"

lemma server_decide_resolves:
  "decide x \<noteq> None \<Longrightarrow> \<exists>fn. server_decide E decide x st = snd (tidesdb_resolve_by_xid E (Some x) fn st)"
  by (cases "decide x"; cases "the (decide x)")
    (auto simp: server_decide_def tidesdb_commit_by_xid_def tidesdb_rollback_by_xid_def)

lemma resolve_keeps_undecided:
  assumes "tidesdb_resolve_by_xid E (Some x) fn st = (r, st')" "x \<in> set (decodable es)" "decide x \<noteq> None"
  shows "filter (undecided decide) (g_indoubt st') = filter (undecided decide) (g_indoubt st)"
  using assms(1)
proof (cases rule: resolve_cases)
  case (removed key i)
  note f = find_indexD [OF removed(2)]
  obtain bs x' where d: "tdb_xid_deserialize (Some bs) = Some x'" "x = xid_of x'"
    using assms(2) by (induction es) (auto split: option.splits)
  then have "bs = key" using serialize_xid_of [OF d(1)] removed(1) by simp
  then have u: "\<not> undecided decide (g_indoubt st ! i)" using f d assms(3) by (simp add: undecided_def)
  have L: "g_indoubt st = take i (g_indoubt st) @ g_indoubt st ! i # drop (Suc i) (g_indoubt st)"
    using f by (intro id_take_nth_drop) simp
  show ?thesis using u by (subst L) (simp add: removed(4))
qed simp

lemma decide_batch:
  assumes "\<forall>x\<in>set xs. handed_out st x" "distinct (map serialize_xid xs)" "cursor_ok st" "set xs \<subseteq> set (decodable es)"
  shows "remaining (fold (server_decide E decide) xs st) = remaining st \<and> cursor_ok (fold (server_decide E decide) xs st) \<and>
    filter (undecided decide) (g_indoubt (fold (server_decide E decide) xs st)) = filter (undecided decide) (g_indoubt st)"
  using assms
proof (induction xs arbitrary: st)
  case (Cons x xs)
  define st1 where "st1 = server_decide E decide x st"
  have "remaining st1 = remaining st \<and> cursor_ok st1 \<and> (\<forall>y\<in>set xs. handed_out st1 y) \<and>
      filter (undecided decide) (g_indoubt st1) = filter (undecided decide) (g_indoubt st)"
  proof (cases "decide x")
    case None
    then show ?thesis using Cons(2,4) by (simp add: st1_def server_decide_def)
  next
    case (Some d)
    then obtain fn r where r: "tidesdb_resolve_by_xid E (Some x) fn st = (r, st1)"
      using server_decide_resolves [of decide x E st] unfolding st1_def by (metis option.distinct(1) prod.collapse)
    have h: "handed_out st x" using Cons(2) by simp
    have "handed_out st1 y" if "y \<in> set xs" for y
      using resolve_keeps_handed_out [OF r h _ _ Cons(4)] that Cons(2,3) by (metis distinct.simps(2) image_eqI list.map(2) list.set_intros(2) set_map)
    then show ?thesis
      using resolve_keeps_remaining [OF r h Cons(4)] resolve_keeps_undecided [OF r, of es decide] Cons(5) Some by simp
  qed
  then show ?case using Cons(1) [of st1] Cons(3,5) by (simp add: st1_def)
qed simp

lemma recover_batch:
  assumes "tidesdb_xa_recover len st = (xs, st1)" "0 < len" "cursor_ok st" "distinct (map id_xid (remaining st))"
  obtains n where "xs = decodable (take n (remaining st))" "remaining st1 = drop n (remaining st)" "n \<le> length (remaining st)"
    "g_indoubt st1 = g_indoubt st" "cursor_ok st1" "\<forall>x\<in>set xs. handed_out st1 x" "distinct (map serialize_xid xs)"
    "length xs \<le> n" "n < length (remaining st) \<longrightarrow> len \<le> length xs"
proof -
  obtain ys n where l: "recover_loop len (remaining st) = (ys, n)" by (cases "recover_loop len (remaining st)")
  note sp = recover_loop_spec [OF l]
  have st1: "xs = ys" "st1 = st\<lparr>g_indoubt_cursor := g_indoubt_cursor st + n\<rparr>"
    using assms(1,2) l by (auto simp: tidesdb_xa_recover_def)
  have "handed_out st1 x" if x: "x \<in> set xs" for x
  proof -
    obtain e where e: "e \<in> set (take n (remaining st))" "serialize_xid x = Some (id_xid e)"
      using decodableD x sp st1(1) by blast
    then obtain k where k: "k < n" "k < length (remaining st)" "e = remaining st ! k"
      by (auto simp: in_set_conv_nth)
    then show ?thesis using e(2) unfolding handed_out_def st1(2)
      by (intro exI [of _ "g_indoubt_cursor st + k"]) auto
  qed
  moreover have "distinct (map serialize_xid (decodable es))" if "distinct (map id_xid es)" for es
    using that
  proof (induction es)
    case (Cons e es)
    have "serialize_xid (xid_of x) \<notin> serialize_xid ` set (decodable es)" if d: "tdb_xid_deserialize (Some (id_xid e)) = Some x" for x
    proof
      assume "serialize_xid (xid_of x) \<in> serialize_xid ` set (decodable es)"
      then obtain y where y: "y \<in> set (decodable es)" "serialize_xid y = Some (id_xid e)"
        using serialize_xid_of [OF d] by auto
      then show False using decodableD [OF y(1)] Cons(2) by (auto simp: image_iff)
    qed
    then show ?case using Cons by (auto split: option.splits)
  qed simp
  then have "distinct (map serialize_xid xs)" using assms(4) sp st1(1) by (metis distinct_take take_map)
  moreover have "remaining st1 = drop n (remaining st)" "cursor_ok st1" "g_indoubt st1 = g_indoubt st"
    using st1(2) sp assms(3) by (simp_all add: cursor_ok_def add.commute, linarith)
  ultimately show thesis using sp st1(1) by (intro that [of n]) auto
qed

lemma server_recovery_all:
  assumes "0 < len"
  shows "cursor_ok st \<Longrightarrow> distinct (map id_xid (remaining st)) \<Longrightarrow> length (remaining st) < fuel \<Longrightarrow>
    \<exists>st'. server_recovery E decide len fuel st = Some (decodable (remaining st), st') \<and>
      filter (undecided decide) (g_indoubt st') = filter (undecided decide) (g_indoubt st)"
proof (induction fuel arbitrary: st)
  case (Suc fuel)
  obtain xs st1 where r: "tidesdb_xa_recover len st = (xs, st1)" by (cases "tidesdb_xa_recover len st")
  from recover_batch [OF r assms Suc(2,3)] obtain n where
    n: "xs = decodable (take n (remaining st))" "remaining st1 = drop n (remaining st)" "n \<le> length (remaining st)"
      "g_indoubt st1 = g_indoubt st" "cursor_ok st1" "\<forall>x\<in>set xs. handed_out st1 x" "distinct (map serialize_xid xs)"
      "length xs \<le> n" "n < length (remaining st) \<longrightarrow> len \<le> length xs" .
  define st2 where "st2 = fold (server_decide E decide) xs st1"
  have b: "remaining st2 = remaining st1" "cursor_ok st2"
    "filter (undecided decide) (g_indoubt st2) = filter (undecided decide) (g_indoubt st)"
    using decide_batch [OF n(6,7,5), of "take n (remaining st)" E decide] n(1,4) by (simp_all add: st2_def)
  have all: "decodable (remaining st) = xs @ decodable (remaining st1)"
    unfolding n(1,2) decodable_simps(3) [symmetric] append_take_drop_id by (rule refl)
  show ?case
  proof (cases "length xs < len")
    case True
    then have "n = length (remaining st)" using n(3,9) by linarith
    then have "decodable (remaining st) = xs" using n(1) by simp
    then show ?thesis using r True b(3) by (auto simp: st2_def [symmetric] Let_def)
  next
    case False
    then have "0 < n" using assms n(8) by linarith
    then have "length (remaining st2) < length (remaining st)" unfolding b(1) n(2) using n(3) by simp
    then have "length (remaining st2) < fuel" using Suc(4) by linarith
    moreover have "distinct (map id_xid (remaining st2))" using Suc(3) n(2) b(1) by (metis distinct_drop drop_map)
    ultimately obtain st' where "server_recovery E decide len fuel st2 = Some (decodable (remaining st2), st')"
      "filter (undecided decide) (g_indoubt st') = filter (undecided decide) (g_indoubt st2)"
      using Suc(1) [OF b(2)] by blast
    then show ?thesis using r False b(1,3) all by (simp add: st2_def [symmetric] Let_def)
  qed
qed simp

lemma find_index_distinct:
  assumes "distinct (map id_xid es)" "e \<in> set es"
  obtains i where "find_index (id_xid e) es = Some i" "es ! i = e" "i < length es"
proof -
  obtain i where i: "find_index (id_xid e) es = Some i" using find_index_exists [OF assms(2)] by blast
  note f = find_indexD [OF i]
  obtain j where j: "j < length es" "es ! j = e" using assms(2) by (auto simp: in_set_conv_nth)
  have "i = j" using assms(1) f j by (metis distinct_conv_nth length_map nth_map)
  then show thesis using that i f j by blast
qed

lemma indoubt_entries_mem:
  "\<lparr>id_xid = x, id_txn = t\<rparr> \<in> set (indoubt_entries fs) \<longleftrightarrow> (Some t, Some x) \<in> set fs \<and> x \<noteq> []"
  by (induction fs rule: indoubt_entries.induct) (auto split: option.splits)

lemma indoubt_entriesD: "e \<in> set (indoubt_entries fs) \<Longrightarrow> (Some (id_txn e), Some (id_xid e)) \<in> set fs"
  by (cases e rule: TdbInDoubtTxn.cases) (simp add: indoubt_entries_mem)

lemma indoubt_entries_distinct: "distinct (map snd fs) \<Longrightarrow> distinct (map id_xid (indoubt_entries fs))"
proof (induction fs)
  case (Cons f fs)
  obtain txn xid where f: "f = (txn, xid)" by (cases f)
  have d: "xid \<notin> snd ` set fs" "distinct (map id_xid (indoubt_entries fs))" using Cons by (simp_all add: f)
  have "x \<notin> id_xid ` set (indoubt_entries fs)" if x: "xid = Some x" for x
  proof
    assume "x \<in> id_xid ` set (indoubt_entries fs)"
    then obtain e where e: "e \<in> set (indoubt_entries fs)" "id_xid e = x" by blast
    have "Some x \<in> snd ` set fs" using indoubt_entriesD [OF e(1)] e(2) by (metis image_eqI snd_conv)
    then show False using d(1) x by simp
  qed
  then show ?case using d(2) by (simp add: f split: option.splits)
qed simp

lemma commit_by_xid_outcome:
  assumes L: "engine_laws E B" and "distinct (map id_xid (g_indoubt st))" "en \<in> set (g_indoubt st)"
    and x: "serialize_xid x = Some (id_xid en)" and p: "txn_state_of E (id_txn en) (xa_eng st) = Some TDB_TXN_STATE_PREPARED"
    and r: "tidesdb_commit_by_xid E (Some x) st = (r, st')"
  shows "r = XA_OK \<and> ob_db B (xa_eng st') = apply_writes (ob_buf B (xa_eng st) (id_txn en)) (ob_db B (xa_eng st)) \<or>
    r = XAER_RMERR \<and> ob_db B (xa_eng st') = ob_db B (xa_eng st) \<and> g_indoubt st' = g_indoubt st \<and>
      txn_state_of E (id_txn en) (xa_eng st') = Some TDB_TXN_STATE_PREPARED"
proof -
  from find_index_distinct [OF assms(2,3)] obtain i where
    i: "find_index (id_xid en) (g_indoubt st) = Some i" "g_indoubt st ! i = en" "i < length (g_indoubt st)" .
  obtain rc e where q: "txn_commit_prepared E (id_txn en) (xa_eng st) = (rc, e)" by fastforce
  show ?thesis using r law_commit_prepared [OF L q p]
    by (auto simp: tidesdb_commit_by_xid_def tidesdb_resolve_by_xid_def x i q law_drop [OF L] split: if_splits)
qed

lemma rollback_by_xid_outcome:
  assumes L: "engine_laws E B" and "distinct (map id_xid (g_indoubt st))" "en \<in> set (g_indoubt st)"
    and x: "serialize_xid x = Some (id_xid en)" and p: "txn_state_of E (id_txn en) (xa_eng st) = Some TDB_TXN_STATE_PREPARED"
    and r: "tidesdb_rollback_by_xid E (Some x) st = (r, st')"
  shows "ob_db B (xa_eng st') = ob_db B (xa_eng st)"
proof -
  from find_index_distinct [OF assms(2,3)] obtain i where
    i: "find_index (id_xid en) (g_indoubt st) = Some i" "g_indoubt st ! i = en" "i < length (g_indoubt st)" .
  obtain rc e where q: "txn_rollback_prepared E (id_txn en) (xa_eng st) = (rc, e)" by fastforce
  show ?thesis using r law_rollback_prepared [OF L q p]
    by (auto simp: tidesdb_rollback_by_xid_def tidesdb_resolve_by_xid_def x i q law_drop [OF L] split: if_splits)
qed

text \<open>The sample identifier of theory \<open>Trx\<close> as prepared, and a listing that has it.\<close>

definition ex_xid_bytes :: bytes where
  "ex_xid_bytes = [1, 0, 0, 0, 0, 0, 0, 0, 2, 0, 0, 0, 0, 0, 0, 0, 7, 8]"

definition ex_listing :: recover_fn where
  "ex_listing cap = (TDB_SUCCESS, if cap = 0 then [] else [(Some 0, Some ex_xid_bytes)], 1)"

section \<open>Properties\<close>

text \<open>C16: recovery hands every nameable in-doubt transaction to the server exactly once. The server
  asks for batches until one comes back short and decides each identifier as it gets it, which
  shrinks the list under the cursor; with one more batch than entries as fuel the loop ends, the
  identifiers it was given are those of the list, in order and without a gap or repetition, and the
  transactions it did not decide are all still in doubt.\<close>

theorem xa_recovery_enumerates:
  assumes "0 < len" "g_indoubt_cursor st = 0" "distinct (map id_xid (g_indoubt st))"
  shows "\<exists>st'. server_recovery E decide len (Suc (length (g_indoubt st))) st = Some (decodable (g_indoubt st), st') \<and>
    filter (undecided decide) (g_indoubt st') = filter (undecided decide) (g_indoubt st)"
  using server_recovery_all [OF assms(1), of st "Suc (length (g_indoubt st))" E decide] assms(2,3)
  by (simp add: cursor_ok_def)

text \<open>C14: a transaction that voted yes survives a restart. If the engine, reopened, lists it under the
  bytes it was prepared with and holds its writes, the collected list names it to the server by the
  very identifier the server prepared it under; committing that identifier publishes exactly the
  writes the transaction had, or fails and keeps it in doubt; rolling it back publishes nothing.\<close>

theorem prepared_survives_restart:
  assumes L: "engine_laws E B" and live: "live_txn c = Some (tr, t)" "tx_dirty tr" "is_real_end all blk"
    and act: "txn_state_of E t (cn_eng c) = Some TDB_TXN_STATE_ACTIVE"
    and prep: "tidesdb_prepare E xid all blk c = (HA_OK, c1)"
    and wf: "- (2 ^ 63) \<le> xid_format_id xid" "xid_format_id xid < 2 ^ 63"
      "length (xid_data xid) = nat (xid_gtrid_length xid + xid_bqual_length xid)"
    and rp: "recover_prepared 0 = (TDB_SUCCESS, [], n)" "0 < n" "recover_prepared (nat n) = (TDB_SUCCESS, found, n)"
      "nat n = length found" "distinct (map snd found)"
    and x: "serialize_xid xid = Some x" and listed: "(Some t', Some x) \<in> set found"
    and kept: "txn_state_of E t' (xa_eng st0) = Some TDB_TXN_STATE_PREPARED" "ob_buf B (xa_eng st0) t' = ob_buf B (cn_eng c1) t"
    and st: "st = tidesdb_collect_prepared (Some recover_prepared) st0"
    and res: "tidesdb_commit_by_xid E (Some xid) st = (r, st1)" "tidesdb_rollback_by_xid E (Some xid) st = (r', st2)"
  shows "xid \<in> set (decodable (g_indoubt st)) \<and>
    (r = XA_OK \<and> ob_db B (xa_eng st1) = apply_writes (ob_buf B (cn_eng c) t) (ob_db B (xa_eng st0)) \<or>
     r = XAER_RMERR \<and> ob_db B (xa_eng st1) = ob_db B (xa_eng st0) \<and> xid \<in> set (decodable (g_indoubt st1))) \<and>
    ob_db B (xa_eng st2) = ob_db B (xa_eng st0)"
proof -
  let ?en = "\<lparr>id_xid = x, id_txn = t'\<rparr>"
  from prepare_yes [OF L live act prep] have buf: "ob_buf B (cn_eng c1) t = ob_buf B (cn_eng c) t" by metis
  have st': "g_indoubt st = indoubt_entries found" "xa_eng st = xa_eng st0"
    using rp st by (simp_all add: tidesdb_collect_prepared_def)
  have d: "tdb_xid_deserialize (Some x) = Some (xid_format_id xid, xid_gtrid_length xid, xid_bqual_length xid,
      xid_zero_tail (xid_gtrid_length xid) (xid_bqual_length xid) (xid_data xid))"
    using deserialize_serialize [OF _ wf(1,2), of "xid_gtrid_length xid" "xid_bqual_length xid" "xid_data xid" TDB_XID_MAX_SERIALIZED]
      x wf(3) by (auto simp: serialize_xid_def serialize_Some_iff)
  then have ne: "x \<noteq> []" by (auto simp: tdb_xid_deserialize_def TDB_XID_HEADER_SIZE_def)
  have m: "?en \<in> set (g_indoubt st)" using listed ne by (simp add: st' indoubt_entries_mem)
  have dis: "distinct (map id_xid (g_indoubt st))" using rp(5) by (simp add: st' indoubt_entries_distinct)
  have "xid_of (xid_format_id xid, xid_gtrid_length xid, xid_bqual_length xid,
      xid_zero_tail (xid_gtrid_length xid) (xid_bqual_length xid) (xid_data xid)) = xid"
    using wf(3) by (simp add: xid_of_def xid_zero_tail_def)
  then have named: "xid \<in> set (decodable es)" if "?en \<in> set es" for es
    using that d by (induction es) (auto split: option.splits)
  have p: "serialize_xid xid = Some (id_xid ?en)" "txn_state_of E (id_txn ?en) (xa_eng st) = Some TDB_TXN_STATE_PREPARED"
    using x kept(1) st' by simp_all
  show ?thesis
    using commit_by_xid_outcome [OF L dis m p res(1)] rollback_by_xid_outcome [OF L dis m p res(2)] named [OF m] named [of "g_indoubt st1"] m
    by (auto simp: st' kept(2) buf)
qed

theorem prepared_survives_restart_witness:
  "let c1 = snd (tidesdb_prepare mem_engine ex_xid True True dirty_conn);
       st = tidesdb_collect_prepared (Some ex_listing) \<lparr>g_indoubt = [], g_indoubt_cursor = 0, xa_eng = cn_eng c1\<rparr>;
       st1 = snd (tidesdb_commit_by_xid mem_engine (Some ex_xid) st)
   in ex_xid \<in> set (decodable (g_indoubt st)) \<and> ob_db mem_observer (xa_eng st1) = [(0, [1]) \<mapsto> [9]]"
proof -
  define c1 where "c1 = snd (tidesdb_prepare mem_engine ex_xid True True dirty_conn)"
  define st0 where "st0 = \<lparr>g_indoubt = [], g_indoubt_cursor = 0, xa_eng = cn_eng c1\<rparr>"
  define st where "st = tidesdb_collect_prepared (Some ex_listing) st0"
  obtain r st1 where r: "tidesdb_commit_by_xid mem_engine (Some ex_xid) st = (r, st1)" by fastforce
  obtain r' st2 where r': "tidesdb_rollback_by_xid mem_engine (Some ex_xid) st = (r', st2)" by fastforce
  have x: "serialize_xid ex_xid = Some ex_xid_bytes" by code_simp
  then have s: "tdb_xid_serialize 1 2 0 (Some [7, 8]) (Some TDB_XID_MAX_SERIALIZED) = Some ex_xid_bytes"
    by (simp add: serialize_xid_def ex_xid_def)
  note ev = dirty_conn_def started_conn_def fresh_conn_def conn_run_defs
  have prep: "tidesdb_prepare mem_engine ex_xid True True dirty_conn = (HA_OK, c1)"
    unfolding c1_def using s by (simp add: ex_xid_def ev)
  have kept: "txn_state_of mem_engine 0 (xa_eng st0) = Some TDB_TXN_STATE_PREPARED"
    "ob_buf mem_observer (xa_eng st0) 0 = ob_buf mem_observer (cn_eng c1) 0" "ob_db mem_observer (xa_eng st0) = Map.empty"
    unfolding st0_def c1_def using s by (simp_all add: ex_xid_def ev)
  have ok: "r = XA_OK"
    using r s by (auto simp: st_def st0_def c1_def tidesdb_collect_prepared_def ex_listing_def tidesdb_commit_by_xid_def
        tidesdb_resolve_by_xid_def x ex_xid_bytes_def ev ex_xid_def [symmetric])
  show ?thesis
    using prepared_survives_restart [OF mem_engine_laws dirty_conn_eval(2,3) _ dirty_conn_eval(4) prep _ _ _ _ _ _ _ _ x _ kept(1,2) st_def r r',
        where n = 1 and found = "[(Some 0, Some ex_xid_bytes)]"] ok
    unfolding Let_def c1_def [symmetric] st0_def [symmetric] st_def [symmetric] r
    by (simp add: dirty_conn_eval(5) kept(3) is_real_end_def ex_listing_def ex_xid_def apply_writes_def fun_eq_iff)
qed

theorem xa_recovery_enumerates_witness:
  "fst (the (server_recovery mem_engine (\<lambda>_. Some True) 1 3
      \<lparr>g_indoubt = [\<lparr>id_xid = ex_xid_bytes, id_txn = 0\<rparr>, \<lparr>id_xid = [1], id_txn = 1\<rparr>], g_indoubt_cursor = 0, xa_eng = mem_init\<rparr>)) = [ex_xid]"
proof -
  have "decodable [\<lparr>id_xid = ex_xid_bytes, id_txn = 0\<rparr>, \<lparr>id_xid = [1], id_txn = 1\<rparr>] = [ex_xid]" by code_simp
  then show ?thesis
    using xa_recovery_enumerates [of 1 "\<lparr>g_indoubt = [\<lparr>id_xid = ex_xid_bytes, id_txn = 0\<rparr>, \<lparr>id_xid = [1], id_txn = 1\<rparr>],
        g_indoubt_cursor = 0, xa_eng = mem_init\<rparr>" mem_engine "\<lambda>_. Some True"]
    by (auto simp: ex_xid_bytes_def numeral_3_eq_3 simp del: server_recovery.simps decodable_simps)
qed

end
