(* ===== verification/Row_Lock.thy ===== *)
theory Row_Lock
  imports Errors
begin

text \<open>
  \<open>tidesdb_row_lock.cc\<close>: the pessimistic row lock table, its deadlock detector and the
  paths that wake or free a waiter (\<open>tidesdb_hton_kill_query\<close> and
  \<open>tidesdb_close_connection\<close> of \<open>ha_tidesdb.cc\<close>), as a machine whose steps interleave.

  Pointers are numbers: a lock entry and a connection's transaction struct are cells of two
  stores. The list of locks a transaction holds is the intrusive list of the code, a head in
  the transaction and a \<open>held_next\<close> in each cell; a hash chain is a list of cells, newest
  first. A section the code runs with the partition mutex held is one step; the walk of the
  wait-for graph, which takes no mutex, is one step per atomic load. The hash \<open>XXH3_64bits\<close>
  is a parameter.
\<close>

section \<open>Definitions\<close>

definition ROW_LOCK_PARTITIONS :: nat where "ROW_LOCK_PARTITIONS = 65536"

definition DEADLOCK_MAX_DEPTH :: nat where "DEADLOCK_MAX_DEPTH = 100"

record tdb_row_lock =
  rl_pk :: bytes
  rl_owner_txn_id :: u64
  rl_owner_trx :: "nat option"
  rl_waiters :: nat
  rl_held_next :: "nat option"
  rl_partition :: nat

record trx_locks =
  held_locks_head :: "nat option"
  lock_txn_id :: u64
  waiting_on :: "nat option"

text \<open>Where a connection's thread is. \<open>Ret rc\<close>: outside the lock code, \<open>rc\<close> being what the
  last call returned. \<open>Walking l w pos\<close>: in \<open>tdb_lock_would_deadlock\<close> for the lock \<open>l\<close>,
  from the wait loop (so with the mutex held) when \<open>w\<close>. \<open>Asleep\<close>/\<open>Woken\<close>: in the condition
  wait, not yet or already signalled. \<open>Releasing p c\<close>: in \<open>row_locks_release_all\<close> about to
  handle \<open>p\<close>, on behalf of a closing connection when \<open>c\<close>. \<open>Closing\<close>: about to free the
  struct. \<open>Closed\<close>: no struct.\<close>

datatype walk_pos = W_Start | W_At "nat option" nat | W_Owner nat nat | W_Done bool

datatype lock_pc =
    Ret ha_err | Walking nat bool walk_pos | Asleep nat | Woken nat
  | Releasing "nat option" bool | Closing | Closed

record lock_table =
  lock_partitions :: bool
  heap :: "nat \<Rightarrow> tdb_row_lock"
  n_locks :: nat
  chain :: "nat \<Rightarrow> nat list"
  mutex :: "nat \<Rightarrow> nat option"
  trx :: "nat \<Rightarrow> trx_locks"
  pc :: "nat \<Rightarrow> lock_pc"
  killed :: "nat \<Rightarrow> bool"

definition tdb_lock_part :: "(bytes \<Rightarrow> u64) \<Rightarrow> bytes \<Rightarrow> nat" where
  "tdb_lock_part XXH3_64bits key = unat (XXH3_64bits key) mod ROW_LOCK_PARTITIONS"

definition new_lock :: "nat \<Rightarrow> bytes \<Rightarrow> tdb_row_lock" where
  "new_lock part_idx pk =
     \<lparr>rl_pk = pk, rl_owner_txn_id = 0, rl_owner_trx = None, rl_waiters = 0,
      rl_held_next = None, rl_partition = part_idx\<rparr>"

definition tdb_lock_find_or_create ::
  "bool \<Rightarrow> nat \<Rightarrow> bytes \<Rightarrow> lock_table \<Rightarrow> nat option \<times> lock_table" where
  "tdb_lock_find_or_create malloc_ok part_idx pk s =
     (case find (\<lambda>e. rl_pk (heap s e) = pk) (chain s part_idx) of
        Some e \<Rightarrow> (Some e, s)
      | None \<Rightarrow>
          if \<not> malloc_ok then (None, s)
          else (let e = n_locks s in
            (Some e, s\<lparr>heap := (heap s)(e := new_lock part_idx pk), n_locks := Suc e,
                       chain := (chain s)(part_idx := e # chain s part_idx)\<rparr>)))"

definition set_pc :: "nat \<Rightarrow> lock_pc \<Rightarrow> lock_table \<Rightarrow> lock_table" where
  "set_pc t p s = s\<lparr>pc := (pc s)(t := p)\<rparr>"

definition set_waiting :: "nat \<Rightarrow> nat option \<Rightarrow> lock_table \<Rightarrow> lock_table" where
  "set_waiting t w s = s\<lparr>trx := (trx s)(t := (trx s t)\<lparr>waiting_on := w\<rparr>)\<rparr>"

definition add_waiter :: "nat \<Rightarrow> lock_table \<Rightarrow> lock_table" where
  "add_waiter l s = s\<lparr>heap := (heap s)(l := (heap s l)\<lparr>rl_waiters := rl_waiters (heap s l) + 1\<rparr>)\<rparr>"

definition drop_waiter :: "nat \<Rightarrow> lock_table \<Rightarrow> lock_table" where
  "drop_waiter l s = s\<lparr>heap := (heap s)(l := (heap s l)\<lparr>rl_waiters := rl_waiters (heap s l) - 1\<rparr>)\<rparr>"

text \<open>The four stores of a claim.\<close>

definition claim :: "nat \<Rightarrow> nat \<Rightarrow> lock_table \<Rightarrow> lock_table" where
  "claim t l s = s\<lparr>
     heap := (heap s)(l := (heap s l)\<lparr>rl_owner_txn_id := lock_txn_id (trx s t),
                                     rl_owner_trx := Some t,
                                     rl_held_next := held_locks_head (trx s t)\<rparr>),
     trx := (trx s)(t := (trx s t)\<lparr>held_locks_head := Some l\<rparr>)\<rparr>"

subsection \<open>The deadlock walk\<close>

primrec walk_loop :: "lock_table \<Rightarrow> nat \<Rightarrow> nat \<Rightarrow> nat option \<Rightarrow> bool" where
  "walk_loop s requestor 0 cur = False"
| "walk_loop s requestor (Suc left) cur =
     (case cur of None \<Rightarrow> False
      | Some c \<Rightarrow>
          if c = requestor then True
          else (case waiting_on (trx s c) of None \<Rightarrow> False
                | Some cur_waiting \<Rightarrow>
                    walk_loop s requestor left (rl_owner_trx (heap s cur_waiting))))"

definition tdb_lock_would_deadlock :: "lock_table \<Rightarrow> nat \<Rightarrow> nat \<Rightarrow> bool" where
  "tdb_lock_would_deadlock s requestor target_lock =
     walk_loop s requestor DEADLOCK_MAX_DEPTH (rl_owner_trx (heap s target_lock))"

text \<open>The same walk one atomic load at a time, each load reading the state of its moment.\<close>

fun walk_step :: "lock_table \<Rightarrow> nat \<Rightarrow> nat \<Rightarrow> walk_pos \<Rightarrow> walk_pos" where
  "walk_step s requestor target_lock W_Start = W_At (rl_owner_trx (heap s target_lock)) 0"
| "walk_step s requestor target_lock (W_At cur depth) =
     (if depth < DEADLOCK_MAX_DEPTH
      then (case cur of None \<Rightarrow> W_Done False
            | Some c \<Rightarrow>
                if c = requestor then W_Done True
                else (case waiting_on (trx s c) of None \<Rightarrow> W_Done False
                      | Some cur_waiting \<Rightarrow> W_Owner cur_waiting depth))
      else W_Done False)"
| "walk_step s requestor target_lock (W_Owner cur_waiting depth) =
     W_At (rl_owner_trx (heap s cur_waiting)) (depth + 1)"
| "walk_step s requestor target_lock (W_Done r) = W_Done r"

subsection \<open>Acquiring\<close>

text \<open>\<open>row_lock_acquire\<close> from its entry to the point where it drops the mutex to walk.\<close>

definition acquire_found :: "nat \<Rightarrow> nat \<Rightarrow> lock_table \<Rightarrow> lock_table" where
  "acquire_found t l s =
     (if rl_owner_txn_id (heap s l) = lock_txn_id (trx s t) \<and> rl_owner_trx (heap s l) = Some t
      then set_pc t (Ret HA_OK) s
      else if rl_owner_txn_id (heap s l) = 0
      then set_pc t (Ret HA_OK) (claim t l s)
      else set_pc t (Walking l False W_Start) (set_waiting t (Some l) s))"

definition acquire_enter ::
  "(bytes \<Rightarrow> u64) \<Rightarrow> bool \<Rightarrow> nat \<Rightarrow> bytes \<Rightarrow> lock_table \<Rightarrow> lock_table" where
  "acquire_enter XXH3_64bits malloc_ok t key s =
     (if \<not> lock_partitions s then set_pc t (Ret HA_OK) s
      else case tdb_lock_find_or_create malloc_ok (tdb_lock_part XXH3_64bits key) key s of
        (None, s1) \<Rightarrow> set_pc t (Ret HA_ERR_OUT_OF_MEM) s1
      | (Some l, s1) \<Rightarrow> acquire_found t l s1)"

text \<open>The head of the wait loop, entered with the mutex of the lock's partition.\<close>

definition wait_loop_head :: "nat \<Rightarrow> nat \<Rightarrow> lock_table \<Rightarrow> lock_table" where
  "wait_loop_head t l s =
     (if rl_owner_txn_id (heap s l) \<noteq> 0 \<and> rl_owner_trx (heap s l) \<noteq> Some t
      then (if killed s t
            then set_pc t (Ret HA_ERR_LOCK_WAIT_TIMEOUT) (set_waiting t None (drop_waiter l s))
            else set_pc t (Walking l True W_Start)
                   (s\<lparr>mutex := (mutex s)(rl_partition (heap s l) := Some t)\<rparr>))
      else set_pc t (Ret HA_OK) (claim t l (set_waiting t None (drop_waiter l s))))"

text \<open>What follows the first walk: the mutex is taken again.\<close>

definition acquire_after_walk :: "nat \<Rightarrow> nat \<Rightarrow> bool \<Rightarrow> lock_table \<Rightarrow> lock_table" where
  "acquire_after_walk t l deadlock s =
     (if deadlock then set_pc t (Ret HA_ERR_LOCK_DEADLOCK) (set_waiting t None s)
      else if rl_owner_txn_id (heap s l) = 0
      then set_pc t (Ret HA_OK) (set_waiting t None (claim t l s))
      else wait_loop_head t l (add_waiter l s))"

text \<open>What follows a walk of the wait loop: give up, or sleep, which drops the mutex.\<close>

definition wait_after_walk :: "nat \<Rightarrow> nat \<Rightarrow> bool \<Rightarrow> lock_table \<Rightarrow> lock_table" where
  "wait_after_walk t l deadlock s =
     (let s1 = s\<lparr>mutex := (mutex s)(rl_partition (heap s l) := None)\<rparr> in
      if deadlock
      then set_pc t (Ret HA_ERR_LOCK_DEADLOCK) (set_waiting t None (drop_waiter l s1))
      else set_pc t (Asleep l) s1)"

subsection \<open>Releasing, killing, closing\<close>

definition broadcast :: "nat \<Rightarrow> lock_table \<Rightarrow> lock_table" where
  "broadcast l s = s\<lparr>pc := (\<lambda>u. if pc s u = Asleep l then Woken l else pc s u)\<rparr>"

text \<open>\<open>row_locks_release_all\<close>: its entry, one round of its loop, and what follows the loop.\<close>

definition release_begin :: "nat \<Rightarrow> bool \<Rightarrow> lock_table \<Rightarrow> lock_table" where
  "release_begin t closing s =
     (if \<not> lock_partitions s then set_pc t (if closing then Closing else Ret HA_OK) s
      else set_pc t (Releasing (held_locks_head (trx s t)) closing) s)"

definition release_one :: "nat \<Rightarrow> nat \<Rightarrow> bool \<Rightarrow> lock_table \<Rightarrow> lock_table" where
  "release_one t l closing s =
     (let s1 = s\<lparr>heap := (heap s)(l := (heap s l)\<lparr>rl_owner_txn_id := 0, rl_owner_trx := None,
                                               rl_held_next := None\<rparr>)\<rparr>;
          s2 = (if rl_waiters (heap s l) > 0 then broadcast l s1 else s1) in
      set_pc t (Releasing (rl_held_next (heap s l)) closing) s2)"

definition release_end :: "nat \<Rightarrow> bool \<Rightarrow> lock_table \<Rightarrow> lock_table" where
  "release_end t closing s =
     set_pc t (if closing then Closing else Ret HA_OK)
       (s\<lparr>trx := (trx s)(t := (trx s t)\<lparr>held_locks_head := None, waiting_on := None\<rparr>)\<rparr>)"

text \<open>\<open>tidesdb_hton_kill_query\<close>: wake whoever waits on the lock the victim waits on.\<close>

definition kill_query :: "nat \<Rightarrow> lock_table \<Rightarrow> lock_table" where
  "kill_query t s = (case waiting_on (trx s t) of None \<Rightarrow> s
     | Some wait \<Rightarrow>
         if lock_partitions s \<and> rl_partition (heap s wait) < ROW_LOCK_PARTITIONS
         then broadcast wait s else s)"

text \<open>The lock fields \<open>get_or_create_trx\<close> gives a new struct, and the state at start-up.\<close>

definition new_trx_locks :: trx_locks where
  "new_trx_locks = \<lparr>held_locks_head = None, lock_txn_id = 1, waiting_on = None\<rparr>"

definition tdb_row_lock_init :: "bool \<Rightarrow> lock_table" where
  "tdb_row_lock_init malloc_ok =
     \<lparr>lock_partitions = malloc_ok, heap = (\<lambda>_. new_lock 0 []), n_locks = 0, chain = (\<lambda>_. []), mutex = (\<lambda>_. None),
      trx = (\<lambda>_. new_trx_locks), pc = (\<lambda>_. Closed), killed = (\<lambda>_. False)\<rparr>"

text \<open>A walker holds the read side of \<open>g_trx_lifecycle_lock\<close> between its loads.\<close>

fun mid_walk :: "lock_pc \<Rightarrow> bool" where
  "mid_walk (Walking l w (W_At cur d)) = True"
| "mid_walk (Walking l w (W_Owner cw d)) = True"
| "mid_walk _ = False"

inductive lock_step :: "(bytes \<Rightarrow> u64) \<Rightarrow> lock_table \<Rightarrow> lock_table \<Rightarrow> bool"
  for XXH3_64bits :: "bytes \<Rightarrow> u64" where
  open_trx: "pc s t = Closed \<Longrightarrow>
    lock_step XXH3_64bits s
      (set_pc t (Ret HA_OK) (s\<lparr>trx := (trx s)(t := new_trx_locks)\<rparr>))"
| enter: "pc s t = Ret rc \<Longrightarrow> mutex s (tdb_lock_part XXH3_64bits key) = None \<Longrightarrow>
    lock_step XXH3_64bits s (acquire_enter XXH3_64bits malloc_ok t key s)"
| walk: "pc s t = Walking l w pos \<Longrightarrow>
    lock_step XXH3_64bits s (set_pc t (Walking l w (walk_step s t l pos)) s)"
| after_walk: "pc s t = Walking l False (W_Done r) \<Longrightarrow>
    mutex s (rl_partition (heap s l)) = None \<Longrightarrow>
    lock_step XXH3_64bits s (acquire_after_walk t l r s)"
| wait_walked: "pc s t = Walking l True (W_Done r) \<Longrightarrow>
    lock_step XXH3_64bits s (wait_after_walk t l r s)"
| spurious: "pc s t = Asleep l \<Longrightarrow> lock_step XXH3_64bits s (set_pc t (Woken l) s)"
| resume: "pc s t = Woken l \<Longrightarrow> mutex s (rl_partition (heap s l)) = None \<Longrightarrow>
    lock_step XXH3_64bits s (wait_loop_head t l s)"
| release_start: "pc s t = Ret rc \<Longrightarrow>
    lock_step XXH3_64bits s (release_begin t closing s)"
| release: "pc s t = Releasing (Some l) closing \<Longrightarrow>
    mutex s (rl_partition (heap s l)) = None \<Longrightarrow>
    lock_step XXH3_64bits s (release_one t l closing s)"
| released: "pc s t = Releasing None closing \<Longrightarrow>
    lock_step XXH3_64bits s (release_end t closing s)"
| thd_kill: "lock_step XXH3_64bits s (s\<lparr>killed := (killed s)(t := b)\<rparr>)"
| kill: "pc s t \<noteq> Closed \<Longrightarrow>
    (\<forall>l. waiting_on (trx s t) = Some l \<longrightarrow> mutex s (rl_partition (heap s l)) = None) \<Longrightarrow>
    lock_step XXH3_64bits s (kill_query t s)"
| close: "pc s t = Closing \<Longrightarrow> (\<forall>u. \<not> mid_walk (pc s u)) \<Longrightarrow>
    lock_step XXH3_64bits s (set_pc t Closed s)"

definition lock_init :: "lock_table \<Rightarrow> bool" where
  "lock_init s \<longleftrightarrow> (\<exists>malloc_ok. s = tdb_row_lock_init malloc_ok)"

section \<open>What each operation changes\<close>

lemma set_pc_proj [simp]:
  "pc (set_pc t p s) = (pc s)(t := p)" "heap (set_pc t p s) = heap s"
  "trx (set_pc t p s) = trx s" "mutex (set_pc t p s) = mutex s"
  "n_locks (set_pc t p s) = n_locks s" "chain (set_pc t p s) = chain s"
  "killed (set_pc t p s) = killed s" "lock_partitions (set_pc t p s) = lock_partitions s"
  by (simp_all add: set_pc_def)

lemma set_waiting_proj [simp]:
  "pc (set_waiting t w s) = pc s" "heap (set_waiting t w s) = heap s"
  "trx (set_waiting t w s) = (trx s)(t := (trx s t)\<lparr>waiting_on := w\<rparr>)"
  "mutex (set_waiting t w s) = mutex s"
  "n_locks (set_waiting t w s) = n_locks s" "chain (set_waiting t w s) = chain s"
  "killed (set_waiting t w s) = killed s"
  "lock_partitions (set_waiting t w s) = lock_partitions s"
  by (simp_all add: set_waiting_def)

lemma add_waiter_proj [simp]:
  "pc (add_waiter l s) = pc s" "trx (add_waiter l s) = trx s"
  "heap (add_waiter l s) = (heap s)(l := (heap s l)\<lparr>rl_waiters := rl_waiters (heap s l) + 1\<rparr>)"
  "mutex (add_waiter l s) = mutex s" "n_locks (add_waiter l s) = n_locks s"
  "chain (add_waiter l s) = chain s" "killed (add_waiter l s) = killed s"
  "lock_partitions (add_waiter l s) = lock_partitions s"
  by (simp_all add: add_waiter_def)

lemma drop_waiter_proj [simp]:
  "pc (drop_waiter l s) = pc s" "trx (drop_waiter l s) = trx s"
  "heap (drop_waiter l s) = (heap s)(l := (heap s l)\<lparr>rl_waiters := rl_waiters (heap s l) - 1\<rparr>)"
  "mutex (drop_waiter l s) = mutex s" "n_locks (drop_waiter l s) = n_locks s"
  "chain (drop_waiter l s) = chain s" "killed (drop_waiter l s) = killed s"
  "lock_partitions (drop_waiter l s) = lock_partitions s"
  by (simp_all add: drop_waiter_def)

lemma claim_proj [simp]:
  "pc (claim t l s) = pc s"
  "trx (claim t l s) = (trx s)(t := (trx s t)\<lparr>held_locks_head := Some l\<rparr>)"
  "heap (claim t l s) = (heap s)(l := (heap s l)\<lparr>rl_owner_txn_id := lock_txn_id (trx s t),
      rl_owner_trx := Some t, rl_held_next := held_locks_head (trx s t)\<rparr>)"
  "mutex (claim t l s) = mutex s" "n_locks (claim t l s) = n_locks s"
  "chain (claim t l s) = chain s" "killed (claim t l s) = killed s"
  "lock_partitions (claim t l s) = lock_partitions s"
  by (simp_all add: claim_def)

lemma broadcast_proj [simp]:
  "pc (broadcast l s) = (\<lambda>u. if pc s u = Asleep l then Woken l else pc s u)"
  "trx (broadcast l s) = trx s" "heap (broadcast l s) = heap s"
  "mutex (broadcast l s) = mutex s" "n_locks (broadcast l s) = n_locks s"
  "chain (broadcast l s) = chain s" "killed (broadcast l s) = killed s"
  "lock_partitions (broadcast l s) = lock_partitions s"
  by (simp_all add: broadcast_def)

lemmas lock_ops = acquire_after_walk_def wait_loop_head_def wait_after_walk_def
  release_begin_def release_one_def release_end_def kill_query_def Let_def

section \<open>Invariants\<close>

fun pc_waits :: "lock_pc \<Rightarrow> nat option" where
  "pc_waits (Walking l w pos) = Some l"
| "pc_waits (Asleep l) = Some l"
| "pc_waits (Woken l) = Some l"
| "pc_waits _ = None"

fun pc_counted :: "lock_pc \<Rightarrow> nat option" where
  "pc_counted (Walking l w pos) = (if w then Some l else None)"
| "pc_counted (Asleep l) = Some l"
| "pc_counted (Woken l) = Some l"
| "pc_counted _ = None"

fun held_path :: "lock_table \<Rightarrow> nat option \<Rightarrow> nat list \<Rightarrow> bool" where
  "held_path s p [] = (p = None)"
| "held_path s p (l # ls) = (p = Some l \<and> held_path s (rl_held_next (heap s l)) ls)"

definition held_start :: "lock_table \<Rightarrow> nat \<Rightarrow> nat option" where
  "held_start s t = (case pc s t of Releasing p c \<Rightarrow> p | Closing \<Rightarrow> None | Closed \<Rightarrow> None
     | _ \<Rightarrow> held_locks_head (trx s t))"

definition inv_cells :: "lock_table \<Rightarrow> bool" where
  "inv_cells s \<longleftrightarrow>
     (\<forall>l. rl_owner_txn_id (heap s l) = (if rl_owner_trx (heap s l) = None then 0 else 1)) \<and>
     (\<forall>l. n_locks s \<le> l \<longrightarrow> heap s l = new_lock 0 []) \<and>
     (\<forall>t. lock_txn_id (trx s t) = 1) \<and>
     (\<forall>t l. pc_waits (pc s t) = Some l \<longrightarrow> l < n_locks s) \<and>
     (\<not> lock_partitions s \<longrightarrow> n_locks s = 0)"

definition inv_waiting :: "lock_table \<Rightarrow> bool" where
  "inv_waiting s \<longleftrightarrow> (\<forall>t. waiting_on (trx s t) = pc_waits (pc s t)) \<and>
     (\<forall>t l. pc_waits (pc s t) = Some l \<longrightarrow> rl_owner_trx (heap s l) \<noteq> Some t)"

definition inv_mutex :: "lock_table \<Rightarrow> bool" where
  "inv_mutex s \<longleftrightarrow> (\<forall>p t. mutex s p = Some t \<longleftrightarrow>
     (\<exists>l pos. pc s t = Walking l True pos \<and> rl_partition (heap s l) = p))"

definition inv_owned :: "lock_table \<Rightarrow> bool" where
  "inv_owned s \<longleftrightarrow> (\<forall>t l. pc s t = Asleep l \<or> (\<exists>pos. pc s t = Walking l True pos) \<longrightarrow>
     rl_owner_trx (heap s l) \<noteq> None)"

definition inv_count :: "lock_table \<Rightarrow> bool" where
  "inv_count s \<longleftrightarrow> (\<forall>l. finite {t. pc_counted (pc s t) = Some l} \<and>
     rl_waiters (heap s l) = card {t. pc_counted (pc s t) = Some l})"

definition inv_held :: "lock_table \<Rightarrow> bool" where
  "inv_held s \<longleftrightarrow> (\<forall>t. \<exists>ls. held_path s (held_start s t) ls \<and> distinct ls \<and>
     set ls = {l. rl_owner_trx (heap s l) = Some t})"

definition inv_live :: "lock_table \<Rightarrow> bool" where
  "inv_live s \<longleftrightarrow> (\<forall>t l w c d. pc s t = Walking l w (W_At (Some c) d) \<longrightarrow> pc s c \<noteq> Closed)"

definition inv_chain :: "(bytes \<Rightarrow> u64) \<Rightarrow> lock_table \<Rightarrow> bool" where
  "inv_chain X s \<longleftrightarrow>
     (\<forall>p l. l \<in> set (chain s p) \<longrightarrow> l < n_locks s \<and> tdb_lock_part X (rl_pk (heap s l)) = p) \<and>
     (\<forall>p. inj_on (\<lambda>l. rl_pk (heap s l)) (set (chain s p))) \<and>
     (\<forall>l<n_locks s. l \<in> set (chain s (rl_partition (heap s l))))"

definition lock_inv :: "(bytes \<Rightarrow> u64) \<Rightarrow> lock_table \<Rightarrow> bool" where
  "lock_inv X s \<longleftrightarrow> inv_cells s \<and> inv_waiting s \<and> inv_mutex s \<and> inv_owned s \<and> inv_count s \<and>
     inv_held s \<and> inv_live s \<and> inv_chain X s"

lemmas inv_defs = inv_cells_def inv_waiting_def inv_mutex_def inv_owned_def inv_count_def
  inv_held_def inv_live_def

lemma find_or_create_cases:
  assumes "tdb_lock_find_or_create ok p k s = (r, s1)"
  obtains (found) l where "r = Some l" "s1 = s" "l \<in> set (chain s p)" "rl_pk (heap s l) = k"
  | (oom) "r = None" "s1 = s" "\<not> ok"
  | (created) "r = Some (n_locks s)" "\<forall>l\<in>set (chain s p). rl_pk (heap s l) \<noteq> k"
      "s1 = s\<lparr>heap := (heap s)(n_locks s := new_lock p k), n_locks := Suc (n_locks s),
              chain := (chain s)(p := n_locks s # chain s p)\<rparr>"
proof (cases "find (\<lambda>e. rl_pk (heap s e) = k) (chain s p)")
  case None
  then have n: "\<forall>l\<in>set (chain s p). rl_pk (heap s l) \<noteq> k"
    by (auto simp: find_None_iff)
  show ?thesis
  proof (cases ok)
    case True
    show ?thesis
      by (rule created) (use n assms None True in \<open>auto simp: tdb_lock_find_or_create_def Let_def\<close>)
  next
    case False
    show ?thesis
      by (rule oom) (use assms None False in \<open>auto simp: tdb_lock_find_or_create_def\<close>)
  qed
next
  case (Some l)
  have "l \<in> set (chain s p)" "rl_pk (heap s l) = k"
    using Some by (auto simp: find_Some_iff)
  then show ?thesis
    by (rule found [rotated 2]) (use assms Some in \<open>auto simp: tdb_lock_find_or_create_def\<close>)
qed

text \<open>Looking up or creating the entry keeps everything; what comes back is an entry for
  the key.\<close>

lemma held_path_cong:
  "(\<And>l. l \<in> set ls \<Longrightarrow> rl_held_next (heap s' l) = rl_held_next (heap s l)) \<Longrightarrow>
   held_path s' p ls = held_path s p ls"
  by (induction ls arbitrary: p) auto

lemma inv_held_cong:
  assumes "inv_held s"
    and own: "\<And>l. rl_owner_trx (heap s' l) = rl_owner_trx (heap s l)"
    and nxt: "\<And>l t. rl_owner_trx (heap s l) = Some t \<Longrightarrow>
      rl_held_next (heap s' l) = rl_held_next (heap s l)"
    and start: "\<And>t. held_start s' t = held_start s t"
  shows "inv_held s'"
  unfolding inv_held_def
proof
  fix t
  obtain ls where ls: "held_path s (held_start s t) ls" "distinct ls"
      "set ls = {l. rl_owner_trx (heap s l) = Some t}"
    using assms(1) unfolding inv_held_def by blast
  have "held_path s' (held_start s t) ls"
    using ls(1) held_path_cong [of ls s' s] nxt ls(3) by simp
  then show "\<exists>ls. held_path s' (held_start s' t) ls \<and> distinct ls \<and>
      set ls = {l. rl_owner_trx (heap s' l) = Some t}"
    unfolding start own using ls by blast
qed

lemma pc_counted_waits: "pc_counted p = Some l \<Longrightarrow> pc_waits p = Some l"
  by (cases p) (auto split: if_splits)

lemma find_or_create_inv:
  assumes "lock_inv X s" "tdb_lock_find_or_create ok (tdb_lock_part X k) k s = (r, s1)"
    and "lock_partitions s"
  shows "lock_inv X s1 \<and> pc s1 = pc s \<and> trx s1 = trx s \<and> mutex s1 = mutex s \<and>
    (\<forall>l. rl_owner_trx (heap s1 l) = rl_owner_trx (heap s l)) \<and>
    (\<forall>l. r = Some l \<longrightarrow> l < n_locks s1 \<and> rl_pk (heap s1 l) = k)"
  using assms(2)
proof (cases rule: find_or_create_cases)
  case (found l)
  then show ?thesis using assms by (auto simp: lock_inv_def inv_chain_def)
next
  case oom
  then show ?thesis using assms by auto
next
  case created
  have n: "heap s (n_locks s) = new_lock 0 []" "\<And>t. pc_waits (pc s t) \<noteq> Some (n_locks s)"
    using assms(1) by (auto simp: lock_inv_def inv_cells_def)
  have own: "rl_owner_trx (heap s1 l) = rl_owner_trx (heap s l)" for l
    using n created by (simp add: new_lock_def)
  have "inv_cells s1"
    using assms(1,3) created by (auto simp: lock_inv_def inv_cells_def new_lock_def less_Suc_eq)
  moreover have "inv_waiting s1" "inv_live s1"
    using assms(1) own created(3) by (auto simp: lock_inv_def inv_waiting_def inv_live_def)
  moreover have "inv_mutex s1"
  proof -
    have "pc s t = Walking l True pos \<and> rl_partition (heap s1 l) = p \<longleftrightarrow>
        pc s t = Walking l True pos \<and> rl_partition (heap s l) = p" for t l pos p
      using n(2) [of t] by (auto simp: created(3))
    moreover have "pc s1 = pc s" "mutex s1 = mutex s" by (simp_all add: created(3))
    ultimately show ?thesis
      using assms(1) by (simp add: lock_inv_def inv_mutex_def)
  qed
  moreover have "inv_owned s1"
    using assms(1) own created by (auto simp: lock_inv_def inv_owned_def)
  moreover have "inv_count s1"
  proof -
    have "{t. pc_counted (pc s t) = Some (n_locks s)} = {}"
      using n(2) by (auto dest: pc_counted_waits)
    then show ?thesis
      using assms(1) created by (simp add: lock_inv_def inv_count_def new_lock_def)
  qed
  moreover have "inv_held s1"
  proof -
    have "rl_held_next (heap s1 l) = rl_held_next (heap s l)" if "rl_owner_trx (heap s l) = Some t"
      for l t
      using that n(1) created(3) by (auto simp: new_lock_def)
    moreover have "held_start s1 t = held_start s t" for t
      by (simp add: held_start_def created(3) split: lock_pc.split)
    moreover have "inv_held s" using assms(1) by (simp add: lock_inv_def)
    ultimately show ?thesis using own by (metis inv_held_cong)
  qed
  moreover have "inv_chain X s1"
  proof -
    have c: "l < n_locks s \<and> tdb_lock_part X (rl_pk (heap s l)) = p" if "l \<in> set (chain s p)" for p l
      using assms(1) that by (simp add: lock_inv_def inv_chain_def)
    have i: "inj_on (\<lambda>l. rl_pk (heap s l)) (set (chain s p))" for p
      using assms(1) by (simp add: lock_inv_def inv_chain_def)
    have "inj_on (\<lambda>l. rl_pk (heap s1 l)) (set (chain s1 p))" for p
    proof -
      have "inj_on (\<lambda>l. rl_pk (heap s1 l)) (set (chain s p))"
        using i [of p] c [of _ p] by (auto simp: created(3) inj_on_def)
      then show ?thesis
        using created(2) c by (fastforce simp: created(3) new_lock_def)
    qed
    moreover have "\<forall>l<n_locks s. l \<in> set (chain s (rl_partition (heap s l)))"
      using assms(1) by (simp add: lock_inv_def inv_chain_def)
    ultimately show ?thesis
      using c by (auto simp: inv_chain_def created(3) new_lock_def less_Suc_eq)
  qed
  ultimately show ?thesis
    using created own by (simp add: lock_inv_def new_lock_def)
qed

section \<open>The elementary moves keep the invariant\<close>

lemma lock_invD:
  assumes "lock_inv X s"
  shows "inv_cells s" "inv_waiting s" "inv_mutex s" "inv_owned s" "inv_count s" "inv_held s"
    "inv_live s" "inv_chain X s"
  using assms by (simp_all add: lock_inv_def)

lemma lock_invI:
  assumes "inv_cells s" "inv_waiting s" "inv_mutex s" "inv_owned s" "inv_count s" "inv_held s"
    "inv_live s" "inv_chain X s"
  shows "lock_inv X s"
  using assms by (simp add: lock_inv_def)

lemma mid_walk_At: "pc s u = Walking l w (W_At c d) \<Longrightarrow> \<forall>u. \<not> mid_walk (pc s u) \<Longrightarrow> False"
  by (metis mid_walk.simps(1))

lemma inv_count_upd:
  assumes "inv_count s" "pc s' = (pc s)(t := p)"
    and w: "\<And>l. rl_waiters (heap s' l) + (if pc_counted (pc s t) = Some l then 1 else 0) =
      rl_waiters (heap s l) + (if pc_counted p = Some l then 1 else 0)"
  shows "inv_count s'"
  unfolding inv_count_def
proof
  fix l
  let ?A = "{u. pc_counted (pc s u) = Some l}"
  have A: "finite ?A" "rl_waiters (heap s l) = card ?A"
    using assms(1) by (auto simp: inv_count_def)
  have eq: "{u. pc_counted (pc s' u) = Some l} =
      (if pc_counted p = Some l then insert t ?A else ?A - {t})"
    using assms(2) by auto
  have "card ?A > 0" if "pc_counted (pc s t) = Some l"
    using that A(1) by (auto simp: card_gt_0_iff)
  then show "finite {u. pc_counted (pc s' u) = Some l} \<and>
      rl_waiters (heap s' l) = card {u. pc_counted (pc s' u) = Some l}"
    unfolding eq using A w [of l]
    by (auto simp: card_insert_if card_Diff_singleton_if split: if_splits)
qed

text \<open>A move of one thread that leaves ownership alone.\<close>

lemma thread_move:
  assumes inv: "lock_inv X s"
    and pc': "pc s' = (pc s)(t := p)"
    and own': "\<And>l. rl_owner_txn_id (heap s' l) = rl_owner_txn_id (heap s l)"
      "\<And>l. rl_owner_trx (heap s' l) = rl_owner_trx (heap s l)"
    and cell': "\<And>l. rl_pk (heap s' l) = rl_pk (heap s l)"
      "\<And>l. rl_partition (heap s' l) = rl_partition (heap s l)"
      "\<And>l. rl_held_next (heap s' l) = rl_held_next (heap s l)"
    and fresh': "\<And>l. n_locks s \<le> l \<Longrightarrow> heap s' l = heap s l"
    and table': "n_locks s' = n_locks s" "chain s' = chain s"
      "lock_partitions s' = lock_partitions s"
    and trx': "\<And>u. u \<noteq> t \<Longrightarrow> trx s' u = trx s u" "waiting_on (trx s' t) = pc_waits p"
      "lock_txn_id (trx s' t) = 1"
    and waits': "\<And>l. pc_waits p = Some l \<Longrightarrow> l < n_locks s"
      "\<And>l. pc_waits p = Some l \<Longrightarrow> rl_owner_trx (heap s l) \<noteq> Some t"
    and mutex': "\<And>q. mutex s' q =
      (if \<exists>l pos. p = Walking l True pos \<and> rl_partition (heap s l) = q then Some t
       else if mutex s q = Some t then None else mutex s q)"
      "\<And>l pos. p = Walking l True pos \<Longrightarrow>
        mutex s (rl_partition (heap s l)) = None \<or> mutex s (rl_partition (heap s l)) = Some t"
    and owned': "\<And>l pos. p = Asleep l \<or> p = Walking l True pos \<Longrightarrow>
      rl_owner_trx (heap s l) \<noteq> None"
    and waiters': "\<And>l. rl_waiters (heap s' l) + (if pc_counted (pc s t) = Some l then 1 else 0) =
      rl_waiters (heap s l) + (if pc_counted p = Some l then 1 else 0)"
    and start': "held_start s' t = held_start s t"
    and live': "\<And>l w c d. p = Walking l w (W_At (Some c) d) \<Longrightarrow> pc s c \<noteq> Closed"
      "p = Closed \<Longrightarrow> \<forall>u. \<not> mid_walk (pc s u)"
  shows "lock_inv X s'"
proof (rule lock_invI)
  note i = lock_invD [OF inv]
  show "inv_cells s'"
    using i(1) waits'(1) trx' unfolding inv_cells_def own' table' pc'
    by (auto simp: fresh') metis+
  show "inv_waiting s'"
    using i(2) trx' waits'(2) unfolding inv_waiting_def pc' own' by auto
  show "inv_mutex s'"
    unfolding inv_mutex_def
  proof (intro allI)
    fix q u
    have "mutex s q = Some u \<longleftrightarrow>
        (\<exists>l pos. pc s u = Walking l True pos \<and> rl_partition (heap s l) = q)"
      using i(3) by (simp add: inv_mutex_def)
    then show "mutex s' q = Some u \<longleftrightarrow>
        (\<exists>l pos. pc s' u = Walking l True pos \<and> rl_partition (heap s' l) = q)"
      using mutex'(2) unfolding mutex'(1) cell' pc' by (cases "u = t") auto
  qed
  show "inv_owned s'"
    using i(4) owned' unfolding inv_owned_def own' pc' by auto
  show "inv_count s'"
    using i(5) pc' waiters' by (rule inv_count_upd)
  have "held_start s' u = held_start s u" for u
    using start' trx'(1) by (cases "u = t") (auto simp: held_start_def pc' split: lock_pc.split)
  then show "inv_held s'"
    by (intro inv_held_cong [OF i(6)]) (simp_all add: own' cell')
  show "inv_live s'"
    using i(7) live'(1) live'(2) unfolding inv_live_def pc' by (auto dest: mid_walk_At)
  show "inv_chain X s'"
    using i(8) unfolding inv_chain_def table' cell' .
qed

text \<open>Claiming a free entry pushes it on the front of the holder's list.\<close>

lemma held_startD:
  "inv_held s \<Longrightarrow> rl_owner_trx (heap s l) = Some u \<Longrightarrow> pc s u \<noteq> Closed \<and> pc s u \<noteq> Closing"
proof
  assume "inv_held s" and l: "rl_owner_trx (heap s l) = Some u"
  then obtain ls where ls: "held_path s (held_start s u) ls"
      "set ls = {l. rl_owner_trx (heap s l) = Some u}"
    unfolding inv_held_def by blast
  then have "ls \<noteq> []" using l by auto
  then have "held_start s u \<noteq> None" using ls(1) by (cases ls) auto
  then show "pc s u \<noteq> Closed" "pc s u \<noteq> Closing" by (auto simp: held_start_def)
qed

lemma inv_held_claim:
  assumes "inv_held s" "pc s t = Ret rc" "rl_owner_trx (heap s l) = None"
  shows "inv_held (claim t l s)"
  unfolding inv_held_def
proof
  fix u
  let ?s = "claim t l s"
  obtain ls where ls: "held_path s (held_start s u) ls" "distinct ls"
      "set ls = {k. rl_owner_trx (heap s k) = Some u}"
    using assms(1) unfolding inv_held_def by blast
  have "l \<notin> set ls" using ls(3) assms(3) by simp
  then have path: "held_path ?s q ls = held_path s q ls" for q
    by (intro held_path_cong) auto
  show "\<exists>ls. held_path ?s (held_start ?s u) ls \<and> distinct ls \<and>
      set ls = {k. rl_owner_trx (heap ?s k) = Some u}"
  proof (cases "u = t")
    case True
    have "held_path ?s (held_start ?s t) (l # ls)"
      using ls(1) path assms(2) True by (simp add: held_start_def)
    moreover have "set (l # ls) = {k. rl_owner_trx (heap ?s k) = Some t}"
      using ls(3) True by auto
    ultimately show ?thesis using ls(2) \<open>l \<notin> set ls\<close> True by (intro exI [of _ "l # ls"]) simp
  next
    case False
    have "held_start ?s u = held_start s u"
      using False by (simp add: held_start_def split: lock_pc.split)
    moreover have "set ls = {k. rl_owner_trx (heap ?s k) = Some u}"
      using ls(3) False assms(3) by auto
    ultimately show ?thesis using ls path by (intro exI [of _ ls]) simp
  qed
qed

lemma claim_inv:
  assumes "lock_inv X s" "pc s t = Ret rc" "rl_owner_trx (heap s l) = None" "l < n_locks s"
  shows "lock_inv X (claim t l s)"
proof (rule lock_invI)
  note i = lock_invD [OF assms(1)]
  show "inv_cells (claim t l s)" using i(1) assms(4) by (auto simp: inv_cells_def)
  show "inv_waiting (claim t l s)" using i(2) assms(2) by (auto simp: inv_waiting_def)
  show "inv_mutex (claim t l s)"
  proof -
    have "rl_partition (heap (claim t l s) k) = rl_partition (heap s k)" for k by simp
    then show ?thesis using i(3) unfolding inv_mutex_def by (simp del: claim_proj(3))
  qed
  show "inv_owned (claim t l s)" using i(4) by (auto simp: inv_owned_def)
  show "inv_count (claim t l s)" using i(5) by (simp add: inv_count_def)
  show "inv_held (claim t l s)" using i(6) assms(2,3) by (rule inv_held_claim)
  show "inv_live (claim t l s)" using i(7) by (simp add: inv_live_def)
  show "inv_chain X (claim t l s)"
  proof -
    have "rl_partition (heap (claim t l s) k) = rl_partition (heap s k)"
      "rl_pk (heap (claim t l s) k) = rl_pk (heap s k)" for k by simp_all
    then show ?thesis using i(8) unfolding inv_chain_def by (simp del: claim_proj(3))
  qed
qed

text \<open>Waking is harmless at any time.\<close>

lemma broadcast_inv:
  assumes "lock_inv X s"
  shows "lock_inv X (broadcast l s)"
proof (rule lock_invI)
  note i = lock_invD [OF assms]
  let ?s = "broadcast l s"
  have w: "pc_waits (pc ?s u) = pc_waits (pc s u)" "pc_counted (pc ?s u) = pc_counted (pc s u)"
    "(pc ?s u = Walking k v pos) = (pc s u = Walking k v pos)" "(pc ?s u = Closed) = (pc s u = Closed)"
    "pc ?s u = Asleep k \<Longrightarrow> pc s u = Asleep k" "held_start ?s u = held_start s u" for u k v pos
    by (auto simp: held_start_def split: if_splits lock_pc.split)
  show "inv_cells ?s" using i(1) unfolding inv_cells_def w by simp
  show "inv_waiting ?s" using i(2) unfolding inv_waiting_def w by (simp del: broadcast_proj(1))
  show "inv_mutex ?s" using i(3) unfolding inv_mutex_def w by simp
  show "inv_owned ?s" using i(4) w(5) unfolding inv_owned_def w(3) by (simp del: broadcast_proj(1)) blast
  show "inv_count ?s" using i(5) unfolding inv_count_def w by simp
  show "inv_held ?s" by (rule inv_held_cong [OF i(6)]) (simp_all add: w del: broadcast_proj(1))
  show "inv_live ?s" using i(7) unfolding inv_live_def w .
  show "inv_chain X ?s" using i(8) by (simp add: inv_chain_def)
qed

text \<open>Taking the first entry off the list of a releasing holder.\<close>

definition unlink :: "nat \<Rightarrow> nat \<Rightarrow> bool \<Rightarrow> lock_table \<Rightarrow> lock_table" where
  "unlink t l c s = set_pc t (Releasing (rl_held_next (heap s l)) c)
     (s\<lparr>heap := (heap s)(l := (heap s l)\<lparr>rl_owner_txn_id := 0, rl_owner_trx := None,
                                     rl_held_next := None\<rparr>)\<rparr>)"

lemma releasing_owner:
  assumes "inv_held s" "pc s t = Releasing (Some l) c"
  shows "rl_owner_trx (heap s l) = Some t"
proof -
  obtain ls where ls: "held_path s (Some l) ls" "set ls = {k. rl_owner_trx (heap s k) = Some t}"
    using assms unfolding inv_held_def held_start_def by (auto dest!: spec [of _ t])
  then show ?thesis by (cases ls) auto
qed

lemma owned_allocated:
  assumes "inv_cells s" "rl_owner_trx (heap s l) = Some t"
  shows "l < n_locks s"
proof (rule ccontr)
  assume "\<not> l < n_locks s"
  then have "heap s l = new_lock 0 []" using assms(1) by (simp add: inv_cells_def)
  then show False using assms(2) by (simp add: new_lock_def)
qed

lemma inv_held_unlink:
  assumes "inv_held s" "pc s t = Releasing (Some l) c"
  shows "inv_held (unlink t l c s)"
  unfolding inv_held_def
proof
  fix u
  let ?s = "unlink t l c s"
  obtain ls where ls: "held_path s (held_start s u) ls" "distinct ls"
      "set ls = {k. rl_owner_trx (heap s k) = Some u}"
    using assms(1) unfolding inv_held_def by blast
  have path: "held_path ?s q ks = held_path s q ks" if "l \<notin> set ks" for q ks
    using that by (intro held_path_cong) (auto simp: unlink_def)
  show "\<exists>ls. held_path ?s (held_start ?s u) ls \<and> distinct ls \<and>
      set ls = {k. rl_owner_trx (heap ?s k) = Some u}"
  proof (cases "u = t")
    case True
    then obtain ks where ks: "ls = l # ks" "held_path s (rl_held_next (heap s l)) ks"
      using ls(1) assms(2) by (cases ls) (auto simp: held_start_def)
    have "l \<notin> set ks" using ks ls(2) by simp
    then have "held_path ?s (held_start ?s t) ks"
      using ks path by (simp add: held_start_def unlink_def)
    moreover have "set ks = {k. rl_owner_trx (heap ?s k) = Some t}"
      using ls(3) True ks \<open>l \<notin> set ks\<close> by (auto simp: unlink_def)
    ultimately show ?thesis using ls(2) ks True by (intro exI [of _ ks]) simp
  next
    case False
    have "held_start ?s u = held_start s u"
      using False by (simp add: held_start_def unlink_def split: lock_pc.split)
    moreover have o: "rl_owner_trx (heap s l) \<noteq> Some u"
      using False releasing_owner [OF assms] by simp
    then have "held_path ?s (held_start s u) ls"
      using ls(1) path [of ls "held_start s u"] ls(3) by simp
    moreover have "set ls = {k. rl_owner_trx (heap ?s k) = Some u}"
      using ls(3) o by (auto simp: unlink_def)
    ultimately show ?thesis using ls(2) by (intro exI [of _ ls]) simp
  qed
qed

lemma unlink_inv:
  assumes "lock_inv X s" "pc s t = Releasing (Some l) c"
    and "\<And>u. pc s u \<noteq> Asleep l" "mutex s (rl_partition (heap s l)) = None"
  shows "lock_inv X (unlink t l c s)"
proof (rule lock_invI)
  note i = lock_invD [OF assms(1)]
  let ?s = "unlink t l c s"
  have f: "rl_partition (heap ?s k) = rl_partition (heap s k)" "rl_pk (heap ?s k) = rl_pk (heap s k)"
    "rl_waiters (heap ?s k) = rl_waiters (heap s k)" for k
    by (simp_all add: unlink_def)
  have f': "mutex ?s = mutex s" "pc ?s = (pc s)(t := Releasing (rl_held_next (heap s l)) c)"
    "trx ?s = trx s" "n_locks ?s = n_locks s" "chain ?s = chain s"
    by (simp_all add: unlink_def)
  have "l < n_locks s"
    using owned_allocated [OF i(1) releasing_owner [OF i(6) assms(2)]] .
  then show "inv_cells ?s"
    using i(1) by (auto simp: inv_cells_def unlink_def)
  show "inv_waiting ?s" using i(2) assms(2) unfolding inv_waiting_def f' by (auto simp: unlink_def)
  show "inv_mutex ?s" using i(3) assms(2) unfolding inv_mutex_def f f' by auto
  show "inv_owned ?s"
  proof -
    have "pc s u \<noteq> Walking l True pos" for u pos
      using i(3) assms(4) unfolding inv_mutex_def by (metis option.distinct(1))
    then show ?thesis
      using i(4) assms(3) unfolding inv_owned_def f' by (auto simp: unlink_def)
  qed
  show "inv_count ?s"
    by (rule inv_count_upd [OF i(5) f'(2)]) (simp add: f assms(2))
  show "inv_held ?s" using i(6) assms(2) by (rule inv_held_unlink)
  show "inv_live ?s" using i(7) unfolding inv_live_def f' by auto
  show "inv_chain X ?s" using i(8) unfolding inv_chain_def f f' .
qed

lemma release_one_eq:
  assumes "inv_count s" "pc s t = Releasing p c"
  shows "release_one t l c s = unlink t l c (broadcast l s)"
proof -
  have b: "broadcast l s = s" if "rl_waiters (heap s l) = 0"
  proof -
    have "{u. pc_counted (pc s u) = Some l} = {}"
      using assms(1) that by (simp add: inv_count_def)
    then have "pc s u \<noteq> Asleep l" for u
      by (metis (mono_tags) empty_Collect_eq pc_counted.simps(2))
    then show ?thesis by (simp add: broadcast_def)
  qed
  show ?thesis
  proof (cases "rl_waiters (heap s l) = 0")
    case True
    then show ?thesis by (simp add: release_one_def unlink_def b)
  next
    case False
    then show ?thesis
      by (simp add: release_one_def unlink_def Let_def broadcast_def set_pc_def cong: if_cong)
  qed
qed

lemma release_one_inv:
  assumes "lock_inv X s" "pc s t = Releasing (Some l) c" "mutex s (rl_partition (heap s l)) = None"
  shows "lock_inv X (release_one t l c s)"
  unfolding release_one_eq [OF lock_invD(5) [OF assms(1)] assms(2)]
  using broadcast_inv [OF assms(1)] assms(2,3) by (intro unlink_inv) auto

text \<open>The moves of a thread through \<open>row_lock_acquire\<close>.\<close>

lemma lock_txn_id_1: "lock_inv X s \<Longrightarrow> lock_txn_id (trx s t) = 1"
  by (simp add: lock_inv_def inv_cells_def)

lemma no_mutex:
  assumes "lock_inv X s" "\<And>l pos. pc s t \<noteq> Walking l True pos"
  shows "mutex s q \<noteq> Some t"
  using lock_invD(3) [OF assms(1)] assms(2) by (simp add: inv_mutex_def)

lemma waits_allocated: "lock_inv X s \<Longrightarrow> pc_waits (pc s t) = Some l \<Longrightarrow> l < n_locks s"
  by (auto simp: lock_inv_def inv_cells_def)

lemma waits_waiting: "lock_inv X s \<Longrightarrow> waiting_on (trx s t) = pc_waits (pc s t)"
  by (auto simp: lock_inv_def inv_waiting_def)

lemma waits_other: "lock_inv X s \<Longrightarrow> pc_waits (pc s t) = Some l \<Longrightarrow> rl_owner_trx (heap s l) \<noteq> Some t"
  by (auto simp: lock_inv_def inv_waiting_def)

lemma move_ret:
  assumes "lock_inv X s" "pc s t = Ret rc"
  shows "lock_inv X (set_pc t (Ret rc') s)"
  using lock_txn_id_1 [OF assms(1)] lock_invD(2) [OF assms(1)] no_mutex [OF assms(1), of t] assms(2)
  by (intro thread_move [OF assms(1), of _ t "Ret rc'"]) (auto simp: held_start_def inv_waiting_def)

lemma move_publish:
  assumes "lock_inv X s" "pc s t = Ret rc" "l < n_locks s" "rl_owner_trx (heap s l) \<noteq> Some t"
  shows "lock_inv X (set_pc t (Walking l False W_Start) (set_waiting t (Some l) s))"
  using lock_txn_id_1 [OF assms(1)] no_mutex [OF assms(1), of t] assms(2-)
  by (intro thread_move [OF assms(1), of _ t "Walking l False W_Start"]) (auto simp: held_start_def)

lemma move_retreat:
  assumes "lock_inv X s" "pc s t = Walking l False pos"
  shows "lock_inv X (set_pc t (Ret rc) (set_waiting t None s))"
  using lock_txn_id_1 [OF assms(1)] no_mutex [OF assms(1), of t] assms(2)
  by (intro thread_move [OF assms(1), of _ t "Ret rc"]) (auto simp: held_start_def)

lemma move_enlist:
  assumes "lock_inv X s" "pc s t = Walking l False pos"
  shows "lock_inv X (set_pc t (Woken l) (add_waiter l s))"
proof -
  have "l < n_locks s" "waiting_on (trx s t) = Some l" "rl_owner_trx (heap s l) \<noteq> Some t"
    using waits_allocated [OF assms(1), of t l] waits_other [OF assms(1), of t l] waits_waiting [OF assms(1)] assms(2) by auto
  then show ?thesis
    using lock_txn_id_1 [OF assms(1)] no_mutex [OF assms(1), of t] assms(2)
    by (intro thread_move [OF assms(1), of _ t "Woken l"]) (auto simp: held_start_def)
qed

lemma counted_pos:
  assumes "lock_inv X s" "pc_counted (pc s t) = Some l"
  shows "0 < rl_waiters (heap s l)"
  using lock_invD(5) [OF assms(1)] assms(2) by (auto simp: inv_count_def card_gt_0_iff)

lemma move_leave:
  assumes "lock_inv X s" "pc s t = Woken l"
  shows "lock_inv X (set_pc t (Ret rc) (set_waiting t None (drop_waiter l s)))"
proof -
  have "l < n_locks s"
    using waits_allocated [OF assms(1), of t l] assms(2) by auto
  moreover have "0 < rl_waiters (heap s l)"
    using counted_pos [OF assms(1), of t l] assms(2) by simp
  ultimately show ?thesis
    using lock_txn_id_1 [OF assms(1)] no_mutex [OF assms(1), of t] assms(2)
    by (intro thread_move [OF assms(1), of _ t "Ret rc"]) (auto simp: held_start_def)
qed

lemma move_rewalk:
  assumes "lock_inv X s" "pc s t = Woken l" "mutex s (rl_partition (heap s l)) = None"
    and "rl_owner_trx (heap s l) \<noteq> None"
  shows "lock_inv X (set_pc t (Walking l True W_Start)
    (s\<lparr>mutex := (mutex s)(rl_partition (heap s l) := Some t)\<rparr>))"
proof -
  have "l < n_locks s" "waiting_on (trx s t) = Some l" "rl_owner_trx (heap s l) \<noteq> Some t"
    using waits_allocated [OF assms(1), of t l] waits_other [OF assms(1), of t l] waits_waiting [OF assms(1)] assms(2) by auto
  then show ?thesis
    using lock_txn_id_1 [OF assms(1)] no_mutex [OF assms(1), of t] assms(2-)
    by (intro thread_move [OF assms(1), of _ t "Walking l True W_Start"])
      (auto simp: held_start_def)
qed

lemma move_unwalk:
  assumes "lock_inv X s" "pc s t = Walking l True pos" "p = Asleep l \<or> p = Woken l"
  shows "lock_inv X (set_pc t p (s\<lparr>mutex := (mutex s)(rl_partition (heap s l) := None)\<rparr>))"
proof -
  have "l < n_locks s" "waiting_on (trx s t) = Some l" "rl_owner_trx (heap s l) \<noteq> Some t"
    using waits_allocated [OF assms(1), of t l] waits_other [OF assms(1), of t l] waits_waiting [OF assms(1)] assms(2) by auto
  moreover have "rl_owner_trx (heap s l) \<noteq> None"
    using lock_invD(4) [OF assms(1)] assms(2) by (auto simp: inv_owned_def)
  moreover have "mutex s q = Some t \<longleftrightarrow> rl_partition (heap s l) = q" for q
    using lock_invD(3) [OF assms(1)] assms(2) by (auto simp: inv_mutex_def)
  ultimately show ?thesis
    using lock_txn_id_1 [OF assms(1)] assms(2,3)
    by (intro thread_move [OF assms(1), of _ t p]) (auto simp: held_start_def)
qed

lemma move_wake:
  assumes "lock_inv X s" "pc s t = Asleep l"
  shows "lock_inv X (set_pc t (Woken l) s)"
  using lock_txn_id_1 [OF assms(1)] no_mutex [OF assms(1), of t] assms(2)
    waits_allocated [OF assms(1), of t l] waits_other [OF assms(1), of t l] waits_waiting [OF assms(1), of t]
  by (intro thread_move [OF assms(1), of _ t "Woken l"]) (auto simp: held_start_def)

lemma walk_step_live:
  assumes "lock_inv X s" "walk_step s t l pos = W_At (Some c) d"
  shows "pc s c \<noteq> Closed"
proof -
  have "\<exists>k. rl_owner_trx (heap s k) = Some c"
    using assms(2) by (cases pos) (auto split: if_splits option.splits)
  then show ?thesis using held_startD [OF lock_invD(6) [OF assms(1)]] by blast
qed

lemma move_walk:
  assumes "lock_inv X s" "pc s t = Walking l w pos"
  shows "lock_inv X (set_pc t (Walking l w (walk_step s t l pos)) s)"
proof -
  have "w \<Longrightarrow> mutex s q = Some t \<longleftrightarrow> rl_partition (heap s l) = q" for q
    using lock_invD(3) [OF assms(1)] assms(2) by (auto simp: inv_mutex_def)
  moreover have "\<not> w \<Longrightarrow> mutex s q \<noteq> Some t" for q
    using no_mutex [OF assms(1), of t] assms(2) by auto
  moreover have "w \<Longrightarrow> rl_owner_trx (heap s l) \<noteq> None"
    using lock_invD(4) [OF assms(1)] assms(2) by (auto simp: inv_owned_def)
  ultimately show ?thesis
    using lock_txn_id_1 [OF assms(1)] assms(2) walk_step_live [OF assms(1), of t l pos]
      waits_allocated [OF assms(1), of t l] waits_other [OF assms(1), of t l] waits_waiting [OF assms(1), of t]
    by (intro thread_move [OF assms(1), of _ t "Walking l w (walk_step s t l pos)"])
      (auto simp: held_start_def)
qed

lemma no_partitions_head:
  assumes "lock_inv X s" "\<not> lock_partitions s"
  shows "held_start s t = None"
proof -
  obtain ls where ls: "held_path s (held_start s t) ls"
      "set ls = {l. rl_owner_trx (heap s l) = Some t}"
    using lock_invD(6) [OF assms(1)] unfolding inv_held_def by blast
  have "n_locks s = 0" using lock_invD(1) [OF assms(1)] assms(2) by (simp add: inv_cells_def)
  then have "set ls = {}"
    using ls(2) owned_allocated [OF lock_invD(1) [OF assms(1)]] by auto
  then show ?thesis using ls(1) by simp
qed

lemma move_release_begin:
  assumes "lock_inv X s" "pc s t = Ret rc"
  shows "lock_inv X (release_begin t c s)"
proof (cases "lock_partitions s")
  case True
  then show ?thesis
    using lock_txn_id_1 [OF assms(1)] no_mutex [OF assms(1), of t] assms(2)
      waits_waiting [OF assms(1), of t]
    by (intro thread_move [OF assms(1), of _ t "Releasing (held_locks_head (trx s t)) c"])
      (auto simp: held_start_def release_begin_def)
next
  case False
  then show ?thesis
    using lock_txn_id_1 [OF assms(1)] no_mutex [OF assms(1), of t] assms(2)
      waits_waiting [OF assms(1), of t] no_partitions_head [OF assms(1) False, of t]
    by (intro thread_move [OF assms(1), of _ t "if c then Closing else Ret HA_OK"])
      (auto simp: held_start_def release_begin_def split: if_splits)
qed

lemma move_release_end:
  assumes "lock_inv X s" "pc s t = Releasing None c"
  shows "lock_inv X (release_end t c s)"
  using lock_txn_id_1 [OF assms(1)] no_mutex [OF assms(1), of t] assms(2)
  by (intro thread_move [OF assms(1), of _ t "if c then Closing else Ret HA_OK"])
    (auto simp: held_start_def release_end_def split: if_splits)

lemma move_open:
  assumes "lock_inv X s" "pc s t = Closed"
  shows "lock_inv X (set_pc t (Ret HA_OK) (s\<lparr>trx := (trx s)(t := new_trx_locks)\<rparr>))"
  using no_mutex [OF assms(1), of t] assms(2)
  by (intro thread_move [OF assms(1), of _ t "Ret HA_OK"])
    (auto simp: held_start_def new_trx_locks_def)

lemma move_close:
  assumes "lock_inv X s" "pc s t = Closing" "\<forall>u. \<not> mid_walk (pc s u)"
  shows "lock_inv X (set_pc t Closed s)"
  using lock_txn_id_1 [OF assms(1)] no_mutex [OF assms(1), of t] assms(2,3)
    waits_waiting [OF assms(1), of t]
  by (intro thread_move [OF assms(1), of _ t Closed]) (auto simp: held_start_def)

section \<open>Every step keeps the invariant\<close>

lemma owner_id: "lock_inv X s \<Longrightarrow> rl_owner_trx (heap s l) = Some u \<Longrightarrow> rl_owner_txn_id (heap s l) = 1"
  by (simp add: lock_inv_def inv_cells_def)

lemma owner_id_0: "lock_inv X s \<Longrightarrow> rl_owner_txn_id (heap s l) = 0 \<longleftrightarrow> rl_owner_trx (heap s l) = None"
  by (auto simp: lock_inv_def inv_cells_def)

lemma acquire_enter_inv:
  assumes "lock_inv X s" "pc s t = Ret rc"
  shows "lock_inv X (acquire_enter X ok t key s)"
proof (cases "lock_partitions s")
  case True
  obtain r s1 where e: "tdb_lock_find_or_create ok (tdb_lock_part X key) key s = (r, s1)"
    by fastforce
  have i: "lock_inv X s1" "pc s1 t = Ret rc" "\<And>l. r = Some l \<Longrightarrow> l < n_locks s1"
    using find_or_create_inv [OF assms(1) e True] assms(2) by auto
  have "lock_inv X (acquire_found t l s1)" if "r = Some l" for l
  proof -
    have "rl_owner_txn_id (heap s1 l) = 0 \<longleftrightarrow> rl_owner_trx (heap s1 l) = None"
      using owner_id_0 [OF i(1)] .
    moreover have own1: "rl_owner_txn_id (heap s1 l) = 1"
      if "rl_owner_trx (heap s1 l) = Some u" for u
      using owner_id [OF i(1) that] .
    moreover have "lock_inv X (set_pc t (Ret HA_OK) (claim t l s1))"
      if "rl_owner_trx (heap s1 l) = None"
      using claim_inv [OF i(1,2) that i(3)] \<open>r = Some l\<close> i(2) by (intro move_ret) auto
    ultimately show ?thesis
      using move_ret [OF i(1,2)] move_publish [OF i(1,2) i(3) [OF that]]
        lock_txn_id_1 [OF i(1), of t] own1
      by (auto simp: acquire_found_def)
  qed
  then show ?thesis
    using True e move_ret [OF i(1,2)] by (auto simp: acquire_enter_def split: option.split)
qed (use move_ret [OF assms] in \<open>simp add: acquire_enter_def\<close>)

lemma set_pc_twice [simp]: "set_pc t p (set_pc t q s) = set_pc t p s"
  by (simp add: set_pc_def)

lemma wait_loop_head_inv:
  assumes "lock_inv X s" "pc s t = Woken l" "mutex s (rl_partition (heap s l)) = None"
  shows "lock_inv X (wait_loop_head t l s)"
proof (cases "rl_owner_trx (heap s l) = None")
  case True
  let ?s = "set_pc t (Ret HA_OK) (set_waiting t None (drop_waiter l s))"
  have "lock_inv X (claim t l ?s)"
    using move_leave [OF assms(1,2), of HA_OK] True waits_allocated [OF assms(1), of t l] assms(2)
    by (intro claim_inv) auto
  then have "lock_inv X (set_pc t (Ret HA_OK) (claim t l ?s))"
    by (rule move_ret) simp
  moreover have "set_pc t (Ret HA_OK) (claim t l ?s) =
      set_pc t (Ret HA_OK) (claim t l (set_waiting t None (drop_waiter l s)))"
    by (simp add: set_pc_def claim_def)
  ultimately show ?thesis
    using True owner_id_0 [OF assms(1)] by (simp add: wait_loop_head_def)
next
  case False
  then show ?thesis
    using move_rewalk [OF assms False] move_leave [OF assms(1,2)] owner_id_0 [OF assms(1)]
      waits_other [OF assms(1), of t l] assms(2)
    by (simp add: wait_loop_head_def)
qed

lemma after_walk_inv:
  assumes "lock_inv X s" "pc s t = Walking l False (W_Done r)"
    and "mutex s (rl_partition (heap s l)) = None"
  shows "lock_inv X (acquire_after_walk t l r s)"
proof -
  let ?s = "set_pc t (Ret HA_OK) (set_waiting t None s)"
  have "lock_inv X (set_pc t (Ret HA_OK) (claim t l ?s))" if "rl_owner_trx (heap s l) = None"
    using move_retreat [OF assms(1,2), of HA_OK] that waits_allocated [OF assms(1), of t l] assms(2)
    by (intro move_ret [OF claim_inv]) auto
  moreover have "set_pc t (Ret HA_OK) (claim t l ?s) =
      set_pc t (Ret HA_OK) (set_waiting t None (claim t l s))"
    by (cases "trx s t") (simp add: set_pc_def claim_def set_waiting_def)
  moreover have "wait_loop_head t l (set_pc t (Woken l) (add_waiter l s)) =
      wait_loop_head t l (add_waiter l s)"
    by (simp add: wait_loop_head_def set_pc_def claim_def set_waiting_def drop_waiter_def)
  moreover have "lock_inv X (wait_loop_head t l (set_pc t (Woken l) (add_waiter l s)))"
    using move_enlist [OF assms(1,2)] assms(3) by (intro wait_loop_head_inv) auto
  ultimately show ?thesis
    using move_retreat [OF assms(1,2)] owner_id_0 [OF assms(1)]
    by (simp add: acquire_after_walk_def)
qed

lemma wait_after_walk_inv:
  assumes "lock_inv X s" "pc s t = Walking l True (W_Done r)"
  shows "lock_inv X (wait_after_walk t l r s)"
proof -
  let ?s = "s\<lparr>mutex := (mutex s)(rl_partition (heap s l) := None)\<rparr>"
  have w: "lock_inv X (set_pc t (Woken l) ?s)" "lock_inv X (set_pc t (Asleep l) ?s)"
    using move_unwalk [OF assms] by auto
  have "set_pc t (Ret rc) (set_waiting t None (drop_waiter l (set_pc t (Woken l) ?s))) =
      set_pc t (Ret rc) (set_waiting t None (drop_waiter l ?s))" for rc
    by (simp add: set_pc_def set_waiting_def drop_waiter_def)
  then have "lock_inv X (set_pc t (Ret HA_ERR_LOCK_DEADLOCK) (set_waiting t None (drop_waiter l ?s)))"
    using move_leave [OF w(1), of t l HA_ERR_LOCK_DEADLOCK] by (simp only:) simp
  then show ?thesis
    using w(2) by (simp add: wait_after_walk_def Let_def)
qed

lemma killed_inv: "lock_inv X s \<Longrightarrow> lock_inv X (s\<lparr>killed := k\<rparr>)"
proof (rule lock_invI)
  assume "lock_inv X s"
  note i = lock_invD [OF this]
  let ?s = "s\<lparr>killed := k\<rparr>"
  show "inv_cells ?s" "inv_waiting ?s" "inv_mutex ?s" "inv_owned ?s" "inv_count ?s" "inv_live ?s"
    "inv_chain X ?s"
    using i by (simp_all add: inv_defs inv_chain_def)
  show "inv_held ?s"
    by (rule inv_held_cong [OF i(6)]) (simp_all add: held_start_def split: lock_pc.split)
qed

lemma lock_step_inv:
  assumes "lock_inv X s" "lock_step X s s'"
  shows "lock_inv X s'"
  using assms(2)
proof cases
  case (kill t)
  then show ?thesis
    using assms(1) broadcast_inv [OF assms(1)] by (simp add: kill_query_def split: option.split)
qed (use assms(1) in \<open>simp_all add: move_open acquire_enter_inv move_walk after_walk_inv
    wait_after_walk_inv move_wake wait_loop_head_inv move_release_begin release_one_inv
    move_release_end killed_inv move_close\<close>)

lemma lock_init_inv: "lock_init s \<Longrightarrow> lock_inv X s"
  by (auto simp: lock_init_def tdb_row_lock_init_def lock_inv_def inv_defs inv_chain_def
      new_lock_def new_trx_locks_def held_start_def intro!: exI [of _ "[]"])

interpretation lock_machine: transition_system lock_init "lock_step X" "lock_inv X"
  by unfold_locales (auto intro: lock_init_inv lock_step_inv)

end
