(* ===== verification/Row_Lock_Deadlock.thy ===== *)
theory Row_Lock_Deadlock
  imports Row_Lock
begin

text \<open>
  What the invariant of the row lock machine gives: the deadlock walk computes reachability
  in the wait-for graph, no cycle of at most \<open>DEADLOCK_MAX_DEPTH\<close> transactions ever sleeps,
  no sleeper misses its wake-up, a walker never dereferences a freed transaction, and a
  transaction's list holds exactly the rows it has locked.
\<close>

section \<open>The wait-for graph\<close>

text \<open>The transaction that holds what \<open>t\<close> waits for.\<close>

definition blocker :: "lock_table \<Rightarrow> nat \<Rightarrow> nat option" where
  "blocker s t = (case waiting_on (trx s t) of None \<Rightarrow> None | Some l \<Rightarrow> rl_owner_trx (heap s l))"

primrec chase :: "(nat \<Rightarrow> nat option) \<Rightarrow> nat \<Rightarrow> nat option \<Rightarrow> nat option" where
  "chase f 0 c = c"
| "chase f (Suc n) c = Option.bind (chase f n c) f"

lemma chase_None [simp]: "chase f n None = None"
  by (induction n) auto

lemma chase_Suc2: "chase f (Suc n) c = chase f n (Option.bind c f)"
  by (induction n) auto

lemma chase_add: "chase f (m + n) c = chase f m (chase f n c)"
  by (induction m) auto

text \<open>A cycle of \<open>n\<close> transactions through \<open>t\<close>.\<close>

definition wait_cycle :: "lock_table \<Rightarrow> nat \<Rightarrow> nat \<Rightarrow> bool" where
  "wait_cycle s n t \<longleftrightarrow> 0 < n \<and> chase (blocker s) n (Some t) = Some t"

definition on_path :: "lock_table \<Rightarrow> nat \<Rightarrow> nat \<Rightarrow> bool" where
  "on_path s t u \<longleftrightarrow> (\<exists>k. chase (blocker s) k (Some t) = Some u)"

lemma walk_loop_chase:
  "walk_loop s r n c \<longleftrightarrow> (\<exists>k<n. chase (blocker s) k c = Some r)"
proof (induction n arbitrary: c)
  case (Suc n)
  show ?case
  proof (cases c)
    case (Some a)
    show ?thesis
    proof (cases "a = r")
      case False
      have "(\<exists>k<Suc n. chase (blocker s) k c = Some r) \<longleftrightarrow>
          (\<exists>k<n. chase (blocker s) (Suc k) c = Some r)"
        using Some False by (auto simp: less_Suc_eq_0_disj simp del: chase.simps(2))
      also have "\<dots> \<longleftrightarrow> (\<exists>k<n. chase (blocker s) k (blocker s a) = Some r)"
        by (simp add: chase_Suc2 Some del: chase.simps(2))
      also have "\<dots> \<longleftrightarrow> walk_loop s r n (blocker s a)"
        by (simp add: Suc)
      also have "\<dots> \<longleftrightarrow> walk_loop s r (Suc n) c"
        using Some False Suc [of None] by (simp add: blocker_def [of s a] split: option.split)
      finally show ?thesis by simp
    qed (auto simp: Some intro: exI [of _ 0])
  qed auto
qed simp

lemma cycle_shift:
  assumes "wait_cycle s n t" "chase (blocker s) k (Some t) = Some u"
  shows "wait_cycle s n u"
proof -
  have "chase (blocker s) n (Some u) = chase (blocker s) (n + k) (Some t)"
    by (simp add: chase_add assms(2))
  also have "\<dots> = chase (blocker s) k (chase (blocker s) n (Some t))"
    by (subst add.commute) (rule chase_add)
  also have "\<dots> = Some u"
    using assms by (simp add: wait_cycle_def)
  finally show ?thesis using assms(1) by (simp add: wait_cycle_def)
qed

lemma cycle_iterate: "wait_cycle s n t \<Longrightarrow> chase (blocker s) (m * n) (Some t) = Some t"
  by (induction m) (auto simp: wait_cycle_def chase_add)

lemma chase_defined:
  assumes "chase f (k + m) c = Some x"
  shows "\<exists>y. chase f k c = Some y"
  using assms by (cases "chase f k c") (auto simp: add.commute [of k m] chase_add)

lemma cycle_total:
  assumes "wait_cycle s n t"
  shows "\<exists>u. chase (blocker s) k (Some t) = Some u"
proof -
  have "k + (k * n - k) = k * n" using assms by (simp add: wait_cycle_def)
  then show ?thesis using cycle_iterate [OF assms, of k] chase_defined [of "blocker s" k "k * n - k"] by simp
qed

section \<open>Who is going to find the cycle\<close>

text \<open>A walker whose position is the right one for its distance from itself, and that has
  not walked past itself.\<close>

fun detects :: "lock_table \<Rightarrow> nat \<Rightarrow> walk_pos \<Rightarrow> bool" where
  "detects s t W_Start = True"
| "detects s t (W_At cur d) \<longleftrightarrow>
     cur = chase (blocker s) (Suc d) (Some t) \<and>
     (\<forall>k\<le>d. 0 < k \<longrightarrow> chase (blocker s) k (Some t) \<noteq> Some t)"
| "detects s t (W_Owner cw d) \<longleftrightarrow>
     (\<exists>c. chase (blocker s) (Suc d) (Some t) = Some c \<and> waiting_on (trx s c) = Some cw) \<and>
     (\<forall>k\<le>Suc d. 0 < k \<longrightarrow> chase (blocker s) k (Some t) \<noteq> Some t)"
| "detects s t (W_Done r) = r"

definition will_detect :: "lock_table \<Rightarrow> nat \<Rightarrow> bool" where
  "will_detect s t \<longleftrightarrow> (\<exists>l w pos. pc s t = Walking l w pos \<and> detects s t pos)"

definition detect_inv :: "lock_table \<Rightarrow> bool" where
  "detect_inv s \<longleftrightarrow> (\<forall>n t. n \<le> DEADLOCK_MAX_DEPTH \<longrightarrow> wait_cycle s n t \<longrightarrow>
     (\<exists>u. on_path s t u \<and> will_detect s u))"

text \<open>The walk makes progress along the cycle.\<close>

lemma detects_walk_step:
  assumes cyc: "wait_cycle s n t" "n \<le> DEADLOCK_MAX_DEPTH" and w: "waiting_on (trx s t) = Some l"
    and d: "detects s t pos"
  shows "detects s t (walk_step s t l pos)"
proof (cases pos)
  case W_Start
  then show ?thesis using w by (simp add: blocker_def)
next
  case (W_At cur depth)
  have "\<not> n \<le> depth"
    using d cyc(1) by (auto simp: W_At wait_cycle_def)
  then have "depth < n" by simp
  obtain c where c: "chase (blocker s) (Suc depth) (Some t) = Some c"
    using cycle_total [OF cyc(1)] by blast
  obtain c' where c': "chase (blocker s) (Suc (Suc depth)) (Some t) = Some c'"
    using cycle_total [OF cyc(1)] by blast
  then have "blocker s c = Some c'"
    unfolding chase.simps(2) [of _ "Suc depth"] c by simp
  then obtain cw where cw: "waiting_on (trx s c) = Some cw"
    by (auto simp: blocker_def split: option.splits)
  have "depth < DEADLOCK_MAX_DEPTH" using \<open>depth < n\<close> cyc(2) by simp
  then have step: "walk_step s t l pos = (if c = t then W_Done True else W_Owner cw depth)"
    using d c cw by (simp add: W_At)
  show ?thesis
  proof (cases "c = t")
    case False
    then have "chase (blocker s) k (Some t) \<noteq> Some t" if "k \<le> Suc depth" "0 < k" for k
      using d c that by (cases "k = Suc depth") (auto simp: W_At)
    then show ?thesis using step False c cw by auto
  qed (simp add: step)
next
  case (W_Owner cw depth)
  then obtain c where c: "chase (blocker s) (Suc depth) (Some t) = Some c"
      "waiting_on (trx s c) = Some cw"
    using d by auto
  then have "chase (blocker s) (Suc (Suc depth)) (Some t) = rl_owner_trx (heap s cw)"
    by (simp add: blocker_def)
  then show ?thesis using d by (auto simp: W_Owner)
next
  case (W_Done r)
  then show ?thesis using d by simp
qed

lemma chase_cong:
  "(\<And>k u. chase f k c = Some u \<Longrightarrow> g u = f u) \<Longrightarrow> chase g k c = chase f k c"
proof (induction k)
  case (Suc k)
  then show ?case by (cases "chase f k c") auto
qed simp

lemma on_path_refl: "on_path s t t"
  unfolding on_path_def by (rule exI [of _ 0]) simp

lemma on_path_trans:
  assumes "on_path s t u" "chase (blocker s) k (Some u) = Some v"
  shows "on_path s t v"
proof -
  obtain j where "chase (blocker s) j (Some t) = Some u" using assms(1) by (auto simp: on_path_def)
  then have "chase (blocker s) (k + j) (Some t) = Some v" using assms(2) by (simp add: chase_add)
  then show ?thesis unfolding on_path_def by blast
qed

lemma cycle_blocked:
  assumes "wait_cycle s n t" "on_path s t u"
  shows "blocker s u \<noteq> None"
proof -
  obtain k where "chase (blocker s) k (Some t) = Some u" using assms(2) by (auto simp: on_path_def)
  then show ?thesis using cycle_total [OF assms(1), of "Suc k"] by auto
qed

lemma path_agree:
  assumes "\<And>u. on_path s' t u \<Longrightarrow> blocker s u = blocker s' u" "on_path s' t u"
  shows "chase (blocker s) k (Some u) = chase (blocker s') k (Some u)"
  by (rule chase_cong) (use assms on_path_trans in blast)

lemma detects_transfer:
  assumes "\<And>k. chase (blocker s) k (Some u) = chase (blocker s') k (Some u)"
    and "\<And>k c. chase (blocker s') k (Some u) = Some c \<Longrightarrow>
      waiting_on (trx s' c) = waiting_on (trx s c)"
    and "detects s u pos"
  shows "detects s' u pos"
proof (cases pos)
  case (W_Owner cw d)
  then show ?thesis
    using assms(2) [of "Suc d"] assms(3) by (auto simp: assms(1) simp del: chase.simps(2))
qed (use assms(3) in \<open>auto simp: assms(1) simp del: chase.simps(2)\<close>)

text \<open>A step of the thread \<open>t0\<close> that either leaves the graph alone, or ends its wait, or
  starts one. In the first case its walk, if it walks, must go on correctly.\<close>

lemma detect_inv_step:
  assumes inv: "detect_inv s"
    and waits: "\<And>u. u \<noteq> t0 \<Longrightarrow> waiting_on (trx s' u) = waiting_on (trx s u)"
    and edges: "\<And>u. u \<noteq> t0 \<Longrightarrow> blocker s' u = blocker s u \<or> blocker s' u = None \<or>
      (blocker s' u = Some t0 \<and> blocker s' t0 = None)"
    and walks: "\<And>u l w pos. u \<noteq> t0 \<Longrightarrow> pc s u = Walking l w pos \<Longrightarrow> pc s' u = Walking l w pos"
    and actor: "blocker s' t0 = None \<or> will_detect s' t0 \<or>
      (blocker s' t0 = blocker s t0 \<and> waiting_on (trx s' t0) = waiting_on (trx s t0) \<and>
       (\<forall>n. n \<le> DEADLOCK_MAX_DEPTH \<longrightarrow> wait_cycle s n t0 \<longrightarrow>
         will_detect s t0 \<longrightarrow> will_detect s' t0))"
  shows "detect_inv s'"
  unfolding detect_inv_def
proof (intro allI impI)
  fix n t assume n: "n \<le> DEADLOCK_MAX_DEPTH" and cyc: "wait_cycle s' n t"
  note blocked = cycle_blocked [OF cyc]
  have same: "blocker s' u = blocker s u" if "on_path s' t u" "u \<noteq> t0" for u
    using edges [OF that(2)] blocked on_path_trans [OF that(1), of 1 t0] that(1) by fastforce
  show "\<exists>u. on_path s' t u \<and> will_detect s' u"
  proof (cases "on_path s' t t0 \<and> will_detect s' t0")
    case False
    then have all: "blocker s u = blocker s' u" "waiting_on (trx s' u) = waiting_on (trx s u)"
      if "on_path s' t u" for u
      using that same [OF that] waits [of u] actor blocked [of t0] by (cases "u = t0"; auto)+
    note path = path_agree [of s' t s, OF all(1)]
    have "wait_cycle s n t" using cyc path [OF _ on_path_refl] by (simp add: wait_cycle_def)
    then obtain u where u: "on_path s t u" "will_detect s u"
      using inv n unfolding detect_inv_def by blast
    have u': "on_path s' t u" using u(1) path [OF _ on_path_refl] by (simp add: on_path_def)
    have "will_detect s' u"
    proof (cases "u = t0")
      case True
      then have "wait_cycle s n t0"
        using cycle_shift [OF \<open>wait_cycle s n t\<close>] u(1) by (auto simp: on_path_def)
      then show ?thesis using actor n u(2) True u' blocked [of t0] by auto
    next
      case False
      obtain l w pos where p: "pc s u = Walking l w pos" "detects s u pos"
        using u(2) by (auto simp: will_detect_def)
      have "detects s' u pos"
        by (rule detects_transfer [OF path [OF _ u'] all(2) [OF on_path_trans [OF u']] p(2)])
      then show ?thesis using walks [OF False p(1)] by (auto simp: will_detect_def)
    qed
    then show ?thesis using u' by blast
  qed blast
qed

lemma blocker_set_pc [simp]: "blocker (set_pc t p s) = blocker s"
  by (simp add: blocker_def fun_eq_iff split: option.split)

lemma detects_set_pc [simp]: "detects (set_pc t p s) u pos = detects s u pos"
  by (cases pos) auto

lemma detect_inv_walk:
  assumes "lock_inv X s" "detect_inv s" "pc s t = Walking l w pos"
  shows "detect_inv (set_pc t (Walking l w (walk_step s t l pos)) s)"
proof (rule detect_inv_step [OF assms(2), of t])
  let ?s = "set_pc t (Walking l w (walk_step s t l pos)) s"
  have "waiting_on (trx s t) = Some l"
    using waits_waiting [OF assms(1), of t] assms(3) by simp
  then show "blocker ?s t = None \<or> will_detect ?s t \<or>
      (blocker ?s t = blocker s t \<and> waiting_on (trx ?s t) = waiting_on (trx s t) \<and>
       (\<forall>n. n \<le> DEADLOCK_MAX_DEPTH \<longrightarrow> wait_cycle s n t \<longrightarrow>
         will_detect s t \<longrightarrow> will_detect ?s t))"
    using assms(3) detects_walk_step [of s _ t l pos] by (auto simp: will_detect_def)
qed auto

lemma detect_inv_cong:
  assumes "blocker s' = blocker s" "pc s' = pc s" "trx s' = trx s" "detect_inv s"
  shows "detect_inv s'"
proof -
  have "detects s' u pos = detects s u pos" for u pos
    using assms by (cases pos) auto
  then show ?thesis
    using assms by (simp add: detect_inv_def wait_cycle_def on_path_def will_detect_def)
qed

text \<open>The lookup does not touch the graph: a new entry has no owner and nobody waits on it.\<close>

lemma find_or_create_graph:
  assumes "lock_inv X s" "lock_partitions s" "detect_inv s"
    and "tdb_lock_find_or_create ok (tdb_lock_part X k) k s = (r, s1)"
  shows "detect_inv s1"
proof -
  have f: "pc s1 = pc s" "trx s1 = trx s" "\<And>l. rl_owner_trx (heap s1 l) = rl_owner_trx (heap s l)"
    using find_or_create_inv [OF assms(1,4,2)] by auto
  then have "blocker s1 = blocker s"
    by (simp add: blocker_def fun_eq_iff split: option.split)
  then show ?thesis using f(1,2) assms(3) by (rule detect_inv_cong)
qed

lemma detect_inv_acquire_found:
  assumes "lock_inv X s" "detect_inv s" "pc s t = Ret rc"
  shows "detect_inv (acquire_found t l s)"
proof -
  have w: "waiting_on (trx s t) = None"
    using waits_waiting [OF assms(1), of t] assms(3) by simp
  then show ?thesis
    by (intro detect_inv_step [OF assms(2), of t])
      (auto simp: acquire_found_def blocker_def will_detect_def split: option.split)
qed

lemma detect_inv_enter:
  assumes "lock_inv X s" "detect_inv s" "pc s t = Ret rc"
  shows "detect_inv (acquire_enter X ok t key s)"
proof -
  have w: "waiting_on (trx s t) = None"
    using waits_waiting [OF assms(1), of t] assms(3) by simp
  have ret: "detect_inv (set_pc t (Ret rc') s')" if "detect_inv s'" "waiting_on (trx s' t) = None"
    for rc' s'
    by (intro detect_inv_step [OF that(1), of t]) (auto simp: blocker_def that(2))
  obtain r s1 where e: "tdb_lock_find_or_create ok (tdb_lock_part X key) key s = (r, s1)"
    by fastforce
  show ?thesis
  proof (cases "lock_partitions s")
    case True
    note i = find_or_create_inv [OF assms(1) e True] find_or_create_graph [OF assms(1) True assms(2) e]
    then have "lock_inv X s1" "pc s1 t = Ret rc" "waiting_on (trx s1 t) = None"
      using assms(3) w by auto
    then show ?thesis
      using True e ret [OF i(2)] detect_inv_acquire_found [OF _ i(2)]
      by (auto simp: acquire_enter_def split: option.split)
  qed (simp add: acquire_enter_def ret assms(2) w)
qed

lemma detect_inv_wait_loop_head:
  assumes "detect_inv s" "\<And>pos. will_detect s t \<longrightarrow> pc s t \<noteq> Walking l True pos"
  shows "detect_inv (wait_loop_head t l s)"
  by (intro detect_inv_step [OF assms(1), of t])
    (auto simp: wait_loop_head_def blocker_def will_detect_def split: option.split)

lemma detect_inv_after_walk:
  assumes "detect_inv s" "pc s t = Walking l False (W_Done r)"
  shows "detect_inv (acquire_after_walk t l r s)"
  using assms(2)
  by (intro detect_inv_step [OF assms(1), of t])
    (auto simp: acquire_after_walk_def wait_loop_head_def blocker_def will_detect_def
      split: option.split)

lemma detect_inv_broadcast: "detect_inv s \<Longrightarrow> detect_inv (broadcast l s)"
proof -
  have b: "blocker (broadcast l s) = blocker s"
    by (simp add: blocker_def fun_eq_iff split: option.split)
  then have "detects (broadcast l s) u pos = detects s u pos" for u pos
    by (cases pos) auto
  then have "will_detect (broadcast l s) u = will_detect s u" for u
    by (auto simp: will_detect_def split: if_splits)
  then show "detect_inv s \<Longrightarrow> detect_inv (broadcast l s)"
    by (simp add: detect_inv_def wait_cycle_def on_path_def b)
qed

lemma lock_step_detect:
  assumes "lock_inv X s" "detect_inv s" "lock_step X s s'"
  shows "detect_inv s'"
  using assms(3)
proof cases
  case (open_trx t)
  then show ?thesis
    by (intro detect_inv_step [OF assms(2), of t])
      (auto simp: new_trx_locks_def blocker_def split: option.split)
next
  case (enter t rc key ok)
  then show ?thesis using detect_inv_enter [OF assms(1,2)] by simp
next
  case (walk t l w pos)
  then show ?thesis using detect_inv_walk [OF assms(1,2)] by simp
next
  case (after_walk t l r)
  then show ?thesis using detect_inv_after_walk [OF assms(2)] by simp
next
  case (wait_walked t l r)
  then show ?thesis
    by (intro detect_inv_step [OF assms(2), of t])
      (auto simp: wait_after_walk_def Let_def blocker_def will_detect_def split: option.split)
next
  case (spurious t l)
  then show ?thesis
    by (intro detect_inv_step [OF assms(2), of t]) (auto simp: will_detect_def)
next
  case (resume t l)
  then show ?thesis using detect_inv_wait_loop_head [OF assms(2)] by (simp add: will_detect_def)
next
  case (release_start t rc closing)
  then show ?thesis
    by (intro detect_inv_step [OF assms(2), of t]) (auto simp: release_begin_def will_detect_def)
next
  case (release t l closing)
  have w: "waiting_on (trx s t) = None"
    using waits_waiting [OF assms(1), of t] release by simp
  show ?thesis
    unfolding release release_one_eq [OF lock_invD(5) [OF assms(1)] release(2)]
    using w by (intro detect_inv_step [OF detect_inv_broadcast [OF assms(2)], of t])
      (auto simp: unlink_def blocker_def split: option.split)
next
  case (released t closing)
  then show ?thesis
    by (intro detect_inv_step [OF assms(2), of t])
      (auto simp: release_end_def blocker_def split: option.split)
next
  case (thd_kill t b)
  then show ?thesis using assms(2)
    by (intro detect_inv_cong [OF _ _ _ assms(2)]) (simp_all add: blocker_def fun_eq_iff split: option.split)
next
  case (kill t)
  then show ?thesis
    using assms(2) detect_inv_broadcast by (simp add: kill_query_def split: option.split)
next
  case (close t)
  then show ?thesis
    by (intro detect_inv_step [OF assms(2), of t]) (auto simp: will_detect_def)
qed

lemma lock_init_detect: "lock_init s \<Longrightarrow> detect_inv s"
  by (auto simp: lock_init_def tdb_row_lock_init_def detect_inv_def wait_cycle_def blocker_def
      new_trx_locks_def chase_Suc2 gr0_conv_Suc simp del: chase.simps(2))

interpretation deadlock_machine:
  transition_system lock_init "lock_step X" "\<lambda>s. lock_inv X s \<and> detect_inv s"
  by unfold_locales (auto intro: lock_init_inv lock_init_detect lock_step_inv lock_step_detect)

lemmas reachable_lock_inv = deadlock_machine.reachable_inv [THEN conjunct1]
lemmas reachable_detect = deadlock_machine.reachable_inv [THEN conjunct2]

text \<open>Left to itself, such a walker comes back with the deadlock.\<close>

lemma detects_terminates:
  assumes "wait_cycle s n t" "n \<le> DEADLOCK_MAX_DEPTH" "waiting_on (trx s t) = Some l"
    and "detects s t (W_At cur d)"
  shows "\<exists>m. (walk_step s t l ^^ m) (W_At cur d) = W_Done True"
  using assms(4)
proof (induction "n - d" arbitrary: cur d rule: less_induct)
  case less
  note step = detects_walk_step [OF assms(1-3)]
  have one: "detects s t (walk_step s t l (W_At cur d))" using step less.prems by blast
  have "\<not> n \<le> d"
    using less.prems assms(1) by (auto simp: wait_cycle_def)
  consider "walk_step s t l (W_At cur d) = W_Done True"
    | cw where "walk_step s t l (W_At cur d) = W_Owner cw d"
    using one by (auto split: if_splits option.splits)
  then show ?case
  proof cases
    case 1
    then show ?thesis by (intro exI [of _ 1]) simp
  next
    case 2
    let ?cur = "rl_owner_trx (heap s cw)"
    have two: "(walk_step s t l ^^ 2) (W_At cur d) = W_At ?cur (Suc d)"
      using 2 by (simp add: numeral_2_eq_2)
    have "n - Suc d < n - d" using \<open>\<not> n \<le> d\<close> by simp
    moreover have "detects s t (W_At ?cur (Suc d))" using step [OF one] 2 by simp
    ultimately obtain m where "(walk_step s t l ^^ m) (W_At ?cur (Suc d)) = W_Done True"
      using less.hyps by blast
    then show ?thesis using two by (intro exI [of _ "m + 2"]) (simp only: funpow_add o_apply)
  qed
qed

lemma will_detect_finishes:
  assumes "lock_inv X s" "wait_cycle s n t" "n \<le> DEADLOCK_MAX_DEPTH" "pc s t = Walking l w pos"
    and "detects s t pos"
  shows "\<exists>m. (walk_step s t l ^^ m) pos = W_Done True"
proof -
  have w: "waiting_on (trx s t) = Some l" using waits_waiting [OF assms(1), of t] assms(4) by simp
  note step = detects_walk_step [OF assms(2,3) w assms(5)]
  note at = detects_terminates [OF assms(2,3) w]
  show ?thesis
  proof (cases pos)
    case W_Start
    then obtain m where "(walk_step s t l ^^ m) (walk_step s t l pos) = W_Done True"
      using at [of _ 0] step by (metis walk_step.simps(1))
    then show ?thesis by (intro exI [of _ "Suc m"]) (simp add: funpow_swap1)
  next
    case (W_Owner cw d)
    then obtain m where "(walk_step s t l ^^ m) (walk_step s t l pos) = W_Done True"
      using at [of _ "d + 1"] step by (metis walk_step.simps(3))
    then show ?thesis by (intro exI [of _ "Suc m"]) (simp add: funpow_swap1)
  next
    case (W_Done r)
    then show ?thesis using assms(5) by (intro exI [of _ 0]) simp
  qed (use at assms(5) in blast)
qed

lemma asleep_owner:
  assumes "lock_inv X s" "pc s t = Asleep l"
  shows "\<exists>u. u \<noteq> t \<and> rl_owner_trx (heap s l) = Some u \<and> pc s u \<noteq> Closed \<and> pc s u \<noteq> Closing"
proof -
  obtain u where u: "rl_owner_trx (heap s l) = Some u"
    using lock_invD(4) [OF assms(1)] assms(2) unfolding inv_owned_def by blast
  then show ?thesis
    using waits_other [OF assms(1), of t l] held_startD [OF lock_invD(6) [OF assms(1)]] assms(2)
    by auto
qed

text \<open>Among finitely many transactions a chain of sleepers closes into a cycle.\<close>

lemma all_asleep_cycle:
  assumes "lock_inv X s" "finite {u. pc s u \<noteq> Closed}"
    and asleep: "\<And>u. on_path s t u \<Longrightarrow> \<exists>l. pc s u = Asleep l"
  shows "\<exists>u n. on_path s t u \<and> wait_cycle s n u \<and> n \<le> card {u. pc s u \<noteq> Closed}"
proof -
  let ?T = "{u. pc s u \<noteq> Closed}"
  have next_path: "\<exists>v. blocker s u = Some v" if p: "on_path s t u" for u
  proof -
    obtain l where l: "pc s u = Asleep l" using asleep [OF p] by blast
    then show ?thesis
      using asleep_owner [OF assms(1) l] waits_waiting [OF assms(1), of u]
      by (auto simp: blocker_def)
  qed
  have def: "\<exists>u. chase (blocker s) k (Some t) = Some u" for k
  proof (induction k)
    case (Suc k)
    then show ?case using next_path by (fastforce simp: on_path_def)
  qed simp
  define f where "f k = the (chase (blocker s) k (Some t))" for k
  have f: "chase (blocker s) k (Some t) = Some (f k)" for k
    using def [of k] by (auto simp: f_def)
  have "pc s (f k) \<noteq> Closed" for k
    using asleep [of "f k"] f [of k] unfolding on_path_def by force
  then have "f ` {..card ?T} \<subseteq> ?T" by blast
  then have "card (f ` {..card ?T}) < card {..card ?T}"
    using card_mono [OF assms(2)] by (simp add: less_Suc_eq_le)
  then have "\<not> inj_on f {..card ?T}" by (rule pigeonhole)
  then obtain i j where ij: "i < j" "j \<le> card ?T" "f i = f j"
    unfolding inj_on_def by (metis atMost_iff linorder_neqE_nat)
  have "chase (blocker s) (j - i) (Some (f i)) = Some (f i)"
    using f [of i] f [of j] ij chase_add [of "blocker s" "j - i" i "Some t"] by simp
  then have "wait_cycle s (j - i) (f i)" using ij by (simp add: wait_cycle_def)
  moreover have "on_path s t (f i)" using f [of i] by (auto simp: on_path_def)
  moreover have "j - i \<le> card ?T" using ij by simp
  ultimately show ?thesis by blast
qed

lemma claim_after_success:
  assumes "lock_inv X s" "lock_step X s s'" "pc_waits (pc s t) = Some l" "pc s' t = Ret rc"
  shows "rl_owner_trx (heap s' l) = Some t \<longleftrightarrow> rc = HA_OK"
  using assms(2)
proof cases
  case (enter t' rc' key ok)
  have "t' \<noteq> t" using enter(2) assms(3) by auto
  then have "pc s' t = pc s t"
    using enter(1) by (auto simp: acquire_enter_def acquire_found_def tdb_lock_find_or_create_def
        Let_def split: option.splits if_splits prod.splits)
  then show ?thesis using assms(3,4) by (cases "pc s t") auto
qed (use assms(3,4) waits_other [OF assms(1,3)] owner_id_0 [OF assms(1), of l] in
    \<open>auto simp: acquire_after_walk_def wait_loop_head_def wait_after_walk_def release_begin_def
      release_one_def release_end_def kill_query_def Let_def split: if_splits option.splits\<close>)

section \<open>A run with a deadlock\<close>

text \<open>Two connections lock the rows \<open>[1]\<close> and \<open>[2]\<close>; the first one asks for the second row
  and goes to sleep (\<open>demo_asleep\<close>); then the second one asks for the first row
  (\<open>demo_cycle\<close>).\<close>

definition demo_hash :: "bytes \<Rightarrow> u64" where "demo_hash key = 0"

definition open_conn :: "nat \<Rightarrow> lock_table \<Rightarrow> lock_table" where
  "open_conn t s = set_pc t (Ret HA_OK) (s\<lparr>trx := (trx s)(t := new_trx_locks)\<rparr>)"

definition walk_one :: "nat \<Rightarrow> lock_table \<Rightarrow> lock_table" where
  "walk_one t s = (case pc s t of
     Walking l w pos \<Rightarrow> set_pc t (Walking l w (walk_step s t l pos)) s | _ \<Rightarrow> s)"

definition demo_two :: lock_table where
  "demo_two = open_conn 1 (open_conn 0 (tdb_row_lock_init True))"

definition demo_held :: lock_table where
  "demo_held = acquire_enter demo_hash True 1 [2] (acquire_enter demo_hash True 0 [1] demo_two)"

definition demo_wait :: lock_table where
  "demo_wait = walk_one 0 (walk_one 0 (acquire_enter demo_hash True 0 [2] demo_held))"

definition demo_asleep :: lock_table where
  "demo_asleep =
     wait_after_walk 0 1 False (walk_one 0 (walk_one 0 (acquire_after_walk 0 1 False demo_wait)))"

definition demo_cycle :: lock_table where
  "demo_cycle = acquire_enter demo_hash True 1 [1] demo_asleep"

lemma reach_open:
  "reachable lock_init (lock_step X) s \<Longrightarrow> pc s t = Closed \<Longrightarrow>
   reachable lock_init (lock_step X) (open_conn t s)"
  unfolding open_conn_def by (blast intro: reachable_step lock_step.open_trx)

lemma reach_walk:
  assumes "reachable lock_init (lock_step X) s" "pc s t = Walking l w pos"
  shows "reachable lock_init (lock_step X) (walk_one t s)"
  using reachable_step [OF assms(1) lock_step.walk [OF assms(2)]] assms(2)
  by (simp add: walk_one_def)

lemma reach_enter:
  "reachable lock_init (lock_step X) s \<Longrightarrow> pc s t = Ret rc \<Longrightarrow>
   mutex s (tdb_lock_part X key) = None \<Longrightarrow>
   reachable lock_init (lock_step X) (acquire_enter X ok t key s)"
  by (blast intro: reachable_step lock_step.enter)

lemma demo_two_eq:
  "demo_two = \<lparr>lock_partitions = True, heap = (\<lambda>_. new_lock 0 []), n_locks = 0, chain = (\<lambda>_. []),
     mutex = (\<lambda>_. None), trx = (\<lambda>_. new_trx_locks),
     pc = (\<lambda>_. Closed)(0 := Ret HA_OK, 1 := Ret HA_OK), killed = (\<lambda>_. False)\<rparr>"
  by (simp add: demo_two_def open_conn_def set_pc_def tdb_row_lock_init_def fun_eq_iff)

lemma demo_two_reachable: "reachable lock_init (lock_step demo_hash) demo_two"
  unfolding demo_two_def
  by (intro reach_open reachable_init)
    (auto simp: lock_init_def open_conn_def tdb_row_lock_init_def)

definition demo_lock :: "bytes \<Rightarrow> nat option \<Rightarrow> nat \<Rightarrow> tdb_row_lock" where
  "demo_lock k owner w = \<lparr>rl_pk = k, rl_owner_txn_id = 1, rl_owner_trx = owner, rl_waiters = w,
     rl_held_next = None, rl_partition = 0\<rparr>"

definition demo_trx :: "nat option \<Rightarrow> nat option \<Rightarrow> trx_locks" where
  "demo_trx h w = \<lparr>held_locks_head = h, lock_txn_id = 1, waiting_on = w\<rparr>"

lemma demo_held_eq:
  "demo_held = \<lparr>lock_partitions = True,
     heap = (\<lambda>_. new_lock 0 [])(0 := demo_lock [1] (Some 0) 0, 1 := demo_lock [2] (Some 1) 0),
     n_locks = 2, chain = (\<lambda>_. [])(0 := [1, 0]), mutex = (\<lambda>_. None),
     trx = (\<lambda>_. new_trx_locks)(0 := demo_trx (Some 0) None, 1 := demo_trx (Some 1) None),
     pc = (\<lambda>_. Closed)(0 := Ret HA_OK, 1 := Ret HA_OK), killed = (\<lambda>_. False)\<rparr>"
  by (simp add: demo_held_def demo_two_eq acquire_enter_def acquire_found_def
      tdb_lock_find_or_create_def tdb_lock_part_def demo_hash_def claim_def set_pc_def new_lock_def
      new_trx_locks_def demo_lock_def demo_trx_def Let_def fun_eq_iff)

lemmas demo_ops = acquire_enter_def acquire_found_def tdb_lock_find_or_create_def
  tdb_lock_part_def demo_hash_def new_lock_def demo_lock_def demo_trx_def walk_one_def
  DEADLOCK_MAX_DEPTH_def

lemma demo_held_reachable: "reachable lock_init (lock_step demo_hash) demo_held"
  unfolding demo_held_def
  by (rule reach_enter [OF reach_enter [OF demo_two_reachable]])
    (simp_all add: demo_two_eq demo_ops new_trx_locks_def)

lemma demo_wait_eq:
  "demo_wait = demo_held\<lparr>trx := (trx demo_held)(0 := demo_trx (Some 0) (Some 1)),
     pc := (pc demo_held)(0 := Walking 1 False (W_Done False))\<rparr>"
  by (simp add: demo_wait_def demo_held_eq demo_ops set_pc_def set_waiting_def)

lemma demo_wait_reachable: "reachable lock_init (lock_step demo_hash) demo_wait"
proof -
  have "reachable lock_init (lock_step demo_hash) (acquire_enter demo_hash True 0 [2] demo_held)"
    by (rule reach_enter [OF demo_held_reachable]) (simp_all add: demo_held_eq)
  then have "reachable lock_init (lock_step demo_hash)
      (walk_one 0 (acquire_enter demo_hash True 0 [2] demo_held))"
    by (rule reach_walk [where l = 1 and w = False and pos = W_Start])
      (simp add: demo_held_eq demo_ops)
  then show ?thesis
    unfolding demo_wait_def
    by (rule reach_walk [where l = 1 and w = False and pos = "W_At (Some 1) 0"])
      (simp add: demo_held_eq demo_ops)
qed

lemma demo_asleep_eq:
  "demo_asleep = demo_held\<lparr>
     heap := (heap demo_held)(1 := demo_lock [2] (Some 1) 1),
     trx := (trx demo_held)(0 := demo_trx (Some 0) (Some 1)),
     pc := (pc demo_held)(0 := Asleep 1)\<rparr>"
  by (simp add: demo_asleep_def demo_wait_eq demo_held_eq demo_ops acquire_after_walk_def
      wait_loop_head_def wait_after_walk_def set_pc_def add_waiter_def Let_def fun_eq_iff)

lemma demo_asleep_reachable: "reachable lock_init (lock_step demo_hash) demo_asleep"
proof -
  let ?a = "acquire_after_walk 0 1 False demo_wait"
  have a: "?a = demo_wait\<lparr>heap := (heap demo_wait)(1 := demo_lock [2] (Some 1) 1),
      mutex := (mutex demo_wait)(0 := Some 0), pc := (pc demo_wait)(0 := Walking 1 True W_Start)\<rparr>"
    by (simp add: demo_wait_eq demo_held_eq demo_ops acquire_after_walk_def wait_loop_head_def
        set_pc_def add_waiter_def)
  have "reachable lock_init (lock_step demo_hash) ?a"
    by (rule reachable_step [OF demo_wait_reachable lock_step.after_walk])
      (simp_all add: demo_wait_eq demo_held_eq)
  then have "reachable lock_init (lock_step demo_hash) (walk_one 0 ?a)"
    by (rule reach_walk [where l = 1 and w = True and pos = W_Start])
      (unfold a, simp)
  then have r: "reachable lock_init (lock_step demo_hash) (walk_one 0 (walk_one 0 ?a))"
    by (rule reach_walk [where l = 1 and w = True and pos = "W_At (Some 1) 0"])
      (unfold a, simp add: demo_wait_eq demo_held_eq demo_ops)
  have "pc (walk_one 0 (walk_one 0 ?a)) 0 = Walking 1 True (W_Done False)"
    by (unfold a, simp add: demo_wait_eq demo_held_eq demo_ops)
  then show ?thesis
    unfolding demo_asleep_def by (rule reachable_step [OF r lock_step.wait_walked])
qed

lemma demo_cycle_eq:
  "demo_cycle = demo_asleep\<lparr>trx := (trx demo_asleep)(1 := demo_trx (Some 1) (Some 0)),
     pc := (pc demo_asleep)(1 := Walking 0 False W_Start)\<rparr>"
  by (simp add: demo_cycle_def demo_asleep_eq demo_held_eq demo_ops set_pc_def set_waiting_def)

lemma demo_cycle_reachable: "reachable lock_init (lock_step demo_hash) demo_cycle"
  unfolding demo_cycle_def
  by (rule reach_enter [OF demo_asleep_reachable]) (simp_all add: demo_asleep_eq demo_held_eq)

section \<open>Properties\<close>

text \<open>C6: no deadlock of at most \<open>DEADLOCK_MAX_DEPTH\<close> transactions goes to sleep. In every
  reachable state, every cycle of the wait-for graph of that length has a member that is
  running the deadlock walk, is at the right place of it, and, even if no other thread moves,
  ends it by reporting the deadlock; in particular not all members of the cycle are
  blocked in the condition wait.\<close>

theorem deadlock_is_detected:
  assumes "reachable lock_init (lock_step X) s" "wait_cycle s n t" "n \<le> DEADLOCK_MAX_DEPTH"
  shows "\<exists>u l w pos m. on_path s t u \<and> pc s u = Walking l w pos \<and>
    (walk_step s u l ^^ m) pos = W_Done True"
proof -
  obtain u l w pos where u: "on_path s t u" "pc s u = Walking l w pos" "detects s u pos"
    using reachable_detect [OF assms(1)] assms(2,3)
    unfolding detect_inv_def will_detect_def by blast
  have "wait_cycle s n u" using cycle_shift [OF assms(2)] u(1) by (auto simp: on_path_def)
  then show ?thesis
    using will_detect_finishes [OF reachable_lock_inv [OF assms(1)] _ assms(3) u(2,3)] u by blast
qed

theorem deadlock_is_detected_witness:
  "wait_cycle demo_cycle 2 0 \<and> pc demo_cycle 0 = Asleep 1 \<and>
   (\<exists>u l w pos m. on_path demo_cycle 0 u \<and> pc demo_cycle u = Walking l w pos \<and>
      (walk_step demo_cycle u l ^^ m) pos = W_Done True)"
proof -
  have "wait_cycle demo_cycle 2 0"
    by (simp add: wait_cycle_def numeral_2_eq_2 blocker_def demo_cycle_eq demo_asleep_eq
        demo_held_eq demo_trx_def demo_lock_def)
  then show ?thesis
    using deadlock_is_detected [OF demo_cycle_reachable]
    by (simp add: DEADLOCK_MAX_DEPTH_def demo_cycle_eq demo_asleep_eq)
qed

text \<open>C8: with at most \<open>DEADLOCK_MAX_DEPTH\<close> connections, a sleeping transaction always waits,
  directly or through others, for one that is not asleep: the lock table cannot hang.\<close>

theorem sleeper_waits_for_runner:
  assumes "reachable lock_init (lock_step X) s" "finite {u. pc s u \<noteq> Closed}"
    and "card {u. pc s u \<noteq> Closed} \<le> DEADLOCK_MAX_DEPTH"
  shows "\<exists>u. on_path s t u \<and> (\<forall>l. pc s u \<noteq> Asleep l)"
proof (rule ccontr)
  assume "\<not> ?thesis"
  then have asleep: "\<exists>l. pc s u = Asleep l" if "on_path s t u" for u
    using that by blast
  obtain u n where u: "on_path s t u" "wait_cycle s n u" "n \<le> DEADLOCK_MAX_DEPTH"
    using all_asleep_cycle [OF reachable_lock_inv [OF assms(1)] assms(2) asleep] assms(3)
    by (meson order_trans)
  then obtain v where v: "on_path s u v" "will_detect s v"
    using reachable_detect [OF assms(1)] unfolding detect_inv_def by blast
  then have "on_path s t v" using on_path_trans [OF u(1)] by (auto simp: on_path_def)
  then show False using asleep [of v] v(2) by (auto simp: will_detect_def)
qed

theorem sleeper_waits_for_runner_witness:
  "pc demo_asleep 0 = Asleep 1 \<and> (\<exists>u. on_path demo_asleep 0 u \<and> (\<forall>l. pc demo_asleep u \<noteq> Asleep l))"
proof -
  have "{u. pc demo_asleep u \<noteq> Closed} = {0, 1}"
    by (auto simp: demo_asleep_eq demo_held_eq)
  then show ?thesis
    using sleeper_waits_for_runner [OF demo_asleep_reachable, of 0]
    by (simp add: DEADLOCK_MAX_DEPTH_def) (simp add: demo_asleep_eq)
qed

text \<open>No wake-up is lost and nobody waits for itself. A transaction asleep on a lock has
  another, open transaction as the lock's owner, so the release that will wake it is still to
  come.\<close>

theorem sleeper_has_owner:
  assumes "reachable lock_init (lock_step X) s" "pc s t = Asleep l"
  shows "\<exists>u. u \<noteq> t \<and> rl_owner_trx (heap s l) = Some u \<and> pc s u \<noteq> Closed"
  using asleep_owner [OF reachable_lock_inv [OF assms(1)] assms(2)] by blast

text \<open>The deadlock walk never touches freed memory. Whenever a walker is about to read the
  \<open>waiting_on\<close> of a transaction struct, that struct has not been freed.\<close>

theorem walker_reads_live_trx:
  assumes "reachable lock_init (lock_step X) s" "pc s t = Walking l w (W_At (Some c) d)"
  shows "pc s c \<noteq> Closed"
  using lock_invD(7) [OF reachable_lock_inv [OF assms(1)]] assms(2) unfolding inv_live_def by blast

text \<open>C10: a transaction outside the lock code holds exactly what is on its list. The
  \<open>held_next\<close> pointers from its head form a finite list without repetition of precisely the
  entries it owns, so \<open>row_locks_release_all\<close> frees every one of them and no other.\<close>

theorem held_list_exact:
  assumes "reachable lock_init (lock_step X) s" "pc s t = Ret rc"
  shows "\<exists>ls. held_path s (held_locks_head (trx s t)) ls \<and> distinct ls \<and>
    set ls = {l. rl_owner_trx (heap s l) = Some t}"
proof -
  have "held_start s t = held_locks_head (trx s t)" using assms(2) by (simp add: held_start_def)
  then show ?thesis
    using lock_invD(6) [OF reachable_lock_inv [OF assms(1)]] unfolding inv_held_def by metis
qed

theorem held_list_exact_witness:
  "\<exists>ls. held_path demo_held (held_locks_head (trx demo_held 1)) ls \<and> distinct ls \<and>
    set ls = {l. rl_owner_trx (heap demo_held l) = Some 1}"
  by (rule held_list_exact [OF demo_held_reachable]) (simp add: demo_held_eq)

text \<open>One entry per row key. Two allocated entries with the same key are the same entry, so
  owning the entry is owning the row.\<close>

theorem one_entry_per_key:
  assumes "reachable lock_init (lock_step X) s" "l < n_locks s" "k < n_locks s"
    and "rl_pk (heap s l) = rl_pk (heap s k)"
  shows "l = k"
proof -
  note c = lock_invD(8) [OF reachable_lock_inv [OF assms(1)], unfolded inv_chain_def]
  have "l \<in> set (chain s (rl_partition (heap s l)))" "k \<in> set (chain s (rl_partition (heap s k)))"
    using c assms(2,3) by blast+
  moreover from this have "rl_partition (heap s l) = rl_partition (heap s k)"
    using c assms(4) by metis
  ultimately show ?thesis using c assms(4) unfolding inj_on_def by metis
qed


text \<open>Success means ownership. When a call that had to wait returns 0, the caller owns the
  lock it waited for; a deadlock or a kill never leaves it the owner.\<close>

theorem wait_success_owns:
  assumes "reachable lock_init (lock_step X) s" "lock_step X s s'"
    and "pc_waits (pc s t) = Some l" "pc s' t = Ret rc"
  shows "rl_owner_trx (heap s' l) = Some t \<longleftrightarrow> rc = HA_OK"
  by (rule claim_after_success [OF reachable_lock_inv [OF assms(1)] assms(2-4)])

end
