(* ===== verification/Hilbert.thy ===== *)
theory Hilbert
  imports TDB_Prelude
begin

text \<open>
  The Hilbert curve of \<open>tidesdb_spatial.cc\<close>: \<open>hilbert_rot\<close>, \<open>hilbert_xy2d_64\<close> and the
  big-endian key \<open>encode_hilbert_be\<close>/\<open>decode_hilbert_be\<close>, at the widths of the code. The
  reference \<open>hil\<close> computes the curve position as a number from the bits of the coordinates;
  it shows that the curve visits every point once and every aligned square as one block.
\<close>

section \<open>Definitions\<close>

definition HILBERT_ORDER :: nat where "HILBERT_ORDER = 32"

definition SPATIAL_HILBERT_KEY_LEN :: nat where "SPATIAL_HILBERT_KEY_LEN = 8"

definition hilbert_rot :: "u64 \<Rightarrow> u32 \<Rightarrow> u32 \<Rightarrow> u32 \<Rightarrow> u32 \<Rightarrow> u32 \<times> u32" where
  "hilbert_rot n x y rx ry =
     (if ry = 0
      then (let (x1, y1) = (if rx = 1 then (ucast (n - 1) - x, ucast (n - 1) - y) else (x, y))
            in (y1, x1))
      else (x, y))"

text \<open>The loop over \<open>s = 2 ^ k\<close> for \<open>k\<close> from 31 down to 0.\<close>

primrec hilbert_loop :: "nat \<Rightarrow> u32 \<Rightarrow> u32 \<Rightarrow> u64 \<Rightarrow> u64" where
  "hilbert_loop 0 x y d = d"
| "hilbert_loop (Suc k) x y d =
     (let s = push_bit k 1;
          rx = (if (ucast x :: u64) AND s \<noteq> 0 then 1 else 0) :: u32;
          ry = (if (ucast y :: u64) AND s \<noteq> 0 then 1 else 0) :: u32;
          d' = d + s * s * ucast ((3 * rx) XOR ry);
          (x', y') = hilbert_rot (push_bit 1 s) x y rx ry
      in hilbert_loop k x' y' d')"

definition hilbert_xy2d_64 :: "u32 \<Rightarrow> u32 \<Rightarrow> u64" where
  "hilbert_xy2d_64 x y = hilbert_loop HILBERT_ORDER x y 0"

definition encode_hilbert_be :: "u64 \<Rightarrow> bytes" where
  "encode_hilbert_be h =
     map (\<lambda>i. ucast (drop_bit ((SPATIAL_HILBERT_KEY_LEN - 1 - i) * 8) h))
       [0..<SPATIAL_HILBERT_KEY_LEN]"

definition decode_hilbert_be :: "bytes \<Rightarrow> u64" where
  "decode_hilbert_be inp =
     foldl (\<lambda>h b. push_bit 8 h OR ucast b) 0 (take SPATIAL_HILBERT_KEY_LEN inp)"

section \<open>The reference curve\<close>

definition hil_digit :: "bool \<Rightarrow> bool \<Rightarrow> nat" where
  "hil_digit rx ry = (if rx then (if ry then 2 else 3) else if ry then 1 else 0)"

definition hil_turn :: "bool \<Rightarrow> bool \<Rightarrow> u32 \<Rightarrow> u32 \<Rightarrow> u32 \<times> u32" where
  "hil_turn rx ry x y =
     (if ry then (x, y) else if rx then (NOT y, NOT x) else (y, x))"

primrec hil :: "nat \<Rightarrow> u32 \<Rightarrow> u32 \<Rightarrow> nat" where
  "hil 0 x y = 0"
| "hil (Suc k) x y =
     4 ^ k * hil_digit (bit x k) (bit y k) +
     (case hil_turn (bit x k) (bit y k) x y of (x', y') \<Rightarrow> hil k x' y')"

definition same_bits :: "nat \<Rightarrow> nat \<Rightarrow> u32 \<Rightarrow> u32 \<Rightarrow> bool" where
  "same_bits j k x y \<longleftrightarrow> (\<forall>i. j \<le> i \<longrightarrow> i < k \<longrightarrow> bit x i = bit y i)"

lemma hil_digit_less [simp]: "hil_digit a b < 4"
  by (simp add: hil_digit_def)

lemma hil_digit_inj: "hil_digit a b = hil_digit a' b' \<longleftrightarrow> a = a' \<and> b = b'"
  by (simp add: hil_digit_def)

lemma hil_less: "hil k x y < 4 ^ k"
proof (induction k arbitrary: x y)
  case (Suc k)
  obtain x' y' where t: "hil_turn (bit x k) (bit y k) x y = (x', y')" by fastforce
  have "hil (Suc k) x y < 4 ^ k * hil_digit (bit x k) (bit y k) + 4 ^ k"
    using Suc [of x' y'] by (simp add: t)
  also have "\<dots> = 4 ^ k * (hil_digit (bit x k) (bit y k) + 1)" by simp
  also have "\<dots> \<le> 4 ^ k * 4"
    using hil_digit_less [of "bit x k" "bit y k"] by (intro mult_le_mono2) linarith
  finally show ?case by simp
qed simp

text \<open>Position of a point inside a square of side \<open>2 ^ j\<close> and position of the square.\<close>

lemma hil_digits_eq:
  assumes "p * (d :: nat) + r = p * d' + r'" "r < p" "r' < p"
  shows "d = d' \<and> r = r'"
proof -
  have "(p * d + r) div p = d" "(p * d' + r') div p = d'" using assms(2,3) by auto
  then show ?thesis using assms(1) by auto
qed

lemma same_bits_turn:
  assumes "same_bits j k x u" "same_bits j k y v"
    and "hil_turn rx ry x y = (x', y')" "hil_turn rx ry u v = (u', v')" "k \<le> 32"
  shows "same_bits j k x' u' \<and> same_bits j k y' v'"
  using assms by (auto simp: same_bits_def hil_turn_def bit_not_iff split: if_splits)

lemma turn_same_bits:
  assumes "hil_turn rx ry x y = (x', y')" "hil_turn rx ry u v = (u', v')" "k \<le> 32"
    and "same_bits j k x' u'" "same_bits j k y' v'"
  shows "same_bits j k x u \<and> same_bits j k y v"
  using assms by (auto simp: same_bits_def hil_turn_def bit_not_iff split: if_splits)

lemma hil_Suc_div:
  assumes "j \<le> k" "hil_turn (bit x k) (bit y k) x y = (x', y')"
  shows "hil (Suc k) x y div 4 ^ j =
    4 ^ (k - j) * hil_digit (bit x k) (bit y k) + hil k x' y' div 4 ^ j"
proof -
  have "(4 :: nat) ^ k = 4 ^ (k - j) * 4 ^ j" using assms(1) by (simp flip: power_add)
  then have "hil (Suc k) x y =
      hil k x' y' + (4 ^ (k - j) * hil_digit (bit x k) (bit y k)) * 4 ^ j"
    by (simp add: assms(2))
  then show ?thesis by simp
qed

lemma hil_div_less: "j \<le> k \<Longrightarrow> hil k x y div 4 ^ j < 4 ^ (k - j)"
  using hil_less [of k x y] by (simp add: less_mult_imp_div_less flip: power_add)

lemma hil_block:
  assumes "j \<le> k" "k \<le> 32"
  shows "hil k x y div 4 ^ j = hil k u v div 4 ^ j \<longleftrightarrow> same_bits j k x u \<and> same_bits j k y v"
  using assms
proof (induction k arbitrary: x y u v)
  case (Suc k)
  show ?case
  proof (cases "j = Suc k")
    case True
    then show ?thesis
      using hil_less [of "Suc k" x y] hil_less [of "Suc k" u v]
      by (simp add: same_bits_def del: hil.simps)
  next
    case False
    then have j: "j \<le> k" using Suc.prems by simp
    obtain x' y' where t: "hil_turn (bit x k) (bit y k) x y = (x', y')" by fastforce
    obtain u' v' where t': "hil_turn (bit u k) (bit v k) u v = (u', v')" by fastforce
    have split: "same_bits j (Suc k) a b \<longleftrightarrow> bit a k = bit b k \<and> same_bits j k a b" for a b
      using j by (auto simp: same_bits_def less_Suc_eq)
    have "hil (Suc k) x y div 4 ^ j = hil (Suc k) u v div 4 ^ j \<longleftrightarrow>
        hil_digit (bit x k) (bit y k) = hil_digit (bit u k) (bit v k) \<and>
        hil k x' y' div 4 ^ j = hil k u' v' div 4 ^ j"
      unfolding hil_Suc_div [OF j t] hil_Suc_div [OF j t']
      using hil_digits_eq [OF _ hil_div_less [OF j, of x' y'] hil_div_less [OF j, of u' v']] by auto
    also have "\<dots> \<longleftrightarrow> bit x k = bit u k \<and> bit y k = bit v k \<and>
        same_bits j k x' u' \<and> same_bits j k y' v'"
      using Suc.IH [OF j] Suc.prems by (simp add: hil_digit_inj)
    also have "\<dots> \<longleftrightarrow> same_bits j (Suc k) x u \<and> same_bits j (Suc k) y v"
      unfolding split
      using same_bits_turn [OF _ _ t, of j k u v u' v'] turn_same_bits [OF t, of u v u' v' k j] t'
        Suc.prems by auto
    finally show ?thesis .
  qed
qed (simp add: same_bits_def)

section \<open>The code computes the reference\<close>

lemma bit_and_push: "((ucast (x :: u32) :: u64) AND push_bit k 1 \<noteq> 0) \<longleftrightarrow> bit x k"
proof -
  have "((ucast x :: u64) AND push_bit k 1 \<noteq> 0) \<longleftrightarrow> bit (ucast x :: u64) k"
    by (simp add: and_exp_eq_0_iff_not_bit)
  also have "\<dots> \<longleftrightarrow> bit x k"
    using bit_imp_le_length [of x k] by (auto simp: bit_ucast_iff)
  finally show ?thesis .
qed

lemma take_bit_add_exp:
  assumes "m \<le> 32"
  shows "take_bit m (a + push_bit m 1) = take_bit m (a :: u32)"
proof -
  have dvd: "(2 :: nat) ^ m dvd 2 ^ 32" using assms by (rule le_imp_power_dvd)
  have "unat (push_bit m 1 :: u32) = 2 ^ m mod 2 ^ 32"
    by (simp only: unsigned_push_bit_eq) (simp add: take_bit_eq_mod)
  then have "unat (push_bit m 1 :: u32) mod 2 ^ m = 0"
    using mod_mod_cancel [OF dvd, of "2 ^ m"] by (simp only:) simp
  then have "(unat a + unat (push_bit m 1 :: u32)) mod 2 ^ m = unat a mod 2 ^ m"
    by (metis add.right_neutral mod_add_right_eq)
  moreover have "unat (a + push_bit m 1) mod 2 ^ m = (unat a + unat (push_bit m 1 :: u32)) mod 2 ^ m"
    using mod_mod_cancel [OF dvd] by (simp only: unat_word_ariths) simp
  ultimately have "unat (take_bit m (a + push_bit m 1)) = unat (take_bit m a)"
    unfolding unsigned_take_bit_eq by (simp only: take_bit_eq_mod)
  then show ?thesis by (simp only: word_unat_eq_iff)
qed

lemma low_bits_complement:
  assumes "i \<le> k" "k < 32"
  shows "bit (ucast (push_bit 1 (push_bit k 1 :: u64) - 1) - x :: u32) i = bit (NOT x) i"
proof -
  have "(push_bit 1 (push_bit k 1) - 1 :: u64) = mask (Suc k)"
    by (simp add: mask_eq_exp_minus_1 push_bit_eq_mult)
  then have "(ucast (push_bit 1 (push_bit k 1 :: u64) - 1) :: u32) = mask (Suc k)"
    using assms(2) by (intro bit_word_eqI) (auto simp: bit_ucast_iff bit_mask_iff)
  then have "(ucast (push_bit 1 (push_bit k 1 :: u64) - 1) - x :: u32) = NOT x + push_bit (Suc k) 1"
    by (simp add: mask_eq_exp_minus_1 push_bit_eq_mult not_eq_complement)
  moreover have "take_bit (Suc k) (NOT x + push_bit (Suc k) 1) = take_bit (Suc k) (NOT x)"
    using assms(2) by (intro take_bit_add_exp) simp
  moreover have "bit (take_bit (Suc k) w) i = bit w i" for w :: u32
    using assms(1) by (simp add: bit_take_bit_iff)
  ultimately show ?thesis
    by metis
qed

lemma hil_cong:
  assumes "same_bits 0 k x u" "same_bits 0 k y v" "k \<le> 32"
  shows "hil k x y = hil k u v"
  using hil_block [of 0 k x y u v] assms by simp

lemma hilbert_loop_hil: "k \<le> 32 \<Longrightarrow> hilbert_loop k x y d = d + word_of_nat (hil k x y)"
proof (induction k arbitrary: x y d)
  case (Suc k)
  let ?rx = "bit x k" and ?ry = "bit y k"
  let ?wx = "if ?rx then 1 else 0 :: u32" and ?wy = "if ?ry then 1 else 0 :: u32"
  obtain x' y' where t: "hil_turn ?rx ?ry x y = (x', y')" by fastforce
  obtain u v where r: "hilbert_rot (push_bit 1 (push_bit k 1)) x y ?wx ?wy = (u, v)" by fastforce
  have "same_bits 0 k u x'" "same_bits 0 k v y'"
    using r t low_bits_complement [of _ k] Suc.prems
    by (auto simp: hilbert_rot_def hil_turn_def same_bits_def Let_def bit_not_iff split: if_splits)
  then have "hil k u v = hil k x' y'"
    using Suc.prems by (intro hil_cong) auto
  moreover have "(push_bit k 1 * push_bit k 1 * ucast ((3 * ?wx) XOR ?wy) :: u64) =
      word_of_nat (4 ^ k * hil_digit ?rx ?ry)"
  proof -
    have "(2 :: u64) ^ (k * 2) = 4 ^ k" by (simp add: power_mult mult.commute [of k])
    then show ?thesis
      by (auto simp: hil_digit_def power_mult_distrib simp flip: power2_eq_square power_mult)
  qed
  moreover have "hilbert_loop (Suc k) x y d =
      hilbert_loop k u v (d + push_bit k 1 * push_bit k 1 * ucast ((3 * ?wx) XOR ?wy))"
    using r by (simp only: hilbert_loop.simps Let_def bit_and_push prod.case)
  ultimately show ?case
    using Suc t by (simp add: add.assoc)
qed simp

lemma unat_hilbert: "unat (hilbert_xy2d_64 x y) = hil 32 x y"
proof -
  have "hil 32 x y < 2 ^ 64" using hil_less [of 32 x y] by simp
  then show ?thesis
    by (simp add: hilbert_xy2d_64_def HILBERT_ORDER_def hilbert_loop_hil unat_of_nat)
qed

lemma same_bits_drop: "same_bits j 32 x u \<longleftrightarrow> drop_bit j x = drop_bit j u"
proof
  assume "same_bits j 32 x u"
  then have "bit x i = bit u i" if "j \<le> i" for i
    using that bit_imp_le_length [of x i] bit_imp_le_length [of u i]
    by (cases "i < 32") (auto simp: same_bits_def)
  then show "drop_bit j x = drop_bit j u"
    by (intro bit_word_eqI) (simp add: bit_drop_bit_eq)
next
  assume d: "drop_bit j x = drop_bit j u"
  then have "bit x (j + i) = bit u (j + i)" for i
    by (metis bit_drop_bit_eq comp_apply)
  then show "same_bits j 32 x u"
    unfolding same_bits_def by (metis le_add_diff_inverse)
qed

lemma hilbert_block:
  assumes "j \<le> 32"
  shows "drop_bit (2 * j) (hilbert_xy2d_64 x y) = drop_bit (2 * j) (hilbert_xy2d_64 u v) \<longleftrightarrow>
    drop_bit j x = drop_bit j u \<and> drop_bit j y = drop_bit j v"
proof -
  have "(2 :: nat) ^ (2 * j) = 4 ^ j" by (simp add: power_mult)
  then have "unat (drop_bit (2 * j) (hilbert_xy2d_64 a b)) = hil 32 a b div 4 ^ j" for a b
    unfolding unat_drop_bit_eq by (simp only: unat_hilbert drop_bit_eq_div)
  then show ?thesis
    using hil_block [OF assms, of x y u v] by (simp only: word_unat_eq_iff same_bits_drop)
qed

section \<open>The key prefix\<close>

lemma encode_hilbert_be_loop: "encode_hilbert_be h = be_loop 8 h"
  by (simp only: encode_hilbert_be_def be_loop_def SPATIAL_HILBERT_KEY_LEN_def)

lemma decode_hilbert_be_fold: "decode_hilbert_be p = be_fold 0 (take 8 p)"
  by (simp only: decode_hilbert_be_def be_fold_def SPATIAL_HILBERT_KEY_LEN_def)

lemma length_encode_hilbert [simp, len_simps]: "length (encode_hilbert_be h) = 8"
  by (simp add: encode_hilbert_be_loop be_loop_def)

lemma decode_encode_hilbert [simp]: "decode_hilbert_be (encode_hilbert_be h @ pk) = h"
  by (simp add: decode_hilbert_be_fold, simp add: encode_hilbert_be_loop be_fold_be_loop)

interpretation hilbert_key: fixed_codec encode_hilbert_be
  "\<lambda>p. if length p = 8 then Some (decode_hilbert_be p) else None" "\<lambda>_. True" 8
  using decode_encode_hilbert [of _ "[]"] by unfold_locales auto

interpretation hilbert_order: ordered_codec encode_hilbert_be "\<lambda>_. True" 8
  by unfold_locales (simp, simp only: encode_hilbert_be_loop, rule be_loop_less_iff, simp)

section \<open>Properties\<close>

text \<open>C15: the curve visits every point of the \<open>2 ^ 32\<close> by \<open>2 ^ 32\<close> grid exactly once: the code's
  loop, with its wrapping 32- and 64-bit arithmetic, is a bijection from pairs of coordinates to
  64-bit positions, so two geometries share a key prefix only when their quantised centroids
  are the same.\<close>

theorem hilbert_bijective: "bij (\<lambda>(x, y). hilbert_xy2d_64 x y)"
proof -
  have "inj (\<lambda>(x, y). hilbert_xy2d_64 x y)"
    using hilbert_block [of 0] by (auto simp: inj_def)
  moreover have "card (UNIV :: (u32 \<times> u32) set) = card (UNIV :: u64 set)"
    by (simp add: card_cartesian_product card_word flip: UNIV_Times_UNIV)
  ultimately have "range (\<lambda>(x, y). hilbert_xy2d_64 x y) = UNIV"
    by (intro card_subset_eq) (simp_all add: card_image)
  then show ?thesis using \<open>inj _\<close> by (simp add: bij_def)
qed

text \<open>Every aligned square is one contiguous block of the curve. Two points lie in the same
  square of side \<open>2 ^ j\<close> if and only if their positions agree above the lowest \<open>2 * j\<close> bits.\<close>

theorem hilbert_square_is_block:
  assumes "j \<le> HILBERT_ORDER"
  shows "drop_bit (2 * j) (hilbert_xy2d_64 x y) = drop_bit (2 * j) (hilbert_xy2d_64 u v) \<longleftrightarrow>
    drop_bit j x = drop_bit j u \<and> drop_bit j y = drop_bit j v"
  using assms by (intro hilbert_block) (simp add: HILBERT_ORDER_def)

text \<open>The key prefix sorts entries by curve position. Comparing two index keys byte by byte
  compares the positions first and the primary keys second; decoding the prefix gives the
  position back.\<close>

theorem hilbert_key_sorted:
  "decode_hilbert_be (encode_hilbert_be h @ pk) = h \<and>
   (encode_hilbert_be h @ pk < encode_hilbert_be h' @ pk' \<longleftrightarrow> h < h' \<or> (h = h' \<and> pk < pk'))"
  using hilbert_order.composite_less [where x = h and y = h' and s = pk and t = pk'] by simp

end
