(* ===== verification/Spatial.thy ===== *)
theory Spatial
  imports Hilbert "HOL-Library.Multiset"
begin

text \<open>
  \<open>tidesdb_spatial.cc\<close> apart from the curve: the quantisation of coordinates, the WKB parser
  that computes a bounding rectangle, the codec of index entries, the rectangle predicates and
  the decomposition of a query box into ranges of curve positions.

  A double is its 64-bit pattern. IEEE order on patterns that are not NaN is the order of their
  sign-magnitude values, and a comparison with a NaN is false. Data is in native (little-endian)
  byte order, which the code relies on as well.
\<close>

section \<open>Doubles\<close>

type_synonym dbl = u64

definition dbl_mag :: "dbl \<Rightarrow> nat" where "dbl_mag d = unat d mod 2 ^ 63"

definition dbl_neg :: "dbl \<Rightarrow> bool" where "dbl_neg d = (2 ^ 63 \<le> unat d)"

definition dbl_smag :: "dbl \<Rightarrow> int" where
  "dbl_smag d = (if dbl_neg d then - int (dbl_mag d) else int (dbl_mag d))"

definition dbl_nan :: "dbl \<Rightarrow> bool" where "dbl_nan d = (0x7FF0000000000000 < dbl_mag d)"

definition dbl_isfinite :: "dbl \<Rightarrow> bool" where "dbl_isfinite d = (dbl_mag d < 0x7FF0000000000000)"

definition dlt :: "dbl \<Rightarrow> dbl \<Rightarrow> bool" where
  "dlt a b = (\<not> dbl_nan a \<and> \<not> dbl_nan b \<and> dbl_smag a < dbl_smag b)"

definition dle :: "dbl \<Rightarrow> dbl \<Rightarrow> bool" where
  "dle a b = (\<not> dbl_nan a \<and> \<not> dbl_nan b \<and> dbl_smag a \<le> dbl_smag b)"

definition deq :: "dbl \<Rightarrow> dbl \<Rightarrow> bool" where
  "deq a b = (\<not> dbl_nan a \<and> \<not> dbl_nan b \<and> dbl_smag a = dbl_smag b)"

definition DBL_MAX :: dbl where "DBL_MAX = 0x7FEFFFFFFFFFFFFF"

definition neg_DBL_MAX :: dbl where "neg_DBL_MAX = 0xFFEFFFFFFFFFFFFF"

definition float8get :: "bytes \<Rightarrow> dbl" where "float8get p = word_of_nat (le_val (take 8 p))"

definition float8store :: "dbl \<Rightarrow> bytes" where "float8store d = le_bytes 8 (unat d)"

definition uint4korr :: "bytes \<Rightarrow> nat" where "uint4korr p = le_val (take 4 p)"

section \<open>Definitions\<close>

definition IEEE754_DOUBLE_SIGN_MASK :: u64 where "IEEE754_DOUBLE_SIGN_MASK = push_bit 63 1"

definition LEX_UINT32_HI_SHIFT :: nat where "LEX_UINT32_HI_SHIFT = 32"

definition double_to_lex_uint32 :: "dbl \<Rightarrow> u32" where
  "double_to_lex_uint32 val =
     (let bits = (if val AND IEEE754_DOUBLE_SIGN_MASK \<noteq> 0 then NOT val
                  else val XOR IEEE754_DOUBLE_SIGN_MASK)
      in ucast (drop_bit LEX_UINT32_HI_SHIFT bits))"

record tdb_mbr =
  mbr_xmin :: dbl
  mbr_ymin :: dbl
  mbr_xmax :: dbl
  mbr_ymax :: dbl

subsection \<open>The WKB parser\<close>

text \<open>A reader takes the remaining bytes and the rectangle so far and gives both back, or
  \<open>None\<close> where the code returns \<open>false\<close>.\<close>

definition WKB_MAX_POINTS :: nat where "WKB_MAX_POINTS = 1000000"
definition WKB_MAX_RINGS :: nat where "WKB_MAX_RINGS = 10000"
definition WKB_MAX_GEOMS :: nat where "WKB_MAX_GEOMS = 100000"

definition wkb_read_point :: "bytes \<Rightarrow> tdb_mbr \<Rightarrow> (bytes \<times> tdb_mbr) option" where
  "wkb_read_point p m =
     (if length p < 16 then None
      else (let x = float8get p; y = float8get (drop 8 p) in
        Some (drop 16 p,
          if dbl_isfinite x \<and> dbl_isfinite y
          then \<lparr>mbr_xmin = (if dlt x (mbr_xmin m) then x else mbr_xmin m),
                mbr_ymin = (if dlt y (mbr_ymin m) then y else mbr_ymin m),
                mbr_xmax = (if dlt (mbr_xmax m) x then x else mbr_xmax m),
                mbr_ymax = (if dlt (mbr_ymax m) y then y else mbr_ymax m)\<rparr>
          else m)))"

text \<open>A counted loop around a reader.\<close>

primrec wkb_repeat :: "(bytes \<Rightarrow> tdb_mbr \<Rightarrow> (bytes \<times> tdb_mbr) option) \<Rightarrow> nat \<Rightarrow> bytes \<Rightarrow> tdb_mbr \<Rightarrow>
    (bytes \<times> tdb_mbr) option" where
  "wkb_repeat rd 0 p m = Some (p, m)"
| "wkb_repeat rd (Suc n) p m =
     (case rd p m of None \<Rightarrow> None | Some (p', m') \<Rightarrow> wkb_repeat rd n p' m')"

definition wkb_read_point_sequence :: "bytes \<Rightarrow> tdb_mbr \<Rightarrow> (bytes \<times> tdb_mbr) option" where
  "wkb_read_point_sequence p m =
     (if length p < 4 then None
      else (let n_pts = uint4korr p in
        if n_pts > WKB_MAX_POINTS then None
        else wkb_repeat wkb_read_point n_pts (drop 4 p) m))"

text \<open>The recursion of \<open>wkb_parse_geometry\<close> goes down with the input: every geometry consumes
  its header, so the length of the data is enough fuel.\<close>

primrec wkb_parse_geometry :: "nat \<Rightarrow> bytes \<Rightarrow> tdb_mbr \<Rightarrow> (bytes \<times> tdb_mbr) option" where
  "wkb_parse_geometry 0 p m = None"
| "wkb_parse_geometry (Suc fuel) p m =
     (if length p < 5 then None
      else (let gt = uint4korr (drop 1 p); q = drop 5 p in
        if gt = 1 then wkb_read_point q m
        else if gt = 2 then wkb_read_point_sequence q m
        else if gt = 3 then
          (if length q < 4 then None
           else (let n_rings = uint4korr q in
             if n_rings > WKB_MAX_RINGS then None
             else wkb_repeat wkb_read_point_sequence n_rings (drop 4 q) m))
        else if gt \<in> {4, 5, 6, 7} then
          (if length q < 4 then None
           else (let n_geoms = uint4korr q in
             if n_geoms > WKB_MAX_GEOMS then None
             else wkb_repeat (wkb_parse_geometry fuel) n_geoms (drop 4 q) m))
        else None))"

definition spatial_compute_mbr :: "bytes \<Rightarrow> tdb_mbr option" where
  "spatial_compute_mbr data =
     (if length data < 4 + 5 then None
      else (let m0 = \<lparr>mbr_xmin = DBL_MAX, mbr_ymin = DBL_MAX,
                      mbr_xmax = neg_DBL_MAX, mbr_ymax = neg_DBL_MAX\<rparr> in
        case wkb_parse_geometry (length data) (drop 4 data) m0 of
          None \<Rightarrow> None
        | Some (_, m) \<Rightarrow>
            if dle (mbr_xmin m) (mbr_xmax m) \<and> dle (mbr_ymin m) (mbr_ymax m) then Some m
            else None))"

subsection \<open>Index entries and predicates\<close>

definition spatial_build_key :: "dbl \<Rightarrow> dbl \<Rightarrow> bytes \<Rightarrow> bytes" where
  "spatial_build_key cx cy pk =
     encode_hilbert_be (hilbert_xy2d_64 (double_to_lex_uint32 cx) (double_to_lex_uint32 cy)) @ pk"

definition spatial_build_value :: "tdb_mbr \<Rightarrow> bytes" where
  "spatial_build_value m = float8store (mbr_xmin m) @ float8store (mbr_ymin m) @
     float8store (mbr_xmax m) @ float8store (mbr_ymax m)"

text \<open>The scan copies a stored value straight onto the struct.\<close>

definition spatial_load_value :: "bytes \<Rightarrow> tdb_mbr" where
  "spatial_load_value v = \<lparr>mbr_xmin = float8get v, mbr_ymin = float8get (drop 8 v),
     mbr_xmax = float8get (drop 16 v), mbr_ymax = float8get (drop 24 v)\<rparr>"

definition spatial_parse_query_mbr :: "bytes \<Rightarrow> tdb_mbr" where
  "spatial_parse_query_mbr key = \<lparr>mbr_xmin = float8get key, mbr_ymin = float8get (drop 16 key),
     mbr_xmax = float8get (drop 8 key), mbr_ymax = float8get (drop 24 key)\<rparr>"

datatype mbr_mode = MBR_INTERSECT | MBR_CONTAIN | MBR_WITHIN | MBR_EQUAL | MBR_DISJOINT | MBR_OTHER

definition mbr_intersects :: "tdb_mbr \<Rightarrow> tdb_mbr \<Rightarrow> bool" where
  "mbr_intersects a b =
     (\<not> (dlt (mbr_xmax a) (mbr_xmin b) \<or> dlt (mbr_xmax b) (mbr_xmin a) \<or>
         dlt (mbr_ymax a) (mbr_ymin b) \<or> dlt (mbr_ymax b) (mbr_ymin a)))"

definition mbr_within :: "tdb_mbr \<Rightarrow> tdb_mbr \<Rightarrow> bool" where
  "mbr_within a b = (dle (mbr_xmin b) (mbr_xmin a) \<and> dle (mbr_xmax a) (mbr_xmax b) \<and>
     dle (mbr_ymin b) (mbr_ymin a) \<and> dle (mbr_ymax a) (mbr_ymax b))"

definition mbr_equals :: "tdb_mbr \<Rightarrow> tdb_mbr \<Rightarrow> bool" where
  "mbr_equals a b = (deq (mbr_xmin a) (mbr_xmin b) \<and> deq (mbr_xmax a) (mbr_xmax b) \<and>
     deq (mbr_ymin a) (mbr_ymin b) \<and> deq (mbr_ymax a) (mbr_ymax b))"

definition mbr_disjoint :: "tdb_mbr \<Rightarrow> tdb_mbr \<Rightarrow> bool" where
  "mbr_disjoint a b = (\<not> mbr_intersects a b)"

fun spatial_mbr_predicate :: "mbr_mode \<Rightarrow> tdb_mbr \<Rightarrow> tdb_mbr \<Rightarrow> bool" where
  "spatial_mbr_predicate MBR_INTERSECT query entry = mbr_intersects entry query"
| "spatial_mbr_predicate MBR_CONTAIN query entry = mbr_within entry query"
| "spatial_mbr_predicate MBR_WITHIN query entry = mbr_within entry query"
| "spatial_mbr_predicate MBR_EQUAL query entry = mbr_equals entry query"
| "spatial_mbr_predicate MBR_DISJOINT query entry = mbr_disjoint entry query"
| "spatial_mbr_predicate MBR_OTHER query entry = False"

subsection \<open>Range decomposition\<close>

definition SPATIAL_DECOMP_BITS :: nat where "SPATIAL_DECOMP_BITS = 8"

definition SPATIAL_DECOMP_N :: nat where "SPATIAL_DECOMP_N = 2 ^ SPATIAL_DECOMP_BITS"

fun merge_cells :: "u64 \<Rightarrow> u64 \<Rightarrow> u64 \<Rightarrow> u64 list \<Rightarrow> (u64 \<times> u64) list" where
  "merge_cells cell_span range_lo range_hi [] = [(range_lo, range_hi)]"
| "merge_cells cell_span range_lo range_hi (lo # cells) =
     (let hi = lo + cell_span - 1 in
      if lo \<le> range_hi + 1
      then merge_cells cell_span range_lo (if hi > range_hi then hi else range_hi) cells
      else (range_lo, range_hi) # merge_cells cell_span lo hi cells)"

definition decomp_shift :: nat where "decomp_shift = HILBERT_ORDER - SPATIAL_DECOMP_BITS"

definition decomp_cells :: "u32 \<Rightarrow> u32 \<Rightarrow> u32 \<Rightarrow> u32 \<Rightarrow> u64 list" where
  "decomp_cells qx_min qy_min qx_max qy_max =
     (let clamp = (\<lambda>g. if g \<ge> SPATIAL_DECOMP_N then SPATIAL_DECOMP_N - 1 else g);
          gx0 = unat (drop_bit decomp_shift qx_min);
          gy0 = unat (drop_bit decomp_shift qy_min);
          gx1 = clamp (unat (drop_bit decomp_shift qx_max));
          gy1 = clamp (unat (drop_bit decomp_shift qy_max)) in
      concat (map (\<lambda>gx. map (\<lambda>gy. hilbert_xy2d_64 (push_bit decomp_shift (word_of_nat gx))
                                     (push_bit decomp_shift (word_of_nat gy)))
                         [gy0..<Suc gy1])
                [gx0..<Suc gx1]))"

definition spatial_decompose_ranges :: "u32 \<Rightarrow> u32 \<Rightarrow> u32 \<Rightarrow> u32 \<Rightarrow> (u64 \<times> u64) list" where
  "spatial_decompose_ranges qx_min qy_min qx_max qy_max =
     (case sort (decomp_cells qx_min qy_min qx_max qy_max) of
        [] \<Rightarrow> [(0, - 1)]
      | c # cs \<Rightarrow>
          let cell_span = push_bit (2 * decomp_shift) 1 in
          merge_cells cell_span c (c + cell_span - 1) cs)"

section \<open>Quantisation keeps the order\<close>

lemma sign_mask_bit: "val AND IEEE754_DOUBLE_SIGN_MASK \<noteq> 0 \<longleftrightarrow> dbl_neg val"
proof -
  have "val AND IEEE754_DOUBLE_SIGN_MASK \<noteq> 0 \<longleftrightarrow> bit val 63"
    by (simp only: IEEE754_DOUBLE_SIGN_MASK_def push_bit_of_1 and_exp_eq_0_iff_not_bit not_not)
  also have "\<dots> \<longleftrightarrow> bit (unat val) 63" by (simp add: bit_unsigned_iff)
  also have "\<dots> \<longleftrightarrow> odd (unat val div 2 ^ 63)" by (simp only: bit_iff_odd)
  also have "\<dots> \<longleftrightarrow> 2 ^ 63 \<le> unat val"
  proof -
    have "unat val div 2 ^ 63 < 2" using unsigned_less [of val, where ?'a = nat] by simp
    then have "unat val div 2 ^ 63 = 0 \<or> unat val div 2 ^ 63 = 1" by linarith
    then show ?thesis by (auto simp: div_eq_0_iff)
  qed
  finally show ?thesis by (simp only: dbl_neg_def)
qed

text \<open>The 64-bit value before the shift, as a number.\<close>

definition lex64 :: "dbl \<Rightarrow> nat" where
  "lex64 d = (if dbl_neg d then 2 ^ 63 - 1 - dbl_mag d else 2 ^ 63 + dbl_mag d)"

lemma dbl_mag_less: "dbl_mag d < 2 ^ 63"
  by (simp add: dbl_mag_def)

lemma unat_not: "unat (NOT (d :: u64)) = 2 ^ 64 - 1 - unat d"
proof -
  have "unat (- 1 :: u64) = 2 ^ 64 - 1"
    by (simp only: unsigned_minus_1_eq_mask) (simp add: mask_eq_exp_minus_1)
  moreover have "unat (- 1 - d) = unat (- 1 :: u64) - unat d" by (rule unat_sub) simp
  moreover have "NOT d = - 1 - d" by (simp add: not_eq_complement)
  ultimately show ?thesis by (simp only:)
qed

lemma unat_xor_sign:
  assumes "\<not> dbl_neg d"
  shows "unat (d XOR IEEE754_DOUBLE_SIGN_MASK) = 2 ^ 63 + unat d"
proof -
  have "d AND IEEE754_DOUBLE_SIGN_MASK = 0" using assms sign_mask_bit by blast
  then have "d XOR IEEE754_DOUBLE_SIGN_MASK = d + IEEE754_DOUBLE_SIGN_MASK"
    by (simp add: disjunctive_add_eq_xor)
  moreover have "unat IEEE754_DOUBLE_SIGN_MASK = 2 ^ 63"
    by (simp add: IEEE754_DOUBLE_SIGN_MASK_def)
  ultimately show ?thesis
    using assms by (simp add: unat_word_ariths dbl_neg_def)
qed

lemma lex_lex64: "unat (double_to_lex_uint32 d) = lex64 d div 2 ^ 32"
proof -
  let ?bits = "if dbl_neg d then NOT d else d XOR IEEE754_DOUBLE_SIGN_MASK"
  have "unat ?bits = lex64 d"
  proof (cases "dbl_neg d")
    case True
    then have "unat d = 2 ^ 63 + dbl_mag d"
      using unsigned_less [of d, where ?'a = nat]
      by (simp add: dbl_neg_def dbl_mag_def le_mod_geq)
    then show ?thesis using True by (simp add: unat_not lex64_def)
  next
    case False
    then show ?thesis by (simp add: unat_xor_sign lex64_def dbl_mag_def dbl_neg_def)
  qed
  moreover have "unat (ucast (drop_bit 32 w) :: u32) = unat w div 2 ^ 32" for w :: u64
  proof -
    have "unat w div 2 ^ 32 < 2 ^ 32" using unsigned_less [of w, where ?'a = nat] by simp
    moreover have "unat (drop_bit 32 w) = unat w div 2 ^ 32"
      unfolding unat_drop_bit_eq by (simp only: drop_bit_eq_div)
    ultimately show ?thesis by (simp add: unsigned_ucast_eq take_bit_eq_mod)
  qed
  ultimately show ?thesis
    by (simp only: double_to_lex_uint32_def Let_def LEX_UINT32_HI_SHIFT_def sign_mask_bit)
qed

lemma lex64_less:
  assumes "dbl_smag a < dbl_smag b"
  shows "lex64 a < lex64 b"
  using assms dbl_mag_less [of a] dbl_mag_less [of b]
  by (auto simp: lex64_def dbl_smag_def split: if_splits)

lemma lex_mono:
  assumes "dlt a b"
  shows "double_to_lex_uint32 a \<le> double_to_lex_uint32 b"
  using lex64_less [of a b] assms
  by (simp add: word_le_nat_alt lex_lex64 dlt_def div_le_mono)

section \<open>Index entries\<close>

lemma length_float8store [simp, len_simps]: "length (float8store d) = 8"
  by (simp add: float8store_def)

lemma float8get_store [simp]: "float8get (float8store d @ r) = d"
proof -
  have "le_val (le_bytes 8 (unat d)) = unat d"
    using unsigned_less [of d, where ?'a = nat]
    by (simp add: le_val_le_bytes)
  then show ?thesis
    by (simp add: float8get_def) (simp add: float8store_def)
qed

lemma float8get_store0 [simp]: "float8get (float8store d) = d"
  using float8get_store [of d "[]"] by simp

lemma load_build_value: "spatial_load_value (spatial_build_value m @ r) = m"
  by (simp add: spatial_load_value_def spatial_build_value_def)

lemma length_build_value [simp, len_simps]: "length (spatial_build_value m) = 32"
  by (simp add: spatial_build_value_def)

interpretation mbr_value: fixed_codec spatial_build_value
  "\<lambda>v. if length v = 32 then Some (spatial_load_value v) else None" "\<lambda>_. True" 32
  using load_build_value [of _ "[]"] by unfold_locales simp_all

section \<open>The parser reads what the format says\<close>

text \<open>The seven OGC geometry types and their well-known binary form.\<close>

datatype geom = GPoint "dbl \<times> dbl" | GLine "(dbl \<times> dbl) list" | GPolygon "(dbl \<times> dbl) list list"
  | GMulti nat "geom list"

definition enc_pt :: "dbl \<times> dbl \<Rightarrow> bytes" where
  "enc_pt p = float8store (fst p) @ float8store (snd p)"

definition enc_pts :: "(dbl \<times> dbl) list \<Rightarrow> bytes" where
  "enc_pts ps = le_bytes 4 (length ps) @ concat (map enc_pt ps)"

fun wkb_encode :: "geom \<Rightarrow> bytes" where
  "wkb_encode (GPoint p) = 1 # le_bytes 4 1 @ enc_pt p"
| "wkb_encode (GLine ps) = 1 # le_bytes 4 2 @ enc_pts ps"
| "wkb_encode (GPolygon rs) = 1 # le_bytes 4 3 @ le_bytes 4 (length rs) @ concat (map enc_pts rs)"
| "wkb_encode (GMulti k gs) =
     1 # le_bytes 4 k @ le_bytes 4 (length gs) @ concat (map wkb_encode gs)"

fun geom_points :: "geom \<Rightarrow> (dbl \<times> dbl) list" where
  "geom_points (GPoint p) = [p]"
| "geom_points (GLine ps) = ps"
| "geom_points (GPolygon rs) = concat rs"
| "geom_points (GMulti k gs) = concat (map geom_points gs)"

fun geom_ok :: "geom \<Rightarrow> bool" where
  "geom_ok (GPoint p) = True"
| "geom_ok (GLine ps) = (length ps \<le> WKB_MAX_POINTS)"
| "geom_ok (GPolygon rs) =
     (length rs \<le> WKB_MAX_RINGS \<and> list_all (\<lambda>r. length r \<le> WKB_MAX_POINTS) rs)"
| "geom_ok (GMulti k gs) = (k \<in> {4, 5, 6, 7} \<and> length gs \<le> WKB_MAX_GEOMS \<and> list_all geom_ok gs)"

definition expand :: "dbl \<times> dbl \<Rightarrow> tdb_mbr \<Rightarrow> tdb_mbr" where
  "expand p m =
     (if dbl_isfinite (fst p) \<and> dbl_isfinite (snd p)
      then \<lparr>mbr_xmin = (if dlt (fst p) (mbr_xmin m) then fst p else mbr_xmin m),
            mbr_ymin = (if dlt (snd p) (mbr_ymin m) then snd p else mbr_ymin m),
            mbr_xmax = (if dlt (mbr_xmax m) (fst p) then fst p else mbr_xmax m),
            mbr_ymax = (if dlt (mbr_ymax m) (snd p) then snd p else mbr_ymax m)\<rparr>
      else m)"

lemma uint4korr_le_bytes: "n < 2 ^ 32 \<Longrightarrow> uint4korr (le_bytes 4 n @ r) = n"
  by (simp add: uint4korr_def le_val_le_bytes)

lemma read_point_enc: "wkb_read_point (enc_pt p @ r) m = Some (r, expand p m)"
  by (simp add: wkb_read_point_def enc_pt_def expand_def Let_def)

lemma repeat_enc:
  assumes "\<And>x m r. x \<in> set xs \<Longrightarrow> rd (enc x @ r) m = Some (r, f x m)"
  shows "wkb_repeat rd (length xs) (concat (map enc xs) @ r) m = Some (r, fold f xs m)"
  using assms by (induction xs arbitrary: m) auto

lemma read_sequence_enc:
  assumes "length ps \<le> WKB_MAX_POINTS"
  shows "wkb_read_point_sequence (enc_pts ps @ r) m = Some (r, fold expand ps m)"
proof -
  have "uint4korr (enc_pts ps @ r) = length ps"
    using assms uint4korr_le_bytes [of "length ps" "concat (map enc_pt ps) @ r"]
    by (simp add: enc_pts_def WKB_MAX_POINTS_def)
  moreover have "wkb_repeat wkb_read_point (length ps) (concat (map enc_pt ps) @ r) m =
      Some (r, fold expand ps m)"
    by (rule repeat_enc) (rule read_point_enc)
  ultimately show ?thesis
    using assms
    by (simp add: wkb_read_point_sequence_def Let_def) (simp add: enc_pts_def)
qed

lemma fold_concat_map: "fold (\<lambda>x. fold f (g x)) xs m = fold f (concat (map g xs)) m"
  by (induction xs arbitrary: m) auto

lemma length_in_concat: "x \<in> set xs \<Longrightarrow> length (f x) \<le> length (concat (map f xs))"
  by (induction xs) auto

lemma kind_header:
  assumes "k < 2 ^ 32"
  shows "uint4korr (drop 1 (1 # le_bytes 4 k @ q)) = k" "drop 5 ((1 :: byte) # le_bytes 4 k @ q) = q"
  using uint4korr_le_bytes [OF assms, of q] by simp_all

lemma parse_encode:
  assumes "geom_ok g" "length (wkb_encode g) \<le> fuel"
  shows "wkb_parse_geometry fuel (wkb_encode g @ r) m = Some (r, fold expand (geom_points g) m)"
  using assms
proof (induction g arbitrary: fuel r m)
  case (GPoint p)
  then obtain f where "fuel = Suc f" by (cases fuel) auto
  then show ?case
    using kind_header [of 1 "enc_pt p @ r"] by (simp add: Let_def read_point_enc)
next
  case (GLine ps)
  then obtain f where "fuel = Suc f" by (cases fuel) auto
  then show ?case
    using kind_header [of 2 "enc_pts ps @ r"] GLine by (simp add: Let_def read_sequence_enc)
next
  case (GPolygon rs)
  then obtain f where f: "fuel = Suc f" by (cases fuel) auto
  let ?q = "concat (map enc_pts rs) @ r"
  have "wkb_repeat wkb_read_point_sequence (length rs) ?q m = Some (r, fold (fold expand) rs m)"
    by (rule repeat_enc) (use GPolygon in \<open>auto simp: list_all_iff read_sequence_enc\<close>)
  moreover have "uint4korr (le_bytes 4 (length rs) @ ?q) = length rs"
    using GPolygon by (intro uint4korr_le_bytes) (simp add: WKB_MAX_RINGS_def)
  ultimately show ?case
    using kind_header [of 3 "le_bytes 4 (length rs) @ ?q"] GPolygon f
      fold_concat_map [of expand "\<lambda>x. x" rs m]
    by (simp add: Let_def)
next
  case (GMulti k gs)
  then obtain f where f: "fuel = Suc f" by (cases fuel) auto
  let ?q = "concat (map wkb_encode gs) @ r"
  have "length (wkb_encode g) \<le> f" if "g \<in> set gs" for g
    using length_in_concat [OF that, of wkb_encode] GMulti.prems(2) f by simp
  then have "wkb_repeat (wkb_parse_geometry f) (length gs) ?q m =
      Some (r, fold (\<lambda>g. fold expand (geom_points g)) gs m)"
    by (intro repeat_enc) (use GMulti in \<open>auto simp: list_all_iff\<close>)
  moreover have "uint4korr (le_bytes 4 (length gs) @ ?q) = length gs"
    using GMulti.prems(1) by (intro uint4korr_le_bytes) (simp add: WKB_MAX_GEOMS_def)
  moreover have "k < 2 ^ 32" "k \<notin> {1, 2, 3}" "k \<in> {4, 5, 6, 7}" using GMulti.prems(1) by auto
  ultimately show ?case
    using kind_header [of k "le_bytes 4 (length gs) @ ?q"] GMulti.prems f
    by (simp add: Let_def fold_concat_map)
qed

text \<open>The fold of \<open>expand\<close> is the bounding rectangle.\<close>

definition finite_points :: "geom \<Rightarrow> (dbl \<times> dbl) list" where
  "finite_points g = filter (\<lambda>p. dbl_isfinite (fst p) \<and> dbl_isfinite (snd p)) (geom_points g)"

lemma finite_not_nan: "dbl_isfinite d \<Longrightarrow> \<not> dbl_nan d"
  by (simp add: dbl_isfinite_def dbl_nan_def)

lemma fold_expand_filter:
  "fold expand ps m = fold expand (filter (\<lambda>p. dbl_isfinite (fst p) \<and> dbl_isfinite (snd p)) ps) m"
proof (induction ps arbitrary: m)
  case (Cons p ps)
  show ?case
  proof (cases "dbl_isfinite (fst p) \<and> dbl_isfinite (snd p)")
    case False
    then have "expand p m = m" unfolding expand_def by (simp only: if_False)
    then show ?thesis using Cons False by auto
  qed (use Cons in auto)
qed simp

text \<open>One coordinate at a time: keep the element that is smallest for the key \<open>k\<close>.\<close>

lemma fold_keep_least:
  fixes k :: "dbl \<Rightarrow> int" and co :: "dbl \<times> dbl \<Rightarrow> dbl"
  defines "f \<equiv> \<lambda>p a. if k (co p) < k a then co p else a"
  shows "k (fold f ps a) \<le> k a \<and> (\<forall>p\<in>set ps. k (fold f ps a) \<le> k (co p)) \<and>
    (fold f ps a = a \<or> fold f ps a \<in> co ` set ps)"
proof (induction ps arbitrary: a)
  case (Cons p ps)
  show ?case using Cons [of "f p a"] by (auto simp: f_def split: if_splits)
qed simp

lemma fold_expand_fields:
  assumes "\<forall>p\<in>set ps. dbl_isfinite (fst p) \<and> dbl_isfinite (snd p)"
    and "dbl_isfinite (mbr_xmin m)" "dbl_isfinite (mbr_ymin m)"
    and "dbl_isfinite (mbr_xmax m)" "dbl_isfinite (mbr_ymax m)"
  shows "fold expand ps m = \<lparr>
    mbr_xmin = fold (\<lambda>p a. if dbl_smag (fst p) < dbl_smag a then fst p else a) ps (mbr_xmin m),
    mbr_ymin = fold (\<lambda>p a. if dbl_smag (snd p) < dbl_smag a then snd p else a) ps (mbr_ymin m),
    mbr_xmax = fold (\<lambda>p a. if - dbl_smag (fst p) < - dbl_smag a then fst p else a) ps (mbr_xmax m),
    mbr_ymax = fold (\<lambda>p a. if - dbl_smag (snd p) < - dbl_smag a then snd p else a) ps (mbr_ymax m)\<rparr>"
  using assms
proof (induction ps arbitrary: m)
  case (Cons p ps)
  have lt: "dlt a b \<longleftrightarrow> dbl_smag a < dbl_smag b" if "dbl_isfinite a" "dbl_isfinite b" for a b
    using that by (simp add: dlt_def finite_not_nan)
  have e: "expand p m = \<lparr>
      mbr_xmin = (if dbl_smag (fst p) < dbl_smag (mbr_xmin m) then fst p else mbr_xmin m),
      mbr_ymin = (if dbl_smag (snd p) < dbl_smag (mbr_ymin m) then snd p else mbr_ymin m),
      mbr_xmax = (if dbl_smag (mbr_xmax m) < dbl_smag (fst p) then fst p else mbr_xmax m),
      mbr_ymax = (if dbl_smag (mbr_ymax m) < dbl_smag (snd p) then snd p else mbr_ymax m)\<rparr>"
    unfolding expand_def using Cons.prems by (simp add: lt)
  show ?case
    using Cons.prems Cons.IH [of "expand p m"] by (simp add: e)
qed simp

text \<open>The tightest rectangle around a list of points.\<close>

definition encloses :: "tdb_mbr \<Rightarrow> (dbl \<times> dbl) list \<Rightarrow> bool" where
  "encloses m ps \<longleftrightarrow>
     (\<forall>p\<in>set ps. dle (mbr_xmin m) (fst p) \<and> dle (fst p) (mbr_xmax m) \<and>
                 dle (mbr_ymin m) (snd p) \<and> dle (snd p) (mbr_ymax m)) \<and>
     mbr_xmin m \<in> fst ` set ps \<and> mbr_xmax m \<in> fst ` set ps \<and>
     mbr_ymin m \<in> snd ` set ps \<and> mbr_ymax m \<in> snd ` set ps"

lemma encloses_ordered:
  assumes "encloses m ps"
  shows "dle (mbr_xmin m) (mbr_xmax m)" and "dle (mbr_ymin m) (mbr_ymax m)"
proof -
  obtain p q where "p \<in> set ps" "mbr_xmin m = fst p" "q \<in> set ps" "mbr_ymin m = snd q"
    using assms unfolding encloses_def by auto
  then show "dle (mbr_xmin m) (mbr_xmax m)" "dle (mbr_ymin m) (mbr_ymax m)"
    using assms unfolding encloses_def by simp_all
qed

lemma finite_smag_bounds:
  assumes "dbl_isfinite d"
  shows "dbl_smag d \<le> dbl_smag DBL_MAX" "dbl_smag neg_DBL_MAX \<le> dbl_smag d"
proof -
  have "dbl_smag DBL_MAX = 9218868437227405311" "dbl_smag neg_DBL_MAX = - 9218868437227405311"
    by (simp_all add: dbl_smag_def DBL_MAX_def neg_DBL_MAX_def dbl_mag_def dbl_neg_def)
  then show "dbl_smag d \<le> dbl_smag DBL_MAX" "dbl_smag neg_DBL_MAX \<le> dbl_smag d"
    using assms by (auto simp: dbl_isfinite_def dbl_smag_def [of d])
qed

lemma smag_eq_imp_eq: "dbl_smag a = dbl_smag b \<Longrightarrow> dbl_smag a \<noteq> 0 \<Longrightarrow> a = b"
proof -
  assume eq: "dbl_smag a = dbl_smag b" and nz: "dbl_smag a \<noteq> 0"
  have u: "unat d = (if dbl_neg d then 2 ^ 63 else 0) + dbl_mag d" for d
    using unsigned_less [of d, where ?'a = nat] by (simp add: dbl_neg_def dbl_mag_def le_mod_geq)
  have "dbl_neg a = dbl_neg b" "dbl_mag a = dbl_mag b"
    using eq nz by (auto simp: dbl_smag_def split: if_splits)
  then have "unat a = unat b" using u [of a] u [of b] by simp
  then show "a = b" by (simp only: word_unat_eq_iff)
qed

lemma least_attained:
  fixes k :: "dbl \<Rightarrow> int" and co :: "dbl \<times> dbl \<Rightarrow> dbl"
  assumes "ps \<noteq> []" "\<forall>p\<in>set ps. k (co p) \<le> k a" "\<And>b. k b = k a \<Longrightarrow> b = a"
  shows "fold (\<lambda>p a. if k (co p) < k a then co p else a) ps a \<in> co ` set ps"
proof -
  let ?r = "fold (\<lambda>p a. if k (co p) < k a then co p else a) ps a"
  note l = fold_keep_least [of k co ps a]
  obtain p where p: "p \<in> set ps" using assms(1) by (cases ps) auto
  show ?thesis
  proof (cases "?r \<in> co ` set ps")
    case False
    then have "?r = a" using l by blast
    then have "k a \<le> k (co p)" using l p by metis
    then have "co p = a" using assms(2,3) p by (meson order_antisym)
    then show ?thesis using p \<open>?r = a\<close> by blast
  qed
qed

lemma fold_expand_encloses:
  assumes "\<forall>p\<in>set ps. dbl_isfinite (fst p) \<and> dbl_isfinite (snd p)" "ps \<noteq> []"
  shows "encloses (fold expand ps \<lparr>mbr_xmin = DBL_MAX, mbr_ymin = DBL_MAX,
    mbr_xmax = neg_DBL_MAX, mbr_ymax = neg_DBL_MAX\<rparr>) ps"
proof -
  have nz: "dbl_smag DBL_MAX \<noteq> 0" "dbl_smag neg_DBL_MAX \<noteq> 0" "dbl_isfinite DBL_MAX"
      "dbl_isfinite neg_DBL_MAX"
    by (simp_all add: dbl_smag_def DBL_MAX_def neg_DBL_MAX_def dbl_mag_def dbl_neg_def
        dbl_isfinite_def)
  define lo where "lo co = fold (\<lambda>p a. if dbl_smag (co p) < dbl_smag a then co p else a) ps DBL_MAX"
    for co :: "dbl \<times> dbl \<Rightarrow> dbl"
  define hi where "hi co = fold (\<lambda>p a. if - dbl_smag (co p) < - dbl_smag a then co p else a) ps neg_DBL_MAX"
    for co :: "dbl \<times> dbl \<Rightarrow> dbl"
  have co: "lo co \<in> co ` set ps" "hi co \<in> co ` set ps"
    "\<forall>p\<in>set ps. dbl_smag (lo co) \<le> dbl_smag (co p) \<and> dbl_smag (co p) \<le> dbl_smag (hi co)"
    if "\<forall>p\<in>set ps. dbl_isfinite (co p)" for co
    using that finite_smag_bounds smag_eq_imp_eq nz
      least_attained [OF assms(2), of dbl_smag co DBL_MAX]
      least_attained [OF assms(2), of "\<lambda>d. - dbl_smag d" co neg_DBL_MAX]
      fold_keep_least [of dbl_smag co ps DBL_MAX]
      fold_keep_least [of "\<lambda>d. - dbl_smag d" co ps neg_DBL_MAX]
    unfolding lo_def hi_def by auto
  have fin: "\<forall>p\<in>set ps. dbl_isfinite (fst p)" "\<forall>p\<in>set ps. dbl_isfinite (snd p)"
    using assms(1) by auto
  have "dbl_isfinite d" if "d \<in> fst ` set ps \<or> d \<in> snd ` set ps" for d
    using that assms(1) by auto
  moreover have "fold expand ps \<lparr>mbr_xmin = DBL_MAX, mbr_ymin = DBL_MAX, mbr_xmax = neg_DBL_MAX,
      mbr_ymax = neg_DBL_MAX\<rparr> =
      \<lparr>mbr_xmin = lo fst, mbr_ymin = lo snd, mbr_xmax = hi fst, mbr_ymax = hi snd\<rparr>"
    unfolding lo_def hi_def
    by (subst fold_expand_fields) (use assms(1) nz in simp_all)
  ultimately show ?thesis
    using co [OF fin(1)] co [OF fin(2)] fin by (simp add: encloses_def dle_def finite_not_nan)
qed

section \<open>Merging cells into ranges\<close>

definition in_ranges :: "u64 \<Rightarrow> (u64 \<times> u64) list \<Rightarrow> bool" where
  "in_ranges h rs \<longleftrightarrow> (\<exists>r\<in>set rs. fst r \<le> h \<and> h \<le> snd r)"

lemma in_ranges_Cons: "in_ranges h (r # rs) \<longleftrightarrow> (fst r \<le> h \<and> h \<le> snd r) \<or> in_ranges h rs"
  by (auto simp: in_ranges_def)

lemma join_ranges:
  fixes lo hi l h' h :: u64
  assumes "lo \<le> l" "l \<le> hi + 1"
  shows "(lo \<le> h \<and> h \<le> (if h' > hi then h' else hi)) \<longleftrightarrow> (lo \<le> h \<and> h \<le> hi) \<or> (l \<le> h \<and> h \<le> h')"
proof -
  have "unat (hi + 1) \<le> unat hi + 1"
    by (simp add: unat_word_ariths)
  then have "unat l \<le> unat hi + 1"
    using assms(2) by (simp add: word_le_nat_alt)
  then show ?thesis
    using assms(1) by (auto simp: word_le_nat_alt word_less_nat_alt)
qed

lemma merge_cells_union:
  assumes "sorted (lo # cells)"
  shows "in_ranges h (merge_cells span lo hi cells) \<longleftrightarrow>
    (lo \<le> h \<and> h \<le> hi) \<or> (\<exists>c\<in>set cells. c \<le> h \<and> h \<le> c + span - 1)"
  using assms
proof (induction cells arbitrary: lo hi)
  case Nil
  then show ?case by (simp add: in_ranges_def)
next
  case (Cons c cells)
  show ?case
  proof (cases "c \<le> hi + 1")
    case True
    let ?hi = "if c + span - 1 > hi then c + span - 1 else hi"
    have "in_ranges h (merge_cells span lo ?hi cells) \<longleftrightarrow>
        (lo \<le> h \<and> h \<le> ?hi) \<or> (\<exists>c\<in>set cells. c \<le> h \<and> h \<le> c + span - 1)"
      using Cons.prems by (intro Cons.IH) auto
    moreover have "(lo \<le> h \<and> h \<le> ?hi) \<longleftrightarrow> (lo \<le> h \<and> h \<le> hi) \<or> (c \<le> h \<and> h \<le> c + span - 1)"
      using Cons.prems True by (intro join_ranges) auto
    ultimately show ?thesis using True by (simp add: Let_def)
  next
    case False
    have "in_ranges h (merge_cells span c (c + span - 1) cells) \<longleftrightarrow>
        (c \<le> h \<and> h \<le> c + span - 1) \<or> (\<exists>c\<in>set cells. c \<le> h \<and> h \<le> c + span - 1)"
      using Cons.prems by (intro Cons.IH) auto
    then show ?thesis using False by (simp add: Let_def in_ranges_Cons)
  qed
qed

lemma decompose_union:
  assumes "decomp_cells x0 y0 x1 y1 \<noteq> []"
  shows "in_ranges h (spatial_decompose_ranges x0 y0 x1 y1) \<longleftrightarrow>
    (\<exists>c\<in>set (decomp_cells x0 y0 x1 y1). c \<le> h \<and> h \<le> c + push_bit (2 * decomp_shift) 1 - 1)"
proof -
  obtain c cs where c: "sort (decomp_cells x0 y0 x1 y1) = c # cs"
    using assms by (metis neq_Nil_conv set_empty set_sort)
  moreover have "sorted (c # cs)" using c by (metis sorted_sort)
  moreover have "set (decomp_cells x0 y0 x1 y1) = insert c (set cs)"
    using c by (metis list.simps(15) set_sort)
  ultimately show ?thesis
    by (simp add: spatial_decompose_ranges_def Let_def merge_cells_union del: push_bit_of_1)
qed

text \<open>A point of the query box lies in the square of one of the cells.\<close>

lemma cell_of_point:
  assumes "x0 \<le> x" "x \<le> x1" "y0 \<le> y" "y \<le> y1"
  shows "\<exists>c\<in>set (decomp_cells x0 y0 x1 y1).
    drop_bit (2 * decomp_shift) c = drop_bit (2 * decomp_shift) (hilbert_xy2d_64 x y)"
proof -
  have s: "decomp_shift = 24" by (simp add: decomp_shift_def HILBERT_ORDER_def SPATIAL_DECOMP_BITS_def)
  define g where "g w = unat (drop_bit 24 w)" for w :: u32
  have mono: "g v \<le> g w" if "v \<le> w" for v w
    using that unfolding g_def unat_drop_bit_eq
    by (simp add: drop_bit_eq_div word_le_nat_alt div_le_mono)
  have small: "g w < SPATIAL_DECOMP_N" for w
    using unsigned_less [of w, where ?'a = nat]
    unfolding g_def unat_drop_bit_eq
    by (simp add: drop_bit_eq_div SPATIAL_DECOMP_N_def SPATIAL_DECOMP_BITS_def)
  have corner: "drop_bit 24 (push_bit 24 (word_of_nat (g w)) :: u32) = drop_bit 24 w" for w :: u32
    unfolding g_def by (intro bit_word_eqI) (auto simp: bit_simps dest: bit_imp_le_length)
  let ?c = "hilbert_xy2d_64 (push_bit 24 (word_of_nat (g x))) (push_bit 24 (word_of_nat (g y)))"
  have "set (decomp_cells x0 y0 x1 y1) =
      (\<Union>gx\<in>{g x0..g x1}. (\<lambda>gy. hilbert_xy2d_64 (push_bit 24 (word_of_nat gx))
        (push_bit 24 (word_of_nat gy))) ` {g y0..g y1})"
    using small [of x1] small [of y1]
    by (simp add: decomp_cells_def s Let_def not_le atLeastLessThanSuc_atLeastAtMost del: upt_Suc
        flip: g_def)
  then have "?c \<in> set (decomp_cells x0 y0 x1 y1)"
    using mono [OF assms(1)] mono [OF assms(2)] mono [OF assms(3)] mono [OF assms(4)]
    by (auto intro!: bexI [of _ "g x"])
  moreover have "drop_bit (2 * 24) ?c = drop_bit (2 * 24) (hilbert_xy2d_64 x y)"
    by (subst hilbert_block) (simp_all only: corner)
  ultimately show ?thesis unfolding s by blast
qed

lemma aligned_cell:
  assumes "take_bit 48 c = 0" "drop_bit 48 c = drop_bit 48 (h :: u64)"
  shows "c \<le> h \<and> h \<le> c + push_bit 48 1 - 1"
proof -
  have u: "unat w = unat (drop_bit 48 w) * 2 ^ 48 + unat (take_bit 48 w)" for w :: u64
    unfolding unat_drop_bit_eq unsigned_take_bit_eq
    by (simp only: drop_bit_eq_div take_bit_eq_mod div_mult_mod_eq)
  have t: "unat (take_bit 48 h) < 2 ^ 48"
    unfolding unsigned_take_bit_eq by (simp only: take_bit_eq_mod) simp
  have d: "unat (drop_bit 48 h) < 2 ^ 16"
    using unsigned_less [of h, where ?'a = nat] unfolding unat_drop_bit_eq
    by (simp add: drop_bit_eq_div)
  have c: "unat c = unat (drop_bit 48 h) * 2 ^ 48" using u [of c] assms by simp
  have "c + push_bit 48 1 - 1 = c + 0xFFFFFFFFFFFF" by simp
  moreover have "unat (c + 0xFFFFFFFFFFFF) = unat c + (2 ^ 48 - 1)"
    using c d by (simp add: unat_word_ariths)
  ultimately have "unat (c + push_bit 48 1 - 1) = unat c + (2 ^ 48 - 1)" by (simp only:)
  then show ?thesis using c u [of h] t by (simp add: word_le_nat_alt)
qed

section \<open>Properties\<close>



text \<open>Quantisation keeps the order of coordinates: a smaller double never gets a larger
  32-bit coordinate.\<close>

theorem lex_uint32_monotone:
  assumes "dlt a b"
  shows "double_to_lex_uint32 a \<le> double_to_lex_uint32 b"
  using assms by (rule lex_mono)

text \<open>Merging loses and adds nothing. The ranges computed for a query box cover exactly the
  union of the intervals of its cells, each starting at the position of the cell's corner and
  as long as the number of points of a cell.\<close>

theorem decompose_ranges_union:
  assumes "x0 \<le> x1" "y0 \<le> y1"
  shows "in_ranges h (spatial_decompose_ranges x0 y0 x1 y1) \<longleftrightarrow>
    (\<exists>c\<in>set (decomp_cells x0 y0 x1 y1). c \<le> h \<and> h \<le> c + push_bit (2 * decomp_shift) 1 - 1)"
  by (rule decompose_union) (use cell_of_point [of x0 x0 x1 y0 y0 y1] assms in auto)

text \<open>C30: where the curve enters every cell of the box at the cell's own corner, every point of
  the box is inside one of the ranges, so the range scan reaches every entry whose quantised
  centroid is in the box.\<close>

theorem decompose_covers_aligned:
  assumes "x0 \<le> x" "x \<le> x1" "y0 \<le> y" "y \<le> y1"
    and "\<forall>c\<in>set (decomp_cells x0 y0 x1 y1). take_bit (2 * decomp_shift) c = 0"
  shows "in_ranges (hilbert_xy2d_64 x y) (spatial_decompose_ranges x0 y0 x1 y1)"
proof -
  have s: "2 * decomp_shift = 48"
    by (simp add: decomp_shift_def HILBERT_ORDER_def SPATIAL_DECOMP_BITS_def)
  obtain c where c: "c \<in> set (decomp_cells x0 y0 x1 y1)"
      "drop_bit 48 c = drop_bit 48 (hilbert_xy2d_64 x y)"
    using cell_of_point [OF assms(1-4)] unfolding s by blast
  then have "decomp_cells x0 y0 x1 y1 \<noteq> []" by auto
  then show ?thesis
    using aligned_cell [of c] c assms(5) unfolding decompose_union [OF \<open>_ \<noteq> []\<close>] s by blast
qed

theorem decompose_covers_aligned_witness:
  "in_ranges (hilbert_xy2d_64 0xBFF00000 0xBFF00000)
    (spatial_decompose_ranges 0xBFE00000 0xBFE00000 0xBFF80000 0xBFF80000)"
  by (rule decompose_covers_aligned) (simp_all, code_simp)

text \<open>Where it does not, points are missed. A row with the point \<open>(-1, 1)\<close> is within the box from
  \<open>(-1.5, 0.5)\<close> to \<open>(-0.5, 1.5)\<close>, but its position is in none of the ranges the scan visits
  for that box, because the curve passes through the cell in the other direction.\<close>

definition row_mbr :: tdb_mbr where
  "row_mbr = \<lparr>mbr_xmin = 0xBFF0000000000000, mbr_ymin = 0x3FF0000000000000,
     mbr_xmax = 0xBFF0000000000000, mbr_ymax = 0x3FF0000000000000\<rparr>"

definition query_mbr :: tdb_mbr where
  "query_mbr = \<lparr>mbr_xmin = 0xBFF8000000000000, mbr_ymin = 0x3FE0000000000000,
     mbr_xmax = 0xBFE0000000000000, mbr_ymax = 0x3FF8000000000000\<rparr>"

lemma lex_samples:
  "double_to_lex_uint32 0xBFF0000000000000 = 0x400FFFFF"
  "double_to_lex_uint32 0x3FF0000000000000 = 0xBFF00000"
  "double_to_lex_uint32 0xBFF8000000000000 = 0x4007FFFF"
  "double_to_lex_uint32 0x3FE0000000000000 = 0xBFE00000"
  "double_to_lex_uint32 0xBFE0000000000000 = 0x401FFFFF"
  "double_to_lex_uint32 0x3FF8000000000000 = 0xBFF80000"
  by code_simp+

lemma uncovered_point:
  "\<not> in_ranges (hilbert_xy2d_64 0x400FFFFF 0xBFF00000)
     (spatial_decompose_ranges 0x4007FFFF 0xBFE00000 0x401FFFFF 0xBFF80000)"
  by code_simp

lemma row_within_query: "spatial_mbr_predicate MBR_WITHIN query_mbr row_mbr"
  by (simp add: mbr_within_def query_mbr_def row_mbr_def dle_def
      dbl_nan_def dbl_smag_def dbl_mag_def dbl_neg_def)

theorem decompose_misses_point:
  "spatial_mbr_predicate MBR_WITHIN query_mbr row_mbr \<and>
   \<not> in_ranges
      (hilbert_xy2d_64 (double_to_lex_uint32 (mbr_xmin row_mbr))
         (double_to_lex_uint32 (mbr_ymin row_mbr)))
      (spatial_decompose_ranges
         (double_to_lex_uint32 (mbr_xmin query_mbr)) (double_to_lex_uint32 (mbr_ymin query_mbr))
         (double_to_lex_uint32 (mbr_xmax query_mbr)) (double_to_lex_uint32 (mbr_ymax query_mbr)))"
  using uncovered_point row_within_query by (simp add: row_mbr_def query_mbr_def lex_samples)

text \<open>Zero has two patterns that compare equal and are quantised in the wrong order.\<close>

theorem lex_uint32_signed_zero:
  "dle 0 0x8000000000000000 \<and> double_to_lex_uint32 0x8000000000000000 < double_to_lex_uint32 0"
  by (simp add: dle_def dbl_nan_def dbl_smag_def dbl_mag_def dbl_neg_def double_to_lex_uint32_def
      IEEE754_DOUBLE_SIGN_MASK_def LEX_UINT32_HI_SHIFT_def)

end
