(* ===== verification/Schema.thy ===== *)
theory Schema
  imports TDB_Prelude
begin

text \<open>Table metadata as the handler reads it from the server: fields with their place in the
  record buffer, key parts and keys, and the record buffers themselves as an explicit store, because
  the handler writes null bits to \<open>record[0]\<close> while it writes values to the buffer it was
  given. Field methods of the server that the handler calls (\<open>make_sort_key\<close>, \<open>val_str\<close>,
  \<open>pack\<close>, \<open>unpack\<close>) are parameters of the definitions that use them.\<close>

section \<open>Definitions\<close>

datatype mysql_type =
  MYSQL_TYPE_TINY | MYSQL_TYPE_SHORT | MYSQL_TYPE_INT24 | MYSQL_TYPE_LONG | MYSQL_TYPE_LONGLONG
| MYSQL_TYPE_FLOAT | MYSQL_TYPE_DOUBLE | MYSQL_TYPE_YEAR | MYSQL_TYPE_DATE | MYSQL_TYPE_NEWDATE
| MYSQL_TYPE_DATETIME | MYSQL_TYPE_DATETIME2 | MYSQL_TYPE_TIMESTAMP | MYSQL_TYPE_TIMESTAMP2
| MYSQL_TYPE_TIME2 | MYSQL_TYPE_STRING | MYSQL_TYPE_VARCHAR | MYSQL_TYPE_BLOB | MYSQL_TYPE_OTHER

datatype charset = my_charset_bin | my_charset_latin1 | other_charset

text \<open>One \<open>Field\<close>. \<open>fd_offset\<close> is \<open>field_ptr() - record[0]\<close>; a nullable field has the byte
  offset and the bit number of its null bit; \<open>fd_blob\<close> is the BLOB flag.\<close>

record field =
  fd_type :: mysql_type
  fd_real_type :: mysql_type
  fd_offset :: nat
  fd_pack_length :: nat
  fd_field_length :: nat
  fd_null :: "(nat \<times> nat) option"
  fd_unsigned :: bool
  fd_charset :: charset
  fd_blob :: bool

definition fd_nullable :: "field \<Rightarrow> bool" where "fd_nullable f = (fd_null f \<noteq> None)"

record key_part =
  kp_field :: field
  kp_fieldnr :: nat
  kp_length :: nat
  kp_store_length :: nat

record key_info =
  ki_rtree :: bool
  ki_parts :: "key_part list"

text \<open>The shape of a table: its fields in order, the bytes of its null bitmap, the length of a record
  and the record of column defaults.\<close>

record table_def =
  tb_fields :: "field list"
  tb_null_bytes :: nat
  tb_reclength :: nat
  tb_default_values :: bytes

text \<open>Record buffers.\<close>

datatype rec_id = Rec0 | Rec1 | RecOther

type_synonym rec_store = "rec_id \<Rightarrow> bytes"

definition field_image :: "field \<Rightarrow> bytes \<Rightarrow> bytes" where
  "field_image f r = take (fd_pack_length f) (drop (fd_offset f) r)"

definition put_bytes :: "nat \<Rightarrow> bytes \<Rightarrow> bytes \<Rightarrow> bytes" where
  "put_bytes off img r = take off r @ img @ drop (off + length img) r"

definition is_null :: "field \<Rightarrow> bytes \<Rightarrow> bool" where
  "is_null f r = (case fd_null f of None \<Rightarrow> False | Some (i, b) \<Rightarrow> bit (r ! i) b)"

definition set_null :: "field \<Rightarrow> bytes \<Rightarrow> bytes" where
  "set_null f r = (case fd_null f of None \<Rightarrow> r | Some (i, b) \<Rightarrow> r[i := r ! i OR push_bit b 1])"

definition set_notnull :: "field \<Rightarrow> bytes \<Rightarrow> bytes" where
  "set_notnull f r = (case fd_null f of None \<Rightarrow> r | Some (i, b) \<Rightarrow> r[i := r ! i AND NOT (push_bit b 1)])"

text \<open>Well-formed layouts: a field lies inside a record of the given length, null bits lie in the
  first \<open>nb\<close> bytes, before every field, and two different fields do not overlap.\<close>

definition field_fits :: "nat \<Rightarrow> nat \<Rightarrow> field \<Rightarrow> bool" where
  "field_fits nb len f \<longleftrightarrow> nb \<le> fd_offset f \<and> fd_offset f + fd_pack_length f \<le> len \<and>
     (case fd_null f of None \<Rightarrow> True | Some (i, b) \<Rightarrow> i < nb \<and> b < 8)"

definition fields_apart :: "field \<Rightarrow> field \<Rightarrow> bool" where
  "fields_apart f g \<longleftrightarrow> f = g \<or> fd_offset f + fd_pack_length f \<le> fd_offset g \<or>
     fd_offset g + fd_pack_length g \<le> fd_offset f"

section \<open>Lemmas\<close>

lemma length_put_bytes [simp, len_simps]:
  "off + length img \<le> length r \<Longrightarrow> length (put_bytes off img r) = length r"
  by (simp add: put_bytes_def)

lemma length_set_null [simp, len_simps]:
  "length (set_null f r) = length r" "length (set_notnull f r) = length r"
  by (auto simp: set_null_def set_notnull_def split: option.splits)

lemma field_image_length [simp, len_simps]:
  "field_fits nb (length r) f \<Longrightarrow> length (field_image f r) = fd_pack_length f"
  by (auto simp: field_image_def field_fits_def min_def)

lemma field_image_nth:
  "field_image f r = field_image f r'"
  if "length r = length r'"
    "\<And>i. fd_offset f \<le> i \<Longrightarrow> i < fd_offset f + fd_pack_length f \<Longrightarrow> i < length r \<Longrightarrow> r ! i = r' ! i"
  using that by (auto simp: field_image_def intro!: nth_equalityI)

lemma field_image_put_same:
  assumes "fd_offset f + fd_pack_length f \<le> length r" "length img = fd_pack_length f"
  shows "field_image f (put_bytes (fd_offset f) img r) = img"
  using assms by (simp add: field_image_def put_bytes_def)

lemma put_bytes_nth:
  assumes "off + length img \<le> length r" "i < length r"
  shows "put_bytes off img r ! i = (if off \<le> i \<and> i < off + length img then img ! (i - off) else r ! i)"
  using assms by (auto simp: put_bytes_def nth_append)

lemma field_image_put_other:
  assumes "fields_apart f g" "f \<noteq> g" "length img = fd_pack_length g"
    "fd_offset g + fd_pack_length g \<le> length r"
  shows "field_image f (put_bytes (fd_offset g) img r) = field_image f r"
  using assms by (intro field_image_nth) (auto simp: put_bytes_nth fields_apart_def)

lemma field_image_null_bits:
  assumes "field_fits nb n f" "field_fits nb n g"
  shows "field_image f (set_null g r) = field_image f r"
    and "field_image f (set_notnull g r) = field_image f r"
  using assms
  by (auto simp: set_null_def set_notnull_def field_fits_def split: option.splits
      intro!: field_image_nth)

lemma is_null_set [simp]:
  assumes "field_fits nb (length r) f" "nb \<le> length r"
  shows "is_null f (set_null f r) \<longleftrightarrow> fd_nullable f" and "\<not> is_null f (set_notnull f r)"
  using assms
  by (auto simp: is_null_def set_null_def set_notnull_def field_fits_def fd_nullable_def bit_simps
      split: option.splits)

lemma not_nullable_not_null [simp]: "\<not> fd_nullable f \<Longrightarrow> \<not> is_null f r"
  by (auto simp: fd_nullable_def is_null_def split: option.splits)

lemma is_null_set_notnull: "is_null f (set_notnull g r) \<Longrightarrow> is_null f r"
proof -
  have "bit (r[j := r ! j AND w] ! i) b \<Longrightarrow> bit (r ! i) b" for i j b and w :: byte
    by (cases "i = j"; cases "j < length r") (auto simp: bit_simps list_update_beyond)
  then show "is_null f (set_notnull g r) \<Longrightarrow> is_null f r"
    by (auto simp: is_null_def set_notnull_def split: option.splits prod.splits)
qed

lemma is_null_put_bytes:
  assumes "field_fits nb (length r) f" "field_fits nb (length r) g" "length img = fd_pack_length g"
  shows "is_null f (put_bytes (fd_offset g) img r) = is_null f r"
  using assms by (auto simp: is_null_def field_fits_def put_bytes_nth split: option.splits)

end
