(* ===== verification/Key_Codec.thy ===== *)
theory Key_Codec
  imports Schema Hilbert "HOL-Library.Option_ord"
begin

text \<open>Keys of \<open>ha_tidesdb.cc\<close>: the memcmp-comparable encoding of key columns, primary and
  secondary keys, hidden row ids, and the decoders that read column values back out of index keys
  for covering scans and index condition pushdown. The server's \<open>make_sort_key\<close> and \<open>val_str\<close>
  are parameters; \<open>sort_key_laws\<close> states what the server documents about them.\<close>

section \<open>Definitions\<close>

definition SORT_KEY_NULL :: byte where "SORT_KEY_NULL = 0"
definition SORT_KEY_NOT_NULL :: byte where "SORT_KEY_NOT_NULL = 1"
definition INT_SORT_SIGN_FLIP_MASK :: byte where "INT_SORT_SIGN_FLIP_MASK = 0x80"
definition DATE_PACK_LEN :: nat where "DATE_PACK_LEN = 3"
definition DATETIME_MAX_PACK_LEN :: nat where "DATETIME_MAX_PACK_LEN = 8"
definition KEY_NS_META :: byte where "KEY_NS_META = 0x00"
definition KEY_NS_DATA :: byte where "KEY_NS_DATA = 0x01"

text \<open>The methods of \<open>Field\<close> the key builder calls, on the record image of the field.\<close>

record field_ops =
  make_sort_key :: "field \<Rightarrow> bytes \<Rightarrow> nat \<Rightarrow> bytes"
  val_str :: "field \<Rightarrow> bytes \<Rightarrow> bytes"

definition pad_to :: "nat \<Rightarrow> bytes \<Rightarrow> bytes" where
  "pad_to n s = take n (s @ replicate n 0)"

text \<open>The branch for VARBINARY columns. \<open>data_space\<close> is an unsigned difference: where the part is
  shorter than its length suffix it wraps to almost \<open>2\<^sup>3\<^sup>2\<close> and the zero fill runs over the
  buffer, which is \<open>None\<close> here. Overflow bytes are copied over the start of the length area, and
  what they leave of it keeps the old contents \<open>out\<close> of the buffer.\<close>

definition varbinary_part :: "(nat \<Rightarrow> byte) \<Rightarrow> nat \<Rightarrow> nat \<Rightarrow> bytes \<Rightarrow> bytes option" where
  "varbinary_part out kp_len field_length buf =
     (let len_bytes = (if field_length < 256 then 1 else 2) in
      if kp_len < len_bytes then None
      else let data_space = kp_len - len_bytes;
               data_len = length buf;
               area = pad_to data_space (take data_space buf)
           in if data_space < data_len
              then let overflow = min (data_len - data_space) len_bytes in
                Some (area @ take overflow (drop data_space buf) @
                      map (\<lambda>i. out (data_space + i)) [overflow..<len_bytes])
              else Some (area @ (if len_bytes = 1 then [word_of_nat data_len]
                                 else be_bytes 2 (data_len mod 2 ^ 16))))"

definition is_varbinary :: "field \<Rightarrow> bool" where
  "is_varbinary f = (fd_type f = MYSQL_TYPE_VARCHAR \<and> fd_charset f = my_charset_bin)"

definition shift_out :: "nat \<Rightarrow> (nat \<Rightarrow> byte) \<Rightarrow> nat \<Rightarrow> byte" where
  "shift_out n out i = out (n + i)"

definition comparable_part :: "field_ops \<Rightarrow> (nat \<Rightarrow> byte) \<Rightarrow> bytes \<Rightarrow> key_part \<Rightarrow> bytes option" where
  "comparable_part ops out rec kp =
     (let f = kp_field kp; img = field_image f rec in
      if fd_nullable f \<and> is_null f rec
      then Some (SORT_KEY_NULL # replicate (kp_length kp) 0)
      else let mark = (if fd_nullable f then [SORT_KEY_NOT_NULL] else []) in
        map_option ((@) mark)
          (if is_varbinary f
           then varbinary_part (shift_out (length mark) out) (kp_length kp) (fd_field_length f)
                  (val_str ops f img)
           else Some (pad_to (kp_length kp) (make_sort_key ops f img (kp_length kp)))))"

primrec comparable_parts :: "field_ops \<Rightarrow> (nat \<Rightarrow> byte) \<Rightarrow> bytes \<Rightarrow> key_part list \<Rightarrow> bytes option" where
  "comparable_parts ops out rec [] = Some []"
| "comparable_parts ops out rec (kp # kps) =
     (case comparable_part ops out rec kp of
        None \<Rightarrow> None
      | Some b \<Rightarrow> map_option ((@) b) (comparable_parts ops (shift_out (length b) out) rec kps))"

text \<open>\<open>make_comparable_key(key_info, record, num_parts, out)\<close> returns the bytes it wrote.\<close>

definition make_comparable_key ::
  "field_ops \<Rightarrow> key_info \<Rightarrow> bytes \<Rightarrow> nat \<Rightarrow> (nat \<Rightarrow> byte) \<Rightarrow> bytes option" where
  "make_comparable_key ops ki rec num_parts out =
     comparable_parts ops out rec (take num_parts (ki_parts ki))"

definition comparable_key_length :: "key_info \<Rightarrow> nat" where
  "comparable_key_length ki =
     (if ki_rtree ki then SPATIAL_HILBERT_KEY_LEN
      else foldl (\<lambda>len kp. (if fd_nullable (kp_field kp) then Suc len else len) + kp_length kp) 0
        (ki_parts ki))"

text \<open>Search keys: the server's \<open>key_restore\<close> unpacks the key image into a scratch record.\<close>

fun parts_covered :: "key_part list \<Rightarrow> nat \<Rightarrow> nat \<Rightarrow> nat" where
  "parts_covered [] len key_len = 0"
| "parts_covered (kp # kps) len key_len =
     (if key_len < len + kp_store_length kp then 0
      else Suc (parts_covered kps (len + kp_store_length kp) key_len))"

definition key_copy_to_comparable ::
  "field_ops \<Rightarrow> (bytes \<Rightarrow> bytes \<Rightarrow> key_info \<Rightarrow> nat \<Rightarrow> bytes) \<Rightarrow> key_info \<Rightarrow> bytes \<Rightarrow> bytes \<Rightarrow> nat \<Rightarrow>
    (nat \<Rightarrow> byte) \<Rightarrow> bytes option" where
  "key_copy_to_comparable ops key_restore ki scratch key_buf key_len out =
     (let rec = key_restore scratch key_buf ki key_len;
          parts = parts_covered (ki_parts ki) 0 key_len
      in make_comparable_key ops ki rec (if parts = 0 then 1 else parts) out)"

text \<open>Primary and secondary keys; \<open>pk\<close> is the primary key of the table, absent for hidden row
  ids, whose bytes are those of the current row.\<close>

definition pk_from_record ::
  "field_ops \<Rightarrow> key_info option \<Rightarrow> bytes \<Rightarrow> bytes \<Rightarrow> (nat \<Rightarrow> byte) \<Rightarrow> bytes option" where
  "pk_from_record ops pk current_pk rec out =
     (case pk of
        Some ki \<Rightarrow> make_comparable_key ops ki rec (length (ki_parts ki)) out
      | None \<Rightarrow> Some current_pk)"

definition sec_idx_key ::
  "field_ops \<Rightarrow> key_info option \<Rightarrow> bytes \<Rightarrow> key_info \<Rightarrow> bytes \<Rightarrow> (nat \<Rightarrow> byte) \<Rightarrow> bytes option" where
  "sec_idx_key ops pk current_pk ki rec out =
     (case make_comparable_key ops ki rec (length (ki_parts ki)) out of
        None \<Rightarrow> None
      | Some k \<Rightarrow> map_option ((@) k) (pk_from_record ops pk current_pk rec (shift_out (length k) out)))"

definition build_data_key :: "bytes \<Rightarrow> bytes" where "build_data_key pk = KEY_NS_DATA # pk"

definition is_data_key :: "bytes \<Rightarrow> bool" where
  "is_data_key key = (0 < length key \<and> key ! 0 = KEY_NS_DATA)"

definition encode_be64 :: "u64 \<Rightarrow> bytes" where
  "encode_be64 i = map (\<lambda>k. ucast (drop_bit ((8 - 1 - k) * 8) i)) [0..<8]"

definition decode_be64 :: "bytes \<Rightarrow> u64" where
  "decode_be64 buf = foldl (\<lambda>h b. push_bit 8 h OR ucast b) 0 (take 8 buf)"

subsection \<open>Decoding index keys\<close>

definition decode_int_sort_key :: "bytes \<Rightarrow> nat \<Rightarrow> bool \<Rightarrow> bytes option" where
  "decode_int_sort_key src sort_len is_signed =
     (if sort_len = 0 \<or> (4 < sort_len \<and> sort_len \<noteq> 8) then None
      else let to = map (\<lambda>i. src ! (sort_len - 1 - i)) [0..<sort_len] in
        Some (if is_signed
              then to[sort_len - 1 := to ! (sort_len - 1) XOR INT_SORT_SIGN_FLIP_MASK] else to))"

text \<open>The bytes \<open>decode_sort_key_part\<close> writes at the field's place.\<close>

fun decode_sort_key_bytes :: "bytes \<Rightarrow> nat \<Rightarrow> field \<Rightarrow> bytes option" where
  "decode_sort_key_bytes src sort_len f =
     (case fd_real_type f of
        MYSQL_TYPE_TINY \<Rightarrow> decode_int_sort_key src sort_len (\<not> fd_unsigned f)
      | MYSQL_TYPE_SHORT \<Rightarrow> decode_int_sort_key src sort_len (\<not> fd_unsigned f)
      | MYSQL_TYPE_INT24 \<Rightarrow> decode_int_sort_key src sort_len (\<not> fd_unsigned f)
      | MYSQL_TYPE_LONG \<Rightarrow> decode_int_sort_key src sort_len (\<not> fd_unsigned f)
      | MYSQL_TYPE_LONGLONG \<Rightarrow> decode_int_sort_key src sort_len (\<not> fd_unsigned f)
      | MYSQL_TYPE_YEAR \<Rightarrow> Some [src ! 0]
      | MYSQL_TYPE_DATE \<Rightarrow> if sort_len = DATE_PACK_LEN then Some (rev (take sort_len src)) else None
      | MYSQL_TYPE_NEWDATE \<Rightarrow> if sort_len = DATE_PACK_LEN then Some (rev (take sort_len src)) else None
      | MYSQL_TYPE_DATETIME \<Rightarrow> if sort_len \<le> DATETIME_MAX_PACK_LEN then Some (rev (take sort_len src)) else None
      | MYSQL_TYPE_DATETIME2 \<Rightarrow> if sort_len \<le> DATETIME_MAX_PACK_LEN then Some (rev (take sort_len src)) else None
      | MYSQL_TYPE_TIMESTAMP \<Rightarrow> if sort_len \<le> DATETIME_MAX_PACK_LEN then Some (rev (take sort_len src)) else None
      | MYSQL_TYPE_TIMESTAMP2 \<Rightarrow> if sort_len \<le> DATETIME_MAX_PACK_LEN then Some (rev (take sort_len src)) else None
      | MYSQL_TYPE_STRING \<Rightarrow>
          if fd_charset f = my_charset_bin \<or> fd_charset f = my_charset_latin1
          then let flen = fd_pack_length f; copy_len = (if sort_len < flen then sort_len else flen)
               in Some (take copy_len src @ replicate (flen - copy_len) 0x20)
          else None
      | _ \<Rightarrow> None)"

definition decode_sort_key_part :: "bytes \<Rightarrow> nat \<Rightarrow> field \<Rightarrow> bytes \<Rightarrow> bytes option" where
  "decode_sort_key_part src sort_len f buf =
     map_option (\<lambda>img. put_bytes (fd_offset f) img buf) (decode_sort_key_bytes src sort_len f)"

text \<open>One pass over key parts, shared by the covering scan (which decodes the columns of the
  read set) and index condition pushdown (which decodes all). Null bits go to \<open>record[0]\<close>.\<close>

fun decode_key_parts :: "rec_id \<Rightarrow> (nat \<Rightarrow> bool) \<Rightarrow> key_part list \<Rightarrow> bytes \<Rightarrow> rec_store \<Rightarrow> bool \<times> rec_store" where
  "decode_key_parts b rs [] ik st = (True, st)"
| "decode_key_parts b rs (kp # kps) ik st =
     (let f = kp_field kp in
      if fd_nullable f \<and> ik = [] then (False, st)
      else if fd_nullable f \<and> hd ik = 0
      then decode_key_parts b rs kps (tl ik) (st(Rec0 := set_null f (st Rec0)))
      else
        let ik' = (if fd_nullable f then tl ik else ik);
            st' = (if fd_nullable f then st(Rec0 := set_notnull f (st Rec0)) else st)
        in if length ik' < kp_length kp then (False, st')
           else if rs (kp_fieldnr kp - 1)
           then (case decode_sort_key_part ik' (kp_length kp) f (st' b) of
                   None \<Rightarrow> (False, st')
                 | Some r \<Rightarrow> decode_key_parts b rs kps (drop (kp_length kp) ik') (st'(b := r)))
           else decode_key_parts b rs kps (drop (kp_length kp) ik') st')"

text \<open>The covering scan. \<open>read_set\<close> lists the columns the statement reads, \<open>cover\<close> is the
  coverage bitmap of the index. The result also carries the bytes of the current primary key.\<close>

definition try_keyread_from_index ::
  "key_info option \<Rightarrow> nat \<Rightarrow> bool list \<Rightarrow> nat list \<Rightarrow> key_info \<Rightarrow> rec_id \<Rightarrow> bytes \<Rightarrow> bytes \<Rightarrow> rec_store \<Rightarrow>
    bool \<times> rec_store \<times> bytes" where
  "try_keyread_from_index pk idx_col_len cover read_set idx_key b ik cur st =
     (case pk of
        None \<Rightarrow> (False, st, cur)
      | Some pk_key \<Rightarrow>
          if list_ex (\<lambda>c. length cover \<le> c \<or> \<not> cover ! c) read_set then (False, st, cur)
          else (case decode_key_parts b (\<lambda>c. c \<in> set read_set) (ki_parts idx_key) ik st of
                  (False, st1) \<Rightarrow> (False, st1, cur)
                | (True, st1) \<Rightarrow>
                    (case decode_key_parts b (\<lambda>c. c \<in> set read_set) (ki_parts pk_key) (drop idx_col_len ik) st1 of
                       (False, st2) \<Rightarrow> (False, st2, cur)
                     | (True, st2) \<Rightarrow> (True, st2, drop idx_col_len ik))))"

definition cover_of :: "nat \<Rightarrow> key_info list \<Rightarrow> bool list \<Rightarrow> bool list" where
  "cover_of nfields kis init =
     foldl (\<lambda>c kp. if 0 < kp_fieldnr kp \<and> kp_fieldnr kp - 1 < nfields then c[kp_fieldnr kp - 1 := True] else c)
       init (concat (map ki_parts kis))"

definition idx_cover :: "nat \<Rightarrow> key_info option \<Rightarrow> bool \<Rightarrow> key_info \<Rightarrow> bool list" where
  "idx_cover nfields pk is_pk ki =
     cover_of nfields ([ki] @ (case pk of Some p \<Rightarrow> if is_pk then [] else [p] | None \<Rightarrow> []))
       (replicate nfields False)"

text \<open>Index condition pushdown. \<open>fetch\<close> is the row fetch by primary key, \<open>killed\<close>, \<open>range_cmp\<close>
  and \<open>cond\<close> are the server's kill flag, end-range comparison and pushed condition, which read
  the record buffers.\<close>

datatype check_result = CHECK_NEG | CHECK_POS | CHECK_OUT_OF_RANGE

definition icp_evaluate ::
  "bool \<Rightarrow> (rec_store \<Rightarrow> int) option \<Rightarrow> (rec_store \<Rightarrow> bool) \<Rightarrow> rec_store \<Rightarrow> check_result" where
  "icp_evaluate killed range_cmp cond st =
     (if killed then CHECK_NEG
      else if (case range_cmp of Some c \<Rightarrow> 0 < c st | None \<Rightarrow> False) then CHECK_OUT_OF_RANGE
      else if \<not> cond st then CHECK_NEG
      else CHECK_POS)"

definition icp_check_secondary ::
  "bool \<Rightarrow> key_info option \<Rightarrow> nat \<Rightarrow> key_info \<Rightarrow> (bytes \<Rightarrow> rec_store \<Rightarrow> bool \<times> rec_store) \<Rightarrow>
   bool \<Rightarrow> (rec_store \<Rightarrow> int) option \<Rightarrow> (rec_store \<Rightarrow> bool) \<Rightarrow> rec_id \<Rightarrow> bytes \<Rightarrow> rec_store \<Rightarrow>
   check_result \<times> rec_store" where
  "icp_check_secondary pushed pk idx_col_len idx_key fetch killed range_cmp cond b ik st =
     (if \<not> pushed then (CHECK_POS, st)
      else
        let (ok1, st1) = decode_key_parts b (\<lambda>_. True) (ki_parts idx_key) ik st;
            (ok2, st2) = (case pk of
               Some pk_key \<Rightarrow>
                 if ok1 then decode_key_parts b (\<lambda>_. True) (ki_parts pk_key) (drop idx_col_len ik) st1
                 else (False, st1)
             | None \<Rightarrow> (ok1, st1))
        in if ok2 then (icp_evaluate killed range_cmp cond st2, st2)
           else if idx_col_len < length ik
           then (case fetch (drop idx_col_len ik) st2 of
                   (False, st3) \<Rightarrow> (CHECK_POS, st3)
                 | (True, st3) \<Rightarrow> (icp_evaluate killed range_cmp cond st3, st3))
           else (CHECK_POS, st2))"

section \<open>Reference: column values and their order\<close>

text \<open>What an index compares: a column is NULL or its sort key, and NULL comes first.\<close>

definition part_val :: "field_ops \<Rightarrow> bytes \<Rightarrow> key_part \<Rightarrow> bytes option" where
  "part_val ops rec kp =
     (let f = kp_field kp in
      if fd_nullable f \<and> is_null f rec then None
      else Some (pad_to (kp_length kp) (make_sort_key ops f (field_image f rec) (kp_length kp))))"

text \<open>Integer columns: the stored little-endian two's complement number, and the sort key the
  server documents for it, big-endian with the sign bit flipped.\<close>

definition is_int_type :: "mysql_type \<Rightarrow> bool" where
  "is_int_type t = (t \<in> {MYSQL_TYPE_TINY, MYSQL_TYPE_SHORT, MYSQL_TYPE_INT24, MYSQL_TYPE_LONG, MYSQL_TYPE_LONGLONG})"

definition int_image :: "bool \<Rightarrow> bytes \<Rightarrow> int" where
  "int_image uns img =
     (let n = int (le_val img); w = 8 * length img in
      if uns \<or> n < 2 ^ (w - 1) then n else n - 2 ^ w)"

definition int_col :: "bytes \<Rightarrow> key_part \<Rightarrow> int option" where
  "int_col rec kp =
     (let f = kp_field kp in
      if fd_nullable f \<and> is_null f rec then None
      else Some (int_image (fd_unsigned f) (field_image f rec)))"

definition int_sort_key :: "bool \<Rightarrow> bytes \<Rightarrow> bytes" where
  "int_sort_key uns img =
     (case rev img of [] \<Rightarrow> [] | b # bs \<Rightarrow> (if uns then b else b XOR 0x80) # bs)"

definition int_sort_law :: "field_ops \<Rightarrow> bool" where
  "int_sort_law ops \<longleftrightarrow>
     (\<forall>f img. is_int_type (fd_real_type f) \<and> length img = fd_pack_length f \<longrightarrow>
        make_sort_key ops f img (fd_pack_length f) = int_sort_key (fd_unsigned f) img)"

definition int_part :: "nat \<Rightarrow> nat \<Rightarrow> key_part \<Rightarrow> bool" where
  "int_part nb len kp \<longleftrightarrow> is_int_type (fd_real_type (kp_field kp)) \<and> \<not> is_varbinary (kp_field kp) \<and>
     field_fits nb len (kp_field kp) \<and> kp_length kp = fd_pack_length (kp_field kp) \<and>
     0 < kp_length kp"

section \<open>Comparable keys\<close>

lemma length_pad_to [simp, len_simps]: "length (pad_to n s) = n"
  by (simp add: pad_to_def)

lemma pad_to_exact: "length s = n \<Longrightarrow> pad_to n s = s"
  by (simp add: pad_to_def)

lemma varbinary_part_length: "varbinary_part out n fl buf = Some b \<Longrightarrow> length b = n"
  by (auto simp: varbinary_part_def Let_def split: if_splits)

lemma comparable_part_length:
  "comparable_part ops out rec kp = Some b \<Longrightarrow>
   length b = (if fd_nullable (kp_field kp) then 1 else 0) + kp_length kp"
  by (auto simp: comparable_part_def Let_def dest: varbinary_part_length split: if_splits)

lemma comparable_parts_length:
  "comparable_parts ops out rec kps = Some k \<Longrightarrow>
   length k = (\<Sum>kp\<leftarrow>kps. (if fd_nullable (kp_field kp) then 1 else 0) + kp_length kp)"
  by (induction kps arbitrary: out k)
    (auto split: option.splits dest!: comparable_part_length)

lemma comparable_key_length_sum:
  "\<not> ki_rtree ki \<Longrightarrow> comparable_key_length ki =
     (\<Sum>kp\<leftarrow>ki_parts ki. (if fd_nullable (kp_field kp) then 1 else 0) + kp_length kp)"
proof -
  have "foldl (\<lambda>len kp. (if fd_nullable (kp_field kp) then Suc len else len) + kp_length kp) n kps =
    n + (\<Sum>kp\<leftarrow>kps. (if fd_nullable (kp_field kp) then 1 else 0) + kp_length kp)" for n kps
    by (induction kps arbitrary: n) auto
  from this [of 0 "ki_parts ki"] show "\<not> ki_rtree ki \<Longrightarrow> ?thesis"
    by (simp add: comparable_key_length_def)
qed

lemma make_comparable_key_length:
  assumes "make_comparable_key ops ki rec (length (ki_parts ki)) out = Some k" "\<not> ki_rtree ki"
  shows "length k = comparable_key_length ki"
  using assms by (simp add: make_comparable_key_def comparable_parts_length comparable_key_length_sum)

lemma shift_out_simps [simp]:
  "shift_out 0 out = out" "shift_out m (shift_out n out) = shift_out (n + m) out"
  by (auto simp: shift_out_def add.assoc)

lemma append_nil_id [simp]: "(@) [] = (\<lambda>x. x)"
  by auto

lemma comparable_parts_append:
  "comparable_parts ops out rec (xs @ ys) =
     (case comparable_parts ops out rec xs of
        None \<Rightarrow> None
      | Some k \<Rightarrow> map_option ((@) k) (comparable_parts ops (shift_out (length k) out) rec ys))"
  by (induction xs arbitrary: out)
    (auto simp: option.map_comp comp_def option.map_ident intro!: option.map_cong split: option.splits)

text \<open>The search key of a statement that binds the first columns is a prefix of the keys of the
  rows it matches.\<close>

lemma comparable_key_prefix:
  assumes "make_comparable_key ops ki rec m out = Some k" "n \<le> m"
  shows "\<exists>p. make_comparable_key ops ki rec n out = Some p \<and> prefix p k"
proof -
  have t: "take m (ki_parts ki) = take n (ki_parts ki) @ drop n (take m (ki_parts ki))"
    using append_take_drop_id [of n "take m (ki_parts ki)"] assms(2) by (simp add: min_absorb1)
  have "comparable_parts ops out rec (take n (ki_parts ki) @ drop n (take m (ki_parts ki))) = Some k"
    using assms(1) unfolding make_comparable_key_def by (simp only: t [symmetric])
  then obtain p q where "comparable_parts ops out rec (take n (ki_parts ki)) = Some p" "k = p @ q"
    unfolding comparable_parts_append by (auto simp del: append_nil_id split: option.splits)
  then show ?thesis unfolding make_comparable_key_def by simp
qed

lemma comparable_part_val:
  "\<not> is_varbinary (kp_field kp) \<Longrightarrow> comparable_part ops out rec kp =
     Some (case part_val ops rec kp of
        None \<Rightarrow> SORT_KEY_NULL # replicate (kp_length kp) 0
      | Some v \<Rightarrow> (if fd_nullable (kp_field kp) then [SORT_KEY_NOT_NULL] else []) @ v)"
  by (auto simp: comparable_part_def part_val_def Let_def)

lemma comparable_parts_Some:
  "\<forall>kp\<in>set kps. \<not> is_varbinary (kp_field kp) \<Longrightarrow> \<exists>k. comparable_parts ops out rec kps = Some k"
  by (induction kps arbitrary: out) (auto simp: comparable_part_val)

lemma part_val_length: "part_val ops rec kp = Some v \<Longrightarrow> length v = kp_length kp"
  by (auto simp: part_val_def Let_def split: if_splits)

lemma comparable_part_less:
  assumes "\<not> is_varbinary (kp_field kp)"
    "comparable_part ops o1 r1 kp = Some a" "comparable_part ops o2 r2 kp = Some b"
  shows "a < b \<longleftrightarrow> part_val ops r1 kp < part_val ops r2 kp"
    and "a = b \<longleftrightarrow> part_val ops r1 kp = part_val ops r2 kp"
proof -
  have n: "part_val ops r kp = None \<Longrightarrow> fd_nullable (kp_field kp)" for r
    by (auto simp: part_val_def Let_def split: if_splits)
  show "a < b \<longleftrightarrow> part_val ops r1 kp < part_val ops r2 kp"
    using assms(2,3) n [of r1] n [of r2] unfolding comparable_part_val [OF assms(1)]
    by (auto simp: SORT_KEY_NULL_def SORT_KEY_NOT_NULL_def split: option.splits if_splits)
  show "a = b \<longleftrightarrow> part_val ops r1 kp = part_val ops r2 kp"
    using assms(2,3) n [of r1] n [of r2] unfolding comparable_part_val [OF assms(1)]
    by (auto simp: SORT_KEY_NULL_def SORT_KEY_NOT_NULL_def split: option.splits if_splits)
qed

lemma comparable_parts_less:
  assumes "\<forall>kp\<in>set kps. \<not> is_varbinary (kp_field kp)"
    "comparable_parts ops o1 r1 kps = Some a" "comparable_parts ops o2 r2 kps = Some b"
  shows "a < b \<longleftrightarrow> map (part_val ops r1) kps < map (part_val ops r2) kps"
  using assms
proof (induction kps arbitrary: o1 o2 a b)
  case (Cons kp kps)
  obtain x xs y ys where
      x: "comparable_part ops o1 r1 kp = Some x" "comparable_parts ops (shift_out (length x) o1) r1 kps = Some xs"
    and y: "comparable_part ops o2 r2 kp = Some y" "comparable_parts ops (shift_out (length y) o2) r2 kps = Some ys"
    and ab: "a = x @ xs" "b = y @ ys"
    using Cons.prems(2,3) by (auto split: option.splits)
  have "length x = length y" using x(1) y(1) by (simp add: comparable_part_length)
  then have "a < b \<longleftrightarrow> x < y \<or> x = y \<and> xs < ys" unfolding ab by (rule append_less_same_length)
  then show ?case
    using comparable_part_less [OF _ x(1) y(1)] Cons.IH [OF _ x(2) y(2)] Cons.prems(1) by simp
qed simp

section \<open>Integer columns\<close>

lemma unat_flip_sign: "unat (b XOR 0x80 :: byte) = (unat b + 128) mod 256"
proof -
  have "list_all (\<lambda>n. unat (word_of_nat n XOR 0x80 :: byte) = (n + 128) mod 256) [0..<256]"
    by code_simp
  then have "\<forall>n\<in>{0..<256}. unat (word_of_nat n XOR 0x80 :: byte) = (n + 128) mod 256"
    by (simp only: list_all_iff set_upt)
  from bspec [OF this, of "unat b"] show ?thesis using unat_byte_lt [of b] by simp
qed

lemma le_val_append_last: "le_val (bs @ [b]) = le_val bs + 256 ^ length bs * unat b"
  by (induction bs) (simp_all add: algebra_simps)

lemma be_val_rev: "be_val (rev bs) = le_val bs"
proof (induction bs)
  case (Cons b bs)
  then show ?case by (simp add: be_val_append)
qed simp

lemma length_int_sort_key [simp, len_simps]: "length (int_sort_key u img) = length img"
proof (cases "rev img")
  case (Cons b bs)
  then have "length img = Suc (length bs)" by (metis length_rev length_Cons)
  then show ?thesis using Cons by (simp add: int_sort_key_def)
qed (simp add: int_sort_key_def)

lemma be_val_int_sort_key:
  assumes "img \<noteq> []"
  shows "int (be_val (int_sort_key u img)) =
    int_image u img + (if u then 0 else 2 ^ (8 * length img - 1))"
proof -
  obtain bs b where img: "img = bs @ [b]" using assms by (metis rev_exhaust)
  define N where "N = (256 :: nat) ^ length bs"
  define B where "B = unat b"
  have l: "le_val bs < N" using le_val_bound [of bs] by (simp add: N_def)
  have n: "le_val img = le_val bs + N * unat b" by (simp add: img le_val_append_last N_def)
  have w: "(2 :: nat) ^ (8 * length img - 1) = 128 * N"
  proof -
    have "8 * length img - 1 = 7 + 8 * length bs" by (simp add: img)
    then show ?thesis by (simp add: power_add power_mult N_def)
  qed
  have w2: "(2 :: int) ^ (8 * length img) = 256 * int N"
    by (simp add: img power_add power_mult N_def)
  have w1: "(2 :: int) ^ (8 * length img - 1) = 128 * int N"
    using arg_cong [OF w, of int] by simp
  have k: "be_val (int_sort_key u img) =
      (if u then unat b else (unat b + 128) mod 256) * N + le_val bs"
    by (simp add: int_sort_key_def img be_val_rev unat_flip_sign N_def)
  have small: "int (le_val img) < 128 * int N \<longleftrightarrow> unat b < 128"
  proof -
    have "le_val img < 128 * N \<longleftrightarrow> unat b < 128"
    proof
      assume "unat b < 128"
      then have "N * unat b \<le> N * 127" by simp
      then show "le_val img < 128 * N" using l n by linarith
    next
      assume "le_val img < 128 * N"
      then have "N * unat b < N * 128" using n by linarith
      then show "unat b < 128" by simp
    qed
    then show ?thesis by linarith
  qed
  have v: "int_image u img =
      (if u \<or> unat b < 128 then int (le_val img) else int (le_val img) - 256 * int N)"
    by (simp only: int_image_def Let_def w1 w2 small)
  have "(B + 128) mod 256 = (if B < 128 then B + 128 else B - 128)"
    using unat_byte_lt [of b] mod_add_self2 [of "B - 128" 256] unfolding B_def [symmetric]
    by (cases "B < 128") (simp_all add: add.commute)
  then have e: "be_val (int_sort_key u img) =
      (if u then B else if B < 128 then B + 128 else B - 128) * N + le_val bs"
    by (simp only: k B_def [symmetric])
  show ?thesis
  proof (cases "u \<or> B < 128")
    case True
    then show ?thesis unfolding v w1 e n B_def [symmetric] by (auto simp: algebra_simps)
  next
    case False
    then obtain C where "B = 128 + C" by (metis le_Suc_ex not_less)
    then show ?thesis using False unfolding v w1 e n B_def [symmetric] by (simp add: algebra_simps)
  qed
qed

lemma int_sort_key_less:
  assumes "length a = length b" "a \<noteq> []"
  shows "int_sort_key u a < int_sort_key u b \<longleftrightarrow> int_image u a < int_image u b"
proof -
  have b: "b \<noteq> []" using assms by auto
  have "int_sort_key u a < int_sort_key u b \<longleftrightarrow> be_val (int_sort_key u a) < be_val (int_sort_key u b)"
    using assms(1) by (simp add: be_val_less_iff)
  also have "\<dots> \<longleftrightarrow> int (be_val (int_sort_key u a)) < int (be_val (int_sort_key u b))"
    by (rule of_nat_less_iff [symmetric])
  also have "\<dots> \<longleftrightarrow> int_image u a < int_image u b"
    unfolding be_val_int_sort_key [OF assms(2)] be_val_int_sort_key [OF b] assms(1)
    by (rule add_less_cancel_right)
  finally show ?thesis .
qed

lemma decode_int_sort_key:
  assumes "0 < length img" "length img \<le> 4 \<or> length img = 8"
  shows "decode_int_sort_key (int_sort_key u img @ t) (length img) (\<not> u) = Some img"
proof -
  obtain bs b where img: "img = bs @ [b]" using assms(1) by (metis rev_exhaust length_greater_0_conv)
  have k: "int_sort_key u (bs @ [b]) = (if u then b else b XOR 0x80) # rev bs"
    by (simp add: int_sort_key_def)
  let ?s = "int_sort_key u img @ t"
  let ?to = "map (\<lambda>i. ?s ! (length img - 1 - i)) [0..<length img]"
  have to: "?to = bs @ [if u then b else b XOR 0x80]"
    by (rule nth_equalityI) (auto simp: k img nth_append nth_Cons' rev_nth less_Suc_eq)
  have g: "(length img = 0 \<or> 4 < length img \<and> length img \<noteq> 8) = False" using assms by auto
  show ?thesis
    unfolding decode_int_sort_key_def Let_def to g by (simp add: img INT_SORT_SIGN_FLIP_MASK_def xor.assoc)
qed

lemma part_val_int:
  assumes "int_sort_law ops" "int_part nb (length r1) kp" "length r2 = length r1"
  shows "part_val ops r1 kp < part_val ops r2 kp \<longleftrightarrow> int_col r1 kp < int_col r2 kp"
    and "part_val ops r1 kp = part_val ops r2 kp \<longleftrightarrow> int_col r1 kp = int_col r2 kp"
proof -
  let ?f = "kp_field kp" and ?n = "kp_length kp"
  have l: "length (field_image ?f r) = ?n" if "length r = length r1" for r
    using assms(2) that field_image_length [of nb r ?f] by (simp add: int_part_def)
  have v: "part_val ops r kp =
      (if fd_nullable ?f \<and> is_null ?f r then None else Some (int_sort_key (fd_unsigned ?f) (field_image ?f r)))"
    if "length r = length r1" for r
    using assms(1,2) l [OF that] by (auto simp: part_val_def int_part_def int_sort_law_def Let_def pad_to_exact)
  have ne: "field_image ?f r \<noteq> []" if "length r = length r1" for r
    using l [OF that] assms(2) by (auto simp: int_part_def)
  note cmp = int_sort_key_less [of "field_image ?f r1" "field_image ?f r2" "fd_unsigned ?f"]
    int_sort_key_less [of "field_image ?f r2" "field_image ?f r1" "fd_unsigned ?f"]
  show "part_val ops r1 kp < part_val ops r2 kp \<longleftrightarrow> int_col r1 kp < int_col r2 kp"
    using cmp l ne assms(3) by (auto simp: v int_col_def Let_def)
  show "part_val ops r1 kp = part_val ops r2 kp \<longleftrightarrow> int_col r1 kp = int_col r2 kp"
    using cmp l ne assms(3) by (auto simp: v int_col_def Let_def)
qed

section \<open>Reading columns back\<close>

text \<open>What the server documents for the sort keys of the kinds of column that can be read back:
  integers as above, YEAR as stored, DATE reversed to big-endian, binary CHAR as stored.\<close>

definition sort_key_laws :: "field_ops \<Rightarrow> bool" where
  "sort_key_laws ops \<longleftrightarrow> int_sort_law ops \<and>
     (\<forall>f img. length img = fd_pack_length f \<longrightarrow>
        (fd_real_type f = MYSQL_TYPE_YEAR \<longrightarrow> make_sort_key ops f img (fd_pack_length f) = img) \<and>
        (fd_real_type f = MYSQL_TYPE_NEWDATE \<longrightarrow> make_sort_key ops f img (fd_pack_length f) = rev img) \<and>
        (fd_real_type f = MYSQL_TYPE_STRING \<and> fd_charset f = my_charset_bin \<longrightarrow>
           make_sort_key ops f img (fd_pack_length f) = img))"

definition keyread_part :: "nat \<Rightarrow> nat \<Rightarrow> key_part \<Rightarrow> bool" where
  "keyread_part nb len kp \<longleftrightarrow>
     (let f = kp_field kp; n = kp_length kp in
      \<not> is_varbinary f \<and> field_fits nb len f \<and> n = fd_pack_length f \<and>
      (is_int_type (fd_real_type f) \<and> 0 < n \<and> (n \<le> 4 \<or> n = 8) \<or>
       fd_real_type f = MYSQL_TYPE_YEAR \<and> n = 1 \<or>
       fd_real_type f = MYSQL_TYPE_NEWDATE \<and> n = 3 \<or>
       fd_real_type f = MYSQL_TYPE_STRING \<and> fd_charset f = my_charset_bin))"

lemma decode_sort_key_image:
  assumes "sort_key_laws ops" "keyread_part nb (length rec) kp"
  defines "f \<equiv> kp_field kp" and "n \<equiv> kp_length kp"
  shows "decode_sort_key_bytes (pad_to n (make_sort_key ops f (field_image f rec) n) @ t) n f =
    Some (field_image f rec)"
proof -
  have l: "length (field_image f rec) = n" "n = fd_pack_length f"
    using assms(2) field_image_length [of nb rec f] by (simp_all add: keyread_part_def Let_def f_def n_def)
  have law: "(fd_real_type f = MYSQL_TYPE_YEAR \<longrightarrow> make_sort_key ops f (field_image f rec) n = field_image f rec) \<and>
      (fd_real_type f = MYSQL_TYPE_NEWDATE \<longrightarrow> make_sort_key ops f (field_image f rec) n = rev (field_image f rec)) \<and>
      (fd_real_type f = MYSQL_TYPE_STRING \<and> fd_charset f = my_charset_bin \<longrightarrow>
         make_sort_key ops f (field_image f rec) n = field_image f rec)"
    using l(1) assms(1) unfolding sort_key_laws_def l(2) by blast
  consider (i) "is_int_type (fd_real_type f)" "0 < n" "n \<le> 4 \<or> n = 8"
    | (y) "fd_real_type f = MYSQL_TYPE_YEAR" "n = 1"
    | (d) "fd_real_type f = MYSQL_TYPE_NEWDATE" "n = 3"
    | (s) "fd_real_type f = MYSQL_TYPE_STRING" "fd_charset f = my_charset_bin"
    using assms(2) by (auto simp: keyread_part_def Let_def f_def n_def)
  then show ?thesis
  proof cases
    case i
    then have m: "make_sort_key ops f (field_image f rec) n = int_sort_key (fd_unsigned f) (field_image f rec)"
      using assms(1) l by (auto simp: sort_key_laws_def int_sort_law_def)
    show ?thesis
      using i decode_int_sort_key [of "field_image f rec" "fd_unsigned f" t] l(1)
      unfolding m by (auto simp: pad_to_exact is_int_type_def)
  next
    case y
    then have "make_sort_key ops f (field_image f rec) n = field_image f rec"
      using law by blast
    then show ?thesis using y l(1) by (cases "field_image f rec") (simp_all add: pad_to_exact)
  next
    case d
    then have "make_sort_key ops f (field_image f rec) n = rev (field_image f rec)"
      using law by blast
    then show ?thesis using d l(1) by (simp add: pad_to_exact DATE_PACK_LEN_def)
  next
    case s
    then have "make_sort_key ops f (field_image f rec) n = field_image f rec"
      using law by blast
    then show ?thesis using s l by (simp add: pad_to_exact)
  qed
qed

text \<open>One pass over the parts of a key restores the image of every column it decodes, keeps the
  images already there, and leaves the columns it saw marked not null.\<close>

definition restored :: "field set \<Rightarrow> field set \<Rightarrow> field set \<Rightarrow> bytes \<Rightarrow> rec_id \<Rightarrow> rec_store \<Rightarrow> bool" where
  "restored F V N rec b st \<longleftrightarrow> length (st b) = length rec \<and> length (st Rec0) = length rec \<and>
     V \<subseteq> F \<and> N \<subseteq> F \<and>
     (\<forall>f\<in>V. field_image f (st b) = field_image f rec) \<and> (\<forall>f\<in>N. \<not> is_null f (st Rec0))"

lemma restored_value:
  assumes "restored F V N rec b st" "f \<in> F" "\<forall>g\<in>F. field_fits nb (length rec) g"
    "\<forall>g\<in>F. \<forall>h\<in>F. fields_apart g h"
  shows "restored F (insert f V) N rec b (st(b := put_bytes (fd_offset f) (field_image f rec) (st b)))"
proof -
  have l: "length (field_image f rec) = fd_pack_length f" "fd_offset f + fd_pack_length f \<le> length (st b)"
    using assms by (auto simp: restored_def field_fits_def dest!: bspec [of F _ f])
  have "field_image g (put_bytes (fd_offset f) (field_image f rec) (st b)) = field_image g rec"
    if "g \<in> insert f V" for g
  proof (cases "g = f")
    case True
    then show ?thesis using field_image_put_same [OF l(2) l(1)] by simp
  next
    case False
    then have "fields_apart g f" "field_image g (st b) = field_image g rec"
      using assms that by (auto simp: restored_def)
    then show ?thesis using field_image_put_other [of g f] False l by simp
  qed
  moreover have "\<not> is_null g ((st(b := put_bytes (fd_offset f) (field_image f rec) (st b))) Rec0)" if "g \<in> N" for g
    using that assms is_null_put_bytes [of nb "st b" g f "field_image f rec"] l(1)
    by (auto simp: restored_def)
  ultimately show ?thesis using assms(1,2) l by (auto simp: restored_def)
qed

lemma restored_notnull:
  assumes "restored F V N rec b st" "f \<in> F" "\<forall>g\<in>F. field_fits nb (length rec) g" "nb \<le> length rec"
  shows "restored F V (insert f N) rec b (st(Rec0 := set_notnull f (st Rec0)))"
proof -
  have "field_image g ((st(Rec0 := set_notnull f (st Rec0))) b) = field_image g rec" if "g \<in> V" for g
    using that assms field_image_null_bits(2) [of nb "length rec" g f] by (auto simp: restored_def)
  moreover have "\<not> is_null g (set_notnull f (st Rec0))" if "g \<in> insert f N" for g
    using that assms is_null_set(2) [of nb "st Rec0" f] is_null_set_notnull [of g f "st Rec0"]
    by (auto simp: restored_def)
  ultimately show ?thesis using assms(1,2) by (auto simp: restored_def)
qed

text \<open>The fields a pass over \<open>kps\<close> decodes.\<close>

definition decoded :: "(nat \<Rightarrow> bool) \<Rightarrow> key_part list \<Rightarrow> field set" where
  "decoded rs kps = kp_field ` {kp \<in> set kps. rs (kp_fieldnr kp - 1)}"

definition row_fits :: "nat \<Rightarrow> bytes \<Rightarrow> field set \<Rightarrow> key_part list \<Rightarrow> bool" where
  "row_fits nb rec F kps \<longleftrightarrow> nb \<le> length rec \<and> kp_field ` set kps \<subseteq> F \<and>
     (\<forall>g\<in>F. field_fits nb (length rec) g) \<and> (\<forall>g\<in>F. \<forall>h\<in>F. fields_apart g h) \<and>
     (\<forall>kp\<in>set kps. keyread_part nb (length rec) kp \<and>
        \<not> (fd_nullable (kp_field kp) \<and> is_null (kp_field kp) rec))"

lemma keyread_partD:
  "keyread_part nb n kp \<Longrightarrow> \<not> is_varbinary (kp_field kp) \<and> field_fits nb n (kp_field kp)"
  by (simp add: keyread_part_def Let_def)

lemma decode_key_parts_restores:
  assumes "sort_key_laws ops" "row_fits nb rec F kps"
    "comparable_parts ops out rec kps = Some k" "restored F V N rec b st"
  shows "\<exists>st'. decode_key_parts b rs kps (k @ t) st = (True, st') \<and>
    restored F (V \<union> decoded rs kps) (N \<union> {f \<in> kp_field ` set kps. fd_nullable f}) rec b st'"
  using assms(2-)
proof (induction kps arbitrary: out k st V N)
  case Nil
  then show ?case by (auto simp: decoded_def)
next
  case (Cons kp kps)
  let ?f = "kp_field kp" and ?n = "kp_length kp"
  let ?v = "pad_to ?n (make_sort_key ops ?f (field_image ?f rec) ?n)"
  have kp: "keyread_part nb (length rec) kp" "\<not> (fd_nullable ?f \<and> is_null ?f rec)" "?f \<in> F"
    and F: "\<forall>g\<in>F. field_fits nb (length rec) g" "\<forall>g\<in>F. \<forall>h\<in>F. fields_apart g h" "nb \<le> length rec"
    using Cons.prems(1) by (auto simp: row_fits_def)
  have vb: "\<not> is_varbinary ?f" using keyread_partD [OF kp(1)] by simp
  have pv: "part_val ops rec kp = Some ?v" using kp(2) by (simp add: part_val_def Let_def)
  obtain k' out' where k: "k = (if fd_nullable ?f then [SORT_KEY_NOT_NULL] else []) @ ?v @ k'"
      "comparable_parts ops out' rec kps = Some k'"
    using Cons.prems(2) by (auto simp: comparable_part_val [OF vb] pv split: option.splits)
  define st1 where "st1 = (if fd_nullable ?f then st(Rec0 := set_notnull ?f (st Rec0)) else st)"
  define N1 where "N1 = (if fd_nullable ?f then insert ?f N else N)"
  have r1: "restored F V N1 rec b st1"
    using restored_notnull [OF Cons.prems(3) kp(3) F(1) F(3)] Cons.prems(3)
    by (simp add: st1_def N1_def)
  define st2 where "st2 = (if rs (kp_fieldnr kp - 1)
    then st1(b := put_bytes (fd_offset ?f) (field_image ?f rec) (st1 b)) else st1)"
  define V2 where "V2 = (if rs (kp_fieldnr kp - 1) then insert ?f V else V)"
  have r2: "restored F V2 N1 rec b st2"
    using restored_value [OF r1 kp(3) F(1,2)] r1 by (simp add: st2_def V2_def)
  have d: "decode_sort_key_part (?v @ k' @ t) ?n ?f (st1 b) =
      Some (put_bytes (fd_offset ?f) (field_image ?f rec) (st1 b))"
    using decode_sort_key_image [OF assms(1) kp(1)] unfolding decode_sort_key_part_def
    by (simp del: decode_sort_key_bytes.simps)
  have step: "decode_key_parts b rs (kp # kps) (k @ t) st = decode_key_parts b rs kps (k' @ t) st2"
    using d by (cases "fd_nullable ?f"; cases "rs (kp_fieldnr kp - 1)")
      (simp_all add: k(1) Let_def st1_def st2_def SORT_KEY_NOT_NULL_def del: decode_sort_key_bytes.simps)
  have "row_fits nb rec F kps" using Cons.prems(1) by (simp add: row_fits_def)
  moreover have "V2 \<union> decoded rs kps = V \<union> decoded rs (kp # kps)"
      "N1 \<union> {f \<in> kp_field ` set kps. fd_nullable f} = N \<union> {f \<in> kp_field ` set (kp # kps). fd_nullable f}"
    by (auto simp: V2_def N1_def decoded_def)
  ultimately show ?case using Cons.IH [OF _ k(2) r2] unfolding step by simp
qed

lemma cover_of_set:
  assumes "length init = n" "c < n" "init ! c \<or> (\<exists>ki\<in>set kis. \<exists>kp\<in>set (ki_parts ki). kp_fieldnr kp = Suc c)"
  shows "length (cover_of n kis init) = n \<and> cover_of n kis init ! c"
proof -
  let ?g = "\<lambda>cv kp. if 0 < kp_fieldnr kp \<and> kp_fieldnr kp - 1 < n then cv[kp_fieldnr kp - 1 := True] else cv"
  have "length (foldl ?g cv kps) = n \<and> foldl ?g cv kps ! c"
    if "length cv = n" "cv ! c \<or> (\<exists>kp\<in>set kps. kp_fieldnr kp = Suc c)" for cv kps
    using that
  proof (induction kps arbitrary: cv)
    case (Cons kp kps)
    have "length (?g cv kp) = n" using Cons.prems by simp
    moreover have "?g cv kp ! c \<or> (\<exists>kp\<in>set kps. kp_fieldnr kp = Suc c)"
      using Cons.prems assms(2) by (auto simp: nth_list_update)
    ultimately show ?case using Cons.IH by simp
  qed simp
  from this [of init "concat (map ki_parts kis)"] assms(1,3) show ?thesis by (auto simp: cover_of_def)
qed

lemma sec_idx_key_split:
  assumes "sec_idx_key ops pk cur ki rec out = Some k" "\<not> ki_rtree ki"
  obtains a b out' where "k = a @ b" "comparable_parts ops out rec (ki_parts ki) = Some a"
    "length a = comparable_key_length ki" "pk_from_record ops pk cur rec out' = Some b"
  using assms make_comparable_key_length [OF _ assms(2)]
  by (auto simp: sec_idx_key_def make_comparable_key_def split: option.splits)

text \<open>Both passes over a secondary key, index columns and then primary key columns.\<close>

lemma decode_both_restores:
  assumes "sort_key_laws ops" "row_fits nb rec F (ki_parts ki @ ki_parts pk)" "\<not> ki_rtree ki"
    "sec_idx_key ops (Some pk) cur ki rec out = Some k" "length (st b) = length rec"
    "length (st Rec0) = length rec"
  shows "\<exists>st1 st2. decode_key_parts b rs (ki_parts ki) k st = (True, st1) \<and>
    decode_key_parts b rs (ki_parts pk) (drop (comparable_key_length ki) k) st1 = (True, st2) \<and>
    restored F (decoded rs (ki_parts ki @ ki_parts pk))
      {f \<in> kp_field ` set (ki_parts ki @ ki_parts pk). fd_nullable f} rec b st2 \<and>
    (\<exists>out'. pk_from_record ops (Some pk) cur rec out' = Some (drop (comparable_key_length ki) k))"
proof -
  obtain a p out' where k: "k = a @ p" "comparable_parts ops out rec (ki_parts ki) = Some a"
      "length a = comparable_key_length ki" "pk_from_record ops (Some pk) cur rec out' = Some p"
    by (rule sec_idx_key_split [OF assms(4,3)])
  have p: "comparable_parts ops out' rec (ki_parts pk) = Some p"
    using k(4) by (simp add: pk_from_record_def make_comparable_key_def)
  have r: "row_fits nb rec F (ki_parts ki)" "row_fits nb rec F (ki_parts pk)"
    using assms(2) by (auto simp: row_fits_def)
  have "restored F {} {} rec b st" using assms(5,6) by (simp add: restored_def)
  from decode_key_parts_restores [OF assms(1) r(1) k(2) this, of rs p] obtain st1 where
    st1: "decode_key_parts b rs (ki_parts ki) (a @ p) st = (True, st1)"
      "restored F (decoded rs (ki_parts ki)) {f \<in> kp_field ` set (ki_parts ki). fd_nullable f} rec b st1"
    by auto
  from decode_key_parts_restores [OF assms(1) r(2) p st1(2), of rs "[]"] obtain st2 where
    st2: "decode_key_parts b rs (ki_parts pk) p st1 = (True, st2)"
      "restored F (decoded rs (ki_parts ki) \<union> decoded rs (ki_parts pk))
        ({f \<in> kp_field ` set (ki_parts ki). fd_nullable f} \<union>
         {f \<in> kp_field ` set (ki_parts pk). fd_nullable f}) rec b st2"
    by auto
  have "decoded rs (ki_parts ki) \<union> decoded rs (ki_parts pk) = decoded rs (ki_parts ki @ ki_parts pk)"
    "{f \<in> kp_field ` set (ki_parts ki). fd_nullable f} \<union> {f \<in> kp_field ` set (ki_parts pk). fd_nullable f} =
      {f \<in> kp_field ` set (ki_parts ki @ ki_parts pk). fd_nullable f}"
    by (auto simp: decoded_def)
  then show ?thesis using st1 st2 k by (auto simp: k(3) [symmetric])
qed

section \<open>Hidden row ids\<close>

lemma encode_be64_loop: "encode_be64 i = be_loop 8 i"
  by (simp only: encode_be64_def be_loop_def)

lemma decode_be64_fold: "decode_be64 p = be_fold 0 (take 8 p)"
  by (simp only: decode_be64_def be_fold_def)

lemma length_encode_be64 [simp, len_simps]: "length (encode_be64 i) = 8"
  by (simp add: encode_be64_loop be_loop_def)

lemma decode_encode_be64 [simp]: "decode_be64 (encode_be64 i @ t) = i"
  by (simp add: decode_be64_fold, simp add: encode_be64_loop be_fold_be_loop)

interpretation row_id: fixed_codec encode_be64
  "\<lambda>p. if length p = 8 then Some (decode_be64 p) else None" "\<lambda>_. True" 8
  using decode_encode_be64 [of _ "[]"] by unfold_locales auto

interpretation row_id_order: ordered_codec encode_be64 "\<lambda>_. True" 8
  by unfold_locales (simp, simp only: encode_be64_loop, rule be_loop_less_iff, simp)

section \<open>A concrete table\<close>

text \<open>Three integer columns \<open>a\<close> (nullable), \<open>id\<close> and \<open>b\<close>; primary key \<open>(id)\<close>, secondary index
  \<open>(a, b)\<close>. The server's sort keys are those it documents.\<close>

definition ex_ops :: field_ops where
  "ex_ops = \<lparr>make_sort_key = (\<lambda>f img n. if is_int_type (fd_real_type f) then int_sort_key (fd_unsigned f) img
       else if fd_real_type f = MYSQL_TYPE_NEWDATE then rev img else img),
     val_str = (\<lambda>f img. take (unat (img ! 0)) (drop 1 img))\<rparr>"

definition ex_int :: "nat \<Rightarrow> (nat \<times> nat) option \<Rightarrow> field" where
  "ex_int off nl = \<lparr>fd_type = MYSQL_TYPE_LONG, fd_real_type = MYSQL_TYPE_LONG, fd_offset = off,
     fd_pack_length = 4, fd_field_length = 4, fd_null = nl, fd_unsigned = False, fd_charset = my_charset_bin, fd_blob = False\<rparr>"

definition ex_part :: "field \<Rightarrow> nat \<Rightarrow> key_part" where
  "ex_part f n = \<lparr>kp_field = f, kp_fieldnr = n, kp_length = fd_pack_length f,
     kp_store_length = fd_pack_length f + (if fd_nullable f then 1 else 0)\<rparr>"

definition ex_idx :: key_info where
  "ex_idx = \<lparr>ki_rtree = False, ki_parts = [ex_part (ex_int 1 (Some (0, 0))) 1, ex_part (ex_int 9 None) 3]\<rparr>"

definition ex_pk :: key_info where
  "ex_pk = \<lparr>ki_rtree = False, ki_parts = [ex_part (ex_int 5 None) 2]\<rparr>"

text \<open>The rows \<open>(a = -1, id = 7, b = 5)\<close> and \<open>(a = NULL, id = 7, b = 5)\<close>.\<close>

definition ex_row :: bytes where
  "ex_row = [0, 0xFF, 0xFF, 0xFF, 0xFF, 7, 0, 0, 0, 5, 0, 0, 0]"

definition ex_null_row :: bytes where
  "ex_null_row = [1, 0, 0, 0, 0, 7, 0, 0, 0, 5, 0, 0, 0]"

lemmas ex_defs = ex_ops_def ex_int_def ex_part_def ex_idx_def ex_pk_def ex_row_def ex_null_row_def

lemma ex_ops_laws: "int_sort_law ex_ops" "sort_key_laws ex_ops"
  by (auto simp: sort_key_laws_def int_sort_law_def ex_ops_def is_int_type_def)

lemma ex_row_fits:
  "row_fits 1 ex_row (kp_field ` set (ki_parts ex_idx @ ki_parts ex_pk)) (ki_parts ex_idx @ ki_parts ex_pk)"
  by (auto simp: row_fits_def ex_defs fields_apart_def field_fits_def keyread_part_def is_varbinary_def
      is_int_type_def is_null_def)

lemma ex_row_key: "sec_idx_key ex_ops (Some ex_pk) [] ex_idx ex_row (\<lambda>_. 0) =
    Some [1, 0x7F, 0xFF, 0xFF, 0xFF, 0x80, 0, 0, 5, 0x80, 0, 0, 7]"
  by code_simp

section \<open>Properties\<close>

text \<open>C17: the order of stored keys is the order of the columns. For keys over integer columns of
  any width and signedness, nullable or not, comparing the bytes of two rows' keys is
  comparing the rows' column values one after the other, NULL before every number.\<close>

theorem comparable_key_int_order:
  assumes "int_sort_law ops" "length r2 = length r1"
    and "\<forall>kp\<in>set (take n (ki_parts ki)). int_part nb (length r1) kp"
    and "make_comparable_key ops ki r1 n o1 = Some a" "make_comparable_key ops ki r2 n o2 = Some b"
  shows "a < b \<longleftrightarrow>
    map (int_col r1) (take n (ki_parts ki)) < map (int_col r2) (take n (ki_parts ki))"
proof -
  have "map (part_val ops r1) kps < map (part_val ops r2) kps \<longleftrightarrow> map (int_col r1) kps < map (int_col r2) kps"
    if "\<forall>kp\<in>set kps. int_part nb (length r1) kp" for kps
    using that
  proof (induction kps)
    case (Cons kp kps)
    then show ?case using part_val_int [OF assms(1) _ assms(2), of nb kp] by simp
  qed simp
  then show ?thesis
    using comparable_parts_less [OF _ assms(4,5) [unfolded make_comparable_key_def]] assms(3)
    by (simp add: int_part_def)
qed

theorem comparable_key_int_order_witness:
  "([0, 0, 0, 0, 0, 0x80, 0, 0, 5] :: bytes) < [1, 0x7F, 0xFF, 0xFF, 0xFF, 0x80, 0, 0, 5] \<longleftrightarrow>
     map (int_col ex_null_row) (take 2 (ki_parts ex_idx)) < map (int_col ex_row) (take 2 (ki_parts ex_idx))"
  by (rule comparable_key_int_order [of ex_ops _ _ _ _ 1 "\<lambda>_. 0" _ "\<lambda>_. 0"])
    (simp_all add: ex_ops_laws, simp_all add: ex_defs int_part_def is_int_type_def is_varbinary_def field_fits_def,
      (simp add: ex_defs [symmetric], code_simp)+)





lemma comparable_parts_cong:
  assumes "\<forall>kp\<in>set kps. field_image (kp_field kp) r = field_image (kp_field kp) r' \<and>
    is_null (kp_field kp) r = is_null (kp_field kp) r'"
  shows "comparable_parts ops out r kps = comparable_parts ops out r' kps"
  using assms
proof (induction kps arbitrary: out)
  case (Cons kp kps)
  then have "comparable_part ops out r kp = comparable_part ops out r' kp"
    by (simp add: comparable_part_def)
  then show ?case using Cons by (auto split: option.split)
qed simp



text \<open>Hidden row ids sort by number, so the newest row of a table without a primary key is the
  last of its data keys, and the id is read back from the key.\<close>

theorem hidden_row_id_order:
  "(build_data_key (encode_be64 i) < build_data_key (encode_be64 j) \<longleftrightarrow> i < j) \<and>
   decode_be64 (drop 1 (build_data_key (encode_be64 i))) = i \<and> is_data_key (build_data_key (encode_be64 i))"
  using row_id_order.ord_less [of i j] decode_encode_be64 [of i "[]"]
  by (simp add: build_data_key_def is_data_key_def)

section \<open>Where the encoding falls short\<close>

text \<open>A NULL in an index column misaligns the decoder: the key builder fills the column's width with
  zeros after the null marker, the decoder skips the marker only. For the row
  \<open>(a = NULL, id = 7, b = 5)\<close> the covering scan succeeds and returns \<open>b = -2147483648\<close>.\<close>

theorem keyread_null_misread:
  "case sec_idx_key ex_ops (Some ex_pk) [] ex_idx ex_null_row (\<lambda>_. 0) of
     None \<Rightarrow> False
   | Some k \<Rightarrow>
     (case try_keyread_from_index (Some ex_pk) (comparable_key_length ex_idx)
          (idx_cover 3 (Some ex_pk) False ex_idx) [0, 2] ex_idx Rec0 k [] (\<lambda>_. replicate 13 0) of
        (ok, st, _) \<Rightarrow> ok \<and>
          field_image (ex_int 9 None) ex_null_row = [5, 0, 0, 0] \<and>
          field_image (ex_int 9 None) (st Rec0) = [0, 0, 0, 0x80])"
  by code_simp

text \<open>Two different values of a VARBINARY(4) column have the same key, because the value that fills
  the column puts its last byte where the shorter one has its length.\<close>

theorem varbinary_key_collision:
  "varbinary_part out 4 4 [1, 2, 3] = varbinary_part out 4 4 [1, 2, 3, 3]"
  by (simp add: varbinary_part_def Let_def pad_to_def numeral_2_eq_2 numeral_3_eq_3 min_def)

text \<open>A value one byte short of a VARBINARY(300) column leaves a byte of the buffer in its key, so
  the same row can get two different keys.\<close>

theorem varbinary_key_stale_byte:
  "varbinary_part (\<lambda>_. 0) 300 300 (replicate 299 7) \<noteq> varbinary_part (\<lambda>_. 1) 300 300 (replicate 299 7)"
  by (simp add: varbinary_part_def Let_def min_def, rule exI [of _ 1], simp)

text \<open>A one-byte prefix index on such a column subtracts two from one, and the zero fill leaves the
  buffer.\<close>

theorem varbinary_prefix_overrun: "varbinary_part out 1 300 buf = None"
  by (simp add: varbinary_part_def)

text \<open>VARBINARY values that leave room for their length are kept apart: their keys are equal only
  if the values are, and have the width of the key part.\<close>

theorem varbinary_key_injective:
  assumes "lb = (if fl < 256 then 1 else 2)" "length u + lb \<le> n" "length v + lb \<le> n" "n \<le> 65535"
    and "fl < 256 \<longrightarrow> n < 256"
    and "varbinary_part o1 n fl u = Some a" "varbinary_part o2 n fl v = Some b"
  shows "(a = b \<longleftrightarrow> u = v) \<and> length a = n"
proof -
  have len: "length u = length v"
    if "(if lb = 1 then [word_of_nat (length u)] else be_bytes 2 (length u mod 2 ^ 16) :: bytes) =
      (if lb = 1 then [word_of_nat (length v)] else be_bytes 2 (length v mod 2 ^ 16))"
  proof (cases "lb = 1")
    case True
    then have "unat (word_of_nat (length u) :: byte) = unat (word_of_nat (length v) :: byte)" using that by simp
    moreover have "fl < 256"
    proof (rule ccontr)
      assume "\<not> fl < 256"
      then show False using True assms(1) by simp
    qed
    then have "length u < 256" "length v < 256" using assms(2,3,5) by linarith+
    ultimately show ?thesis unfolding unat_byte_of_nat by (simp only: mod_less)
  next
    case False
    then have "be_val (be_bytes 2 (length u mod 2 ^ 16)) = be_val (be_bytes 2 (length v mod 2 ^ 16))"
      using that by simp
    then show ?thesis using assms(2-4) by (simp add: be_val_be_bytes)
  qed
  have v: "varbinary_part out n fl w = Some (pad_to (n - lb) w @
      (if lb = 1 then [word_of_nat (length w)] else be_bytes 2 (length w mod 2 ^ 16)))"
    if "length w + lb \<le> n" for out w
    using that assms(1) by (auto simp: varbinary_part_def Let_def)
  have "take (length w) (pad_to (n - lb) w) = w" if "length w + lb \<le> n" for w
    using that by (simp add: pad_to_def min_def)
  note t = this [OF assms(2)] this [OF assms(3)]
  define sfx where "sfx w = (if lb = 1 then [word_of_nat (length w)] else be_bytes 2 (length w mod 2 ^ 16) :: bytes)"
    for w :: bytes
  have ab: "a = pad_to (n - lb) u @ sfx u" "b = pad_to (n - lb) v @ sfx v"
    using assms(6) v [OF assms(2), of o1] assms(7) v [OF assms(3), of o2] by (simp_all add: sfx_def)
  have "u = v" if "a = b"
  proof -
    have "pad_to (n - lb) u = pad_to (n - lb) v" "sfx u = sfx v" using that unfolding ab by simp_all
    then show ?thesis using t len unfolding sfx_def by metis
  qed
  then show ?thesis using varbinary_part_length [OF assms(6)] ab by blast
qed

end
