(* ===== verification/Master_Key.thy ===== *)
theory Master_Key
  imports TDB_Prelude
begin

text \<open>The data-at-rest master key of \<open>tidesdb_master_key.cc\<close>: loading it from a file, clearing
  it, the lookup through a per-thread cache that a generation counter invalidates, the length of a
  ciphertext and the cipher call. The cipher itself (\<open>my_aes_encrypt\<close>, \<open>my_aes_decrypt\<close>) is a
  parameter with the contract of CBC with PKCS#7 padding; \<open>mlock\<close> and \<open>madvise\<close> hardening has no
  effect the program reads back and is left out.\<close>

section \<open>Definitions\<close>

definition TIDESDB_MASTER_KEY_LEN :: nat where "TIDESDB_MASTER_KEY_LEN = 32"
definition TIDESDB_AES_BLOCK_LEN :: nat where "TIDESDB_AES_BLOCK_LEN = 16"
definition ENCRYPTION_KEY_VERSION_INVALID :: u32 where "ENCRYPTION_KEY_VERSION_INVALID = - 1"

record tls_cache =
  tls_master_key :: bytes
  tls_gen :: u64

record mk_state =
  g_master_key :: bytes
  g_master_key_loaded :: bool
  g_master_key_gen :: u64
  mk_tls :: "nat \<Rightarrow> tls_cache"

definition mk_init :: mk_state where
  "mk_init = \<lparr>g_master_key = replicate TIDESDB_MASTER_KEY_LEN 0, g_master_key_loaded = False,
     g_master_key_gen = 0,
     mk_tls = (\<lambda>_. \<lparr>tls_master_key = replicate TIDESDB_MASTER_KEY_LEN 0, tls_gen = 0\<rparr>)\<rparr>"

text \<open>\<open>tidesdb_master_key_load_from_file\<close>: the file is its contents, absent when it cannot be
  opened; the result is true on failure. \<open>fread\<close> takes at most 32 bytes and \<open>fgetc\<close> looks for
  one more.\<close>

definition tidesdb_master_key_load_from_file :: "bytes option \<Rightarrow> mk_state \<Rightarrow> bool \<times> mk_state" where
  "tidesdb_master_key_load_from_file file s =
     (case file of
        None \<Rightarrow> (True, s)
      | Some contents \<Rightarrow>
          let buf = take TIDESDB_MASTER_KEY_LEN contents;
              extra = drop TIDESDB_MASTER_KEY_LEN contents
          in if length buf \<noteq> TIDESDB_MASTER_KEY_LEN \<or> extra \<noteq> [] then (True, s)
             else (False, s\<lparr>g_master_key := buf, g_master_key_loaded := True,
                            g_master_key_gen := g_master_key_gen s + 1\<rparr>))"

definition tidesdb_master_key_clear :: "mk_state \<Rightarrow> mk_state" where
  "tidesdb_master_key_clear s =
     s\<lparr>g_master_key := replicate TIDESDB_MASTER_KEY_LEN 0, g_master_key_loaded := False,
       g_master_key_gen := g_master_key_gen s + 1\<rparr>"

definition encryption_key_get_latest_version :: "mk_state \<Rightarrow> u32" where
  "encryption_key_get_latest_version s =
     (if g_master_key_loaded s then 1 else ENCRYPTION_KEY_VERSION_INVALID)"

text \<open>\<open>encryption_key_get\<close> on thread \<open>t\<close>: the key, or nothing where the code returns -1.\<close>

definition encryption_key_get :: "nat \<Rightarrow> mk_state \<Rightarrow> bytes option \<times> mk_state" where
  "encryption_key_get t s =
     (let cur_gen = g_master_key_gen s; c = mk_tls s t in
      if cur_gen \<noteq> 0 \<and> tls_gen c = cur_gen then (Some (tls_master_key c), s)
      else if \<not> g_master_key_loaded s
      then (None, s\<lparr>mk_tls := (mk_tls s)(t := \<lparr>tls_master_key = replicate TIDESDB_MASTER_KEY_LEN 0, tls_gen = 0\<rparr>)\<rparr>)
      else (Some (g_master_key s),
            s\<lparr>mk_tls := (mk_tls s)(t := \<lparr>tls_master_key = g_master_key s, tls_gen = g_master_key_gen s\<rparr>)\<rparr>))"

text \<open>Sizes are the code's 32-bit unsigned numbers.\<close>

definition encryption_encrypted_length :: "u32 \<Rightarrow> u32" where
  "encryption_encrypted_length src_len = (src_len div 16 + 1) * 16"

record cipher =
  my_aes_encrypt :: "bytes \<Rightarrow> bytes \<Rightarrow> bytes \<Rightarrow> bytes option"
  my_aes_decrypt :: "bytes \<Rightarrow> bytes \<Rightarrow> bytes \<Rightarrow> bytes option"

datatype enc_flag = ENCRYPTION_FLAG_DECRYPT | ENCRYPTION_FLAG_ENCRYPT

definition encryption_crypt :: "cipher \<Rightarrow> mk_state \<Rightarrow> bytes \<Rightarrow> bytes \<Rightarrow> bytes \<Rightarrow> enc_flag \<Rightarrow> bytes option" where
  "encryption_crypt ci s src key iv flags =
     (if length iv \<noteq> TIDESDB_AES_BLOCK_LEN then None
      else if \<not> g_master_key_loaded s then None
      else if length key \<noteq> TIDESDB_MASTER_KEY_LEN then None
      else (case flags of
              ENCRYPTION_FLAG_ENCRYPT \<Rightarrow> my_aes_encrypt ci key iv src
            | ENCRYPTION_FLAG_DECRYPT \<Rightarrow> my_aes_decrypt ci key iv src))"

text \<open>Runs of the three entry points by any threads in any order. Load and clear change the key
  under the mutex and end with the bump of the counter, the only thing the fast path of a lookup
  reads; the slow path runs under the same mutex.\<close>

datatype mk_op = MkLoad "bytes option" | MkClear | MkGet nat

fun mk_exec :: "mk_op \<Rightarrow> mk_state \<Rightarrow> mk_state" where
  "mk_exec (MkLoad f) s = snd (tidesdb_master_key_load_from_file f s)"
| "mk_exec MkClear s = tidesdb_master_key_clear s"
| "mk_exec (MkGet t) s = snd (encryption_key_get t s)"

section \<open>Abstract specification\<close>

text \<open>What callers rely on: one key, present or not. The cache must not be visible.\<close>

definition mk_abs :: "mk_state \<Rightarrow> bytes option" where
  "mk_abs s = (if g_master_key_loaded s then Some (g_master_key s) else None)"

fun mk_spec :: "mk_op \<Rightarrow> bytes option \<Rightarrow> bytes option" where
  "mk_spec (MkLoad f) k = (case f of Some b \<Rightarrow> if length b = 32 then Some b else k | None \<Rightarrow> k)"
| "mk_spec MkClear k = None"
| "mk_spec (MkGet t) k = k"

text \<open>The contract of the cipher: encryption succeeds, produces whole blocks with at least one byte
  of padding, and decryption with the same key and vector undoes it.\<close>

definition cipher_ok :: "cipher \<Rightarrow> bool" where
  "cipher_ok ci \<longleftrightarrow>
     (\<forall>key iv p. length key = 32 \<and> length iv = 16 \<longrightarrow>
        (\<exists>c. my_aes_encrypt ci key iv p = Some c \<and> length c = (length p div 16 + 1) * 16 \<and>
             my_aes_decrypt ci key iv c = Some p))"

section \<open>The cache is coherent\<close>

definition mk_inv :: "nat \<Rightarrow> mk_state \<Rightarrow> bool" where
  "mk_inv n s \<longleftrightarrow> unat (g_master_key_gen s) \<le> n \<and>
     (\<forall>t. tls_gen (mk_tls s t) \<le> g_master_key_gen s \<and>
        (tls_gen (mk_tls s t) = g_master_key_gen s \<and> g_master_key_gen s \<noteq> 0 \<longrightarrow>
           g_master_key_loaded s \<and> tls_master_key (mk_tls s t) = g_master_key s)) \<and>
     (g_master_key_loaded s \<longrightarrow> g_master_key_gen s \<noteq> 0 \<and> length (g_master_key s) = 32)"

lemma mk_inv_init: "mk_inv 0 mk_init"
  by (simp add: mk_inv_def mk_init_def)

lemma gen_bump:
  fixes g h :: u64
  assumes "unat g \<le> n" "n < 2 ^ 64 - 1"
  shows "unat (g + 1) = unat g + 1" "h \<le> g \<Longrightarrow> h < g + 1"
proof -
  show e: "unat (g + 1) = unat g + 1"
    using assms by (simp add: unat_word_ariths)
  then show "h \<le> g \<Longrightarrow> h < g + 1" by (simp add: word_le_nat_alt word_less_nat_alt)
qed

lemma mk_inv_changed:
  assumes "mk_inv n s" "n < 2 ^ 64 - 1" "l \<longrightarrow> length k = 32"
  shows "mk_inv (Suc n) (s\<lparr>g_master_key := k, g_master_key_loaded := l, g_master_key_gen := g_master_key_gen s + 1\<rparr>)"
proof -
  have g: "unat (g_master_key_gen s) \<le> n" using assms(1) by (simp add: mk_inv_def)
  have "tls_gen (mk_tls s t) < g_master_key_gen s + 1" for t
    using assms(1) by (intro gen_bump(2) [OF g assms(2)]) (simp add: mk_inv_def)
  moreover have "g_master_key_gen s + 1 \<noteq> 0"
    using gen_bump(1) [OF g assms(2)] by (metis add_is_0 one_neq_zero unat_0)
  ultimately show ?thesis
    using g gen_bump(1) [OF g assms(2)] assms(3) unfolding mk_inv_def
    by (auto simp: less_imp_le dest: less_imp_neq)
qed

lemma mk_inv_exec:
  assumes "mk_inv n s" "n < 2 ^ 64 - 1"
  shows "mk_inv (Suc n) (mk_exec op s)"
proof (cases op)
  case (MkLoad f)
  have "mk_inv (Suc n) s" using assms(1) by (auto simp: mk_inv_def)
  then show ?thesis
    using MkLoad mk_inv_changed [OF assms, of True]
    by (auto simp: tidesdb_master_key_load_from_file_def Let_def TIDESDB_MASTER_KEY_LEN_def split: option.splits)
next
  case MkClear
  then show ?thesis using mk_inv_changed [OF assms, of False] by (simp add: tidesdb_master_key_clear_def)
next
  case (MkGet t)
  then show ?thesis using assms(1) by (auto simp: encryption_key_get_def Let_def mk_inv_def)
qed

lemma mk_run_inv:
  "mk_inv n s \<Longrightarrow> n + length ops < 2 ^ 64 \<Longrightarrow> mk_inv (n + length ops) (fold mk_exec ops s)"
proof (induction ops arbitrary: n s)
  case (Cons op ops)
  then have "mk_inv (Suc n) (mk_exec op s)" by (intro mk_inv_exec) simp_all
  then show ?case using Cons.IH [of "Suc n"] Cons.prems(2) by simp
qed simp

lemma mk_get_abs: "mk_inv n s \<Longrightarrow> fst (encryption_key_get t s) = mk_abs s"
  by (auto simp: encryption_key_get_def Let_def mk_abs_def mk_inv_def)

lemma mk_exec_abs: "mk_abs (mk_exec op s) = mk_spec op (mk_abs s)"
proof (cases op)
  case (MkLoad f)
  have "length (take 32 b) = 32 \<and> drop 32 b = [] \<longleftrightarrow> length b = 32" for b :: bytes by auto
  then show ?thesis
    using MkLoad
    by (auto simp: tidesdb_master_key_load_from_file_def Let_def TIDESDB_MASTER_KEY_LEN_def mk_abs_def
        split: option.splits)
next
  case (MkGet t)
  then show ?thesis by (auto simp: encryption_key_get_def Let_def mk_abs_def)
qed (simp add: tidesdb_master_key_clear_def mk_abs_def)

section \<open>Properties\<close>

text \<open>C20: the per-thread cache cannot be seen. After any sequence of loads, clears and lookups by any
  threads, shorter than the counter's range, a lookup on any thread returns what the last
  successful load put there, or nothing when the key was cleared since or never loaded.\<close>

theorem key_cache_refines_single_key:
  assumes "length ops < 2 ^ 64"
  shows "fst (encryption_key_get t (fold mk_exec ops mk_init)) = fold mk_spec ops None"
proof -
  have "mk_abs (fold mk_exec ops s) = fold mk_spec ops (mk_abs s)" for s
    by (induction ops arbitrary: s) (simp_all add: mk_exec_abs)
  from this [of mk_init] have "mk_abs (fold mk_exec ops mk_init) = fold mk_spec ops None"
    by (simp add: mk_abs_def mk_init_def)
  moreover have "mk_inv (0 + length ops) (fold mk_exec ops mk_init)"
    by (rule mk_run_inv [OF mk_inv_init]) (use assms in simp)
  ultimately show ?thesis using mk_get_abs by metis
qed

theorem key_cache_refines_single_key_witness:
  "fst (encryption_key_get 1 (fold mk_exec
     [MkLoad (Some (replicate 32 7)), MkGet 1, MkClear, MkGet 2, MkLoad (Some (replicate 32 9)), MkGet 2] mk_init)) =
   Some (replicate 32 9)"
  by (subst key_cache_refines_single_key) simp_all

text \<open>The ciphertext length is computed without overflow for every length the row encoder
  admits, and only wraps for the last sixteen 32-bit lengths.\<close>

theorem encrypted_length_no_overflow:
  "unat (encryption_encrypted_length n) = (unat n div 16 + 1) * 16 \<longleftrightarrow> n < 0xFFFFFFF0"
proof -
  have d: "unat (n div 16) = unat n div 16" by (simp add: unat_div)
  have n: "unat n < 2 ^ 32" using unsigned_less [of n, where ?'a = nat] by simp
  then have q: "unat n div 16 < 2 ^ 28" by (simp add: less_mult_imp_div_less)
  have e: "unat (n div 16 + 1) = unat n div 16 + 1"
    using q by (simp add: unat_word_ariths d)
  have "unat (encryption_encrypted_length n) = ((unat n div 16 + 1) * 16) mod 2 ^ 32"
    unfolding encryption_encrypted_length_def unat_word_ariths(2) e by simp
  moreover have "(unat n div 16 + 1) * 16 < 2 ^ 32 \<longleftrightarrow> unat n < 0xFFFFFFF0"
    using div_less_iff_less_mult [where q = "16 :: nat" and m = "unat n" and n = "268435455"] by auto
  moreover have "n < 0xFFFFFFF0 \<longleftrightarrow> unat n < 0xFFFFFFF0" by (simp add: word_less_nat_alt)
  ultimately show ?thesis by (metis mod_less mod_less_divisor zero_less_numeral zero_less_power)
qed

end
