(* ===== verification/Row_Codec.thy ===== *)
theory Row_Codec
  imports Schema Master_Key
begin

text \<open>Rows of \<open>ha_tidesdb.cc\<close>: \<open>serialize_row\<close> and \<open>deserialize_row\<close> with their header, null
  bitmap and field codecs, encryption of rows, and the lifetime computed for a row. \<open>Field::pack\<close>
  and \<open>Field::unpack\<close>, the cipher and the random source are parameters.\<close>

section \<open>Definitions\<close>

definition ROW_HEADER_MAGIC :: byte where "ROW_HEADER_MAGIC = 0xFE"
definition ROW_HEADER_SIZE :: nat where "ROW_HEADER_SIZE = 5"
definition FIELD_VARCHAR_LEN_PREFIX :: nat where "FIELD_VARCHAR_LEN_PREFIX = 2"
definition TIDESDB_ENC_IV_LEN :: nat where "TIDESDB_ENC_IV_LEN = 16"
definition TIDESDB_ENCRYPT_MAX_PLAIN :: nat where "TIDESDB_ENCRYPT_MAX_PLAIN = 0xEFFFFFFF"

datatype field_codec = FIELD_CODEC_MEMCPY | FIELD_CODEC_GENERIC

definition classify_field_codec :: "field \<Rightarrow> field_codec" where
  "classify_field_codec f =
     (case fd_real_type f of
        MYSQL_TYPE_TINY \<Rightarrow> FIELD_CODEC_MEMCPY
      | MYSQL_TYPE_SHORT \<Rightarrow> FIELD_CODEC_MEMCPY
      | MYSQL_TYPE_LONG \<Rightarrow> FIELD_CODEC_MEMCPY
      | MYSQL_TYPE_LONGLONG \<Rightarrow> FIELD_CODEC_MEMCPY
      | MYSQL_TYPE_INT24 \<Rightarrow> FIELD_CODEC_MEMCPY
      | MYSQL_TYPE_FLOAT \<Rightarrow> FIELD_CODEC_MEMCPY
      | MYSQL_TYPE_DOUBLE \<Rightarrow> FIELD_CODEC_MEMCPY
      | MYSQL_TYPE_YEAR \<Rightarrow> FIELD_CODEC_MEMCPY
      | MYSQL_TYPE_NEWDATE \<Rightarrow> FIELD_CODEC_MEMCPY
      | MYSQL_TYPE_DATETIME2 \<Rightarrow> FIELD_CODEC_MEMCPY
      | MYSQL_TYPE_TIMESTAMP2 \<Rightarrow> FIELD_CODEC_MEMCPY
      | MYSQL_TYPE_TIME2 \<Rightarrow> FIELD_CODEC_MEMCPY
      | _ \<Rightarrow> FIELD_CODEC_GENERIC)"

text \<open>\<open>Field::pack\<close> on a record image, \<open>Field::unpack\<close> giving the image it writes and the rest of
  the input or nothing where it returns null, and the data length of a BLOB value.\<close>

record pack_ops =
  pk_pack :: "field \<Rightarrow> bytes \<Rightarrow> bytes"
  pk_unpack :: "field \<Rightarrow> bytes \<Rightarrow> (bytes \<times> bytes) option"
  pk_blob_length :: "field \<Rightarrow> bytes \<Rightarrow> nat"

subsection \<open>Serialisation\<close>

definition row_estimate :: "pack_ops \<Rightarrow> table_def \<Rightarrow> bytes \<Rightarrow> nat" where
  "row_estimate ops tb buf =
     ROW_HEADER_SIZE + tb_null_bytes tb + tb_reclength tb + FIELD_VARCHAR_LEN_PREFIX * length (tb_fields tb) +
     (\<Sum>f\<leftarrow>filter fd_blob (tb_fields tb). if is_null f buf then 0 else pk_blob_length ops f (field_image f buf))"

fun pack_fields :: "pack_ops \<Rightarrow> bytes \<Rightarrow> field list \<Rightarrow> bytes" where
  "pack_fields ops buf [] = []"
| "pack_fields ops buf (f # fs) =
     (if is_null f buf then []
      else case classify_field_codec f of
             FIELD_CODEC_MEMCPY \<Rightarrow> field_image f buf
           | FIELD_CODEC_GENERIC \<Rightarrow> pk_pack ops f (field_image f buf)) @ pack_fields ops buf fs"

definition row_header :: "table_def \<Rightarrow> bytes" where
  "row_header tb = ROW_HEADER_MAGIC # le_bytes 2 (tb_null_bytes tb mod 2 ^ 16) @
     le_bytes 2 (length (tb_fields tb) mod 2 ^ 16)"

definition pack_row :: "pack_ops \<Rightarrow> table_def \<Rightarrow> bytes \<Rightarrow> bytes" where
  "pack_row ops tb buf = row_header tb @ take (tb_null_bytes tb) buf @ pack_fields ops buf (tb_fields tb)"

subsection \<open>Deserialisation\<close>

fun fill_defaults :: "bytes \<Rightarrow> field list \<Rightarrow> bytes \<Rightarrow> bytes" where
  "fill_defaults defs [] buf = buf"
| "fill_defaults defs (f # fs) buf =
     (let b1 = put_bytes (fd_offset f) (field_image f defs) buf;
          b2 = (if fd_nullable f then if is_null f defs then set_null f b1 else set_notnull f b1 else b1)
      in fill_defaults defs fs b2)"

fun unpack_fields :: "pack_ops \<Rightarrow> field list \<Rightarrow> bytes \<Rightarrow> bytes \<Rightarrow> bytes" where
  "unpack_fields ops [] from buf = buf"
| "unpack_fields ops (f # fs) from buf =
     (if is_null f buf then unpack_fields ops fs from buf
      else if from = [] then buf
      else case classify_field_codec f of
             FIELD_CODEC_MEMCPY \<Rightarrow>
               if length from < fd_pack_length f then buf
               else unpack_fields ops fs (drop (fd_pack_length f) from)
                      (put_bytes (fd_offset f) (take (fd_pack_length f) from) buf)
           | FIELD_CODEC_GENERIC \<Rightarrow>
               (case pk_unpack ops f from of
                  None \<Rightarrow> buf
                | Some (img, next) \<Rightarrow> unpack_fields ops fs next (put_bytes (fd_offset f) img buf)))"

text \<open>\<open>deserialize_row(buf, data, len)\<close>: the record after the call.\<close>

definition deserialize_row :: "pack_ops \<Rightarrow> table_def \<Rightarrow> bytes \<Rightarrow> bytes \<Rightarrow> bytes" where
  "deserialize_row ops tb buf data =
     (if length data < ROW_HEADER_SIZE \<or> data ! 0 \<noteq> ROW_HEADER_MAGIC
      then replicate (tb_reclength tb) 0 @ drop (tb_reclength tb) buf
      else
        let stored_null_bytes = le_val (take 2 (drop 1 data));
            stored_fields = le_val (take 2 (drop 3 data));
            from = drop ROW_HEADER_SIZE data
        in if length from < stored_null_bytes then buf
           else
             let copy_nb = min stored_null_bytes (tb_null_bytes tb);
                 b1 = put_bytes 0 (take copy_nb from) buf;
                 b2 = (if copy_nb < tb_null_bytes tb
                       then put_bytes copy_nb (take (tb_null_bytes tb - copy_nb) (drop copy_nb (tb_default_values tb))) b1
                       else b1);
                 b3 = (if stored_fields < length (tb_fields tb)
                       then fill_defaults (tb_default_values tb) (drop stored_fields (tb_fields tb)) b2
                       else b2);
                 unpack_count = min stored_fields (length (tb_fields tb))
             in unpack_fields ops (take unpack_count (tb_fields tb)) (drop stored_null_bytes from) b3)"

subsection \<open>Encryption\<close>

record enc_env =
  ee_cipher :: cipher
  ee_thread :: nat
  ee_random :: "bytes option"

definition tidesdb_encrypt_row_into :: "enc_env \<Rightarrow> mk_state \<Rightarrow> bytes \<Rightarrow> bytes option \<times> mk_state" where
  "tidesdb_encrypt_row_into e s plain =
     (case encryption_key_get (ee_thread e) s of
        (None, s1) \<Rightarrow> (None, s1)
      | (Some key, s1) \<Rightarrow>
          (case ee_random e of
             None \<Rightarrow> (None, s1)
           | Some iv \<Rightarrow>
               if TIDESDB_ENCRYPT_MAX_PLAIN < length plain then (None, s1)
               else (map_option ((@) iv) (encryption_crypt (ee_cipher e) s1 plain key iv ENCRYPTION_FLAG_ENCRYPT), s1)))"

text \<open>\<open>tidesdb_decrypt_row\<close> gives the empty string on every failure.\<close>

definition tidesdb_decrypt_row :: "enc_env \<Rightarrow> mk_state \<Rightarrow> bytes \<Rightarrow> bytes \<times> mk_state" where
  "tidesdb_decrypt_row e s data =
     (if length data \<le> TIDESDB_ENC_IV_LEN then ([], s)
      else case encryption_key_get (ee_thread e) s of
        (None, s1) \<Rightarrow> ([], s1)
      | (Some key, s1) \<Rightarrow>
          let iv = take TIDESDB_ENC_IV_LEN data;
              src = take ((length data - TIDESDB_ENC_IV_LEN) mod 2 ^ 32) (drop TIDESDB_ENC_IV_LEN data)
          in (case encryption_crypt (ee_cipher e) s1 src key iv ENCRYPTION_FLAG_DECRYPT of
                None \<Rightarrow> ([], s1) | Some p \<Rightarrow> (p, s1)))"

text \<open>The key version cache of a statement, in the share and in the handler.\<close>

record enc_ctx =
  encrypted :: bool
  encryption_key_version :: u32
  cached_enc_key_ver :: u32
  enc_key_ver_valid :: bool

definition refresh_key_version :: "mk_state \<Rightarrow> enc_ctx \<Rightarrow> enc_ctx" where
  "refresh_key_version s c =
     (if enc_key_ver_valid c then c
      else let cur_ver = encryption_key_get_latest_version s in
        (if cur_ver \<noteq> ENCRYPTION_KEY_VERSION_INVALID
         then c\<lparr>encryption_key_version := cur_ver, cached_enc_key_ver := cur_ver, enc_key_ver_valid := True\<rparr>
         else c\<lparr>cached_enc_key_ver := encryption_key_version c, enc_key_ver_valid := True\<rparr>))"

text \<open>\<open>serialize_row\<close>: the bytes to store; an encrypted row that could not be encrypted is empty.\<close>

definition serialize_row ::
  "pack_ops \<Rightarrow> enc_env \<Rightarrow> table_def \<Rightarrow> enc_ctx \<Rightarrow> mk_state \<Rightarrow> bytes \<Rightarrow> bytes \<times> enc_ctx \<times> mk_state" where
  "serialize_row ops e tb c s buf =
     (let row = pack_row ops tb buf in
      if encrypted c
      then let c1 = refresh_key_version s c in
        (case tidesdb_encrypt_row_into e s row of
           (None, s1) \<Rightarrow> ([], c1, s1) | (Some out, s1) \<Rightarrow> (out, c1, s1))
      else (row, c, s))"

text \<open>\<open>deserialize_row(buf, row)\<close> on a stored value.\<close>

definition deserialize_stored ::
  "pack_ops \<Rightarrow> enc_env \<Rightarrow> table_def \<Rightarrow> enc_ctx \<Rightarrow> mk_state \<Rightarrow> bytes \<Rightarrow> bytes \<Rightarrow> bytes \<times> mk_state" where
  "deserialize_stored ops e tb c s buf row =
     (if encrypted c
      then (case tidesdb_decrypt_row e s row of (plain, s1) \<Rightarrow>
        if plain = [] then (replicate (tb_reclength tb) 0 @ drop (tb_reclength tb) buf, s1)
        else (deserialize_row ops tb buf plain, s1))
      else (deserialize_row ops tb buf row, s))"

subsection \<open>Row lifetime\<close>

text \<open>\<open>compute_row_ttl\<close>: the value of the TTL column when there is one and it is not NULL, the
  session's and the table's TTL as unsigned 64-bit numbers that are cast to signed ones.
  \<open>TIDESDB_TTL_NONE\<close> is -1.\<close>

definition TIDESDB_TTL_NONE :: int where "TIDESDB_TTL_NONE = - 1"

definition compute_row_ttl :: "int option \<Rightarrow> u64 \<Rightarrow> u64 \<Rightarrow> int" where
  "compute_row_ttl col cached_sess_ttl default_ttl =
     (let t0 = (case col of Some v \<Rightarrow> v | None \<Rightarrow> 0);
          t1 = (if t0 \<le> 0 \<and> 0 < cached_sess_ttl then sint cached_sess_ttl else t0);
          t2 = (if t1 \<le> 0 \<and> 0 < default_ttl then sint default_ttl else t1)
      in if t2 \<le> 0 then TIDESDB_TTL_NONE else t2)"

section \<open>Contracts\<close>

text \<open>The same column of two versions of a table: only its place in the record may differ.\<close>

definition same_column :: "field \<Rightarrow> field \<Rightarrow> bool" where
  "same_column f g \<longleftrightarrow> f = g\<lparr>fd_offset := fd_offset f\<rparr>"

text \<open>What the server documents of \<open>pack\<close> and \<open>unpack\<close>, for a reading \<open>val\<close> of column images: the
  packed form is not empty, \<open>unpack\<close> consumes exactly it and restores the value, though not
  always the image (a BLOB's image is a pointer); a value does not depend on the place.\<close>

definition pack_laws :: "pack_ops \<Rightarrow> (field \<Rightarrow> bytes \<Rightarrow> 'v) \<Rightarrow> bool" where
  "pack_laws ops val \<longleftrightarrow>
     (\<forall>f g img r. classify_field_codec f = FIELD_CODEC_GENERIC \<and> same_column f g \<and>
        length img = fd_pack_length f \<longrightarrow>
        pk_pack ops f img \<noteq> [] \<and>
        (\<exists>img'. pk_unpack ops g (pk_pack ops f img @ r) = Some (img', r) \<and>
           length img' = fd_pack_length g \<and> val g img' = val f img)) \<and>
     (\<forall>f g img. same_column f g \<longrightarrow> val g img = val f img)"

definition table_ok :: "table_def \<Rightarrow> bool" where
  "table_ok tb \<longleftrightarrow> tb_null_bytes tb \<le> tb_reclength tb \<and> length (tb_default_values tb) = tb_reclength tb \<and>
     tb_null_bytes tb < 2 ^ 16 \<and> length (tb_fields tb) < 2 ^ 16 \<and> distinct (tb_fields tb) \<and>
     (\<forall>f\<in>set (tb_fields tb). field_fits (tb_null_bytes tb) (tb_reclength tb) f \<and> 0 < fd_pack_length f) \<and>
     (\<forall>f\<in>set (tb_fields tb). \<forall>g\<in>set (tb_fields tb). f \<noteq> g \<longrightarrow>
        fields_apart f g \<and> (fd_null f = None \<or> fd_null f \<noteq> fd_null g))"

text \<open>Two versions of a table: the columns they have in common are the first ones.\<close>

definition same_prefix :: "table_def \<Rightarrow> table_def \<Rightarrow> bool" where
  "same_prefix t1 t2 \<longleftrightarrow>
     (\<forall>i < min (length (tb_fields t1)) (length (tb_fields t2)). same_column (tb_fields t1 ! i) (tb_fields t2 ! i))"

section \<open>Field loops\<close>

lemma same_columnD:
  assumes "same_column f g"
  shows "classify_field_codec g = classify_field_codec f" "fd_pack_length g = fd_pack_length f"
    "fd_null g = fd_null f" "fd_nullable g = fd_nullable f"
proof -
  have "fd_real_type f = fd_real_type g" "fd_pack_length f = fd_pack_length g" "fd_null f = fd_null g"
    using assms unfolding same_column_def by (metis field.select_convs field.update_convs field.surjective)+
  then show "classify_field_codec g = classify_field_codec f" "fd_pack_length g = fd_pack_length f"
    "fd_null g = fd_null f" "fd_nullable g = fd_nullable f"
    by (simp_all add: classify_field_codec_def fd_nullable_def)
qed

text \<open>What one run of \<open>unpack_fields\<close> leaves unchanged: null bits, and columns it does not write.\<close>

definition kept :: "nat \<Rightarrow> field list \<Rightarrow> bytes \<Rightarrow> bytes \<Rightarrow> bool" where
  "kept nb gs b r \<longleftrightarrow> length r = length b \<and>
     (\<forall>h. field_fits nb (length b) h \<longrightarrow> is_null h r = is_null h b) \<and>
     (\<forall>h. field_fits nb (length b) h \<and> (\<forall>g\<in>set gs. h \<noteq> g \<and> fields_apart h g) \<longrightarrow>
        field_image h r = field_image h b)"

lemma kept_refl [simp]: "kept nb gs b b"
  by (simp add: kept_def)

lemma kept_put:
  assumes "kept nb gs (put_bytes (fd_offset g) img b) r" "field_fits nb (length b) g"
    "length img = fd_pack_length g"
  shows "kept nb (g # gs) b r"
proof -
  have l: "fd_offset g + length img \<le> length b" using assms(2,3) by (simp add: field_fits_def)
  have "field_image h (put_bytes (fd_offset g) img b) = field_image h b" if "h \<noteq> g" "fields_apart h g" for h
    using field_image_put_other [OF that(2,1) assms(3)] l assms(3) by simp
  moreover have "is_null h (put_bytes (fd_offset g) img b) = is_null h b" if "field_fits nb (length b) h" for h
    using is_null_put_bytes [OF that assms(2,3)] .
  ultimately show ?thesis
    using assms(1) l unfolding kept_def by simp
qed

lemma kept_skip: "kept nb gs b r \<Longrightarrow> kept nb (g # gs) b r"
  by (simp add: kept_def)

lemma unpack_one:
  assumes "pack_laws ops val" "same_column f g" "\<not> is_null f rec" "\<not> is_null g buf"
    "length (field_image f rec) = fd_pack_length f" "0 < fd_pack_length g"
  shows "\<exists>img'. unpack_fields ops (g # gs) (pack_fields ops rec (f # fs) @ rest) buf =
      unpack_fields ops gs (pack_fields ops rec fs @ rest) (put_bytes (fd_offset g) img' buf) \<and>
      length img' = fd_pack_length g \<and> val g img' = val f (field_image f rec)"
proof (cases "classify_field_codec f")
  case FIELD_CODEC_MEMCPY
  let ?img = "field_image f rec"
  note c = same_columnD [OF assms(2)]
  have "val g ?img = val f ?img" using assms(1,2) by (auto simp: pack_laws_def)
  moreover have "?img \<noteq> []" using assms(5,6) c(2) by auto
  ultimately show ?thesis
    using FIELD_CODEC_MEMCPY assms(3-5) by (intro exI [of _ ?img]) (simp add: c)
next
  case FIELD_CODEC_GENERIC
  let ?img = "field_image f rec"
  have "pk_pack ops f ?img \<noteq> [] \<and> (\<exists>img'. pk_unpack ops g (pk_pack ops f ?img @ pack_fields ops rec fs @ rest) =
      Some (img', pack_fields ops rec fs @ rest) \<and> length img' = fd_pack_length g \<and> val g img' = val f ?img)"
    using assms(1,2,5) FIELD_CODEC_GENERIC unfolding pack_laws_def by blast
  then show ?thesis using assms(3,4) FIELD_CODEC_GENERIC by (auto simp: same_columnD [OF assms(2)])
qed

lemma unpack_pack_fields:
  assumes "pack_laws ops val" "list_all2 same_column fs gs"
    "\<forall>g\<in>set gs. field_fits nb (length buf) g \<and> 0 < fd_pack_length g" "distinct gs"
    "\<forall>g\<in>set gs. \<forall>h\<in>set gs. g \<noteq> h \<longrightarrow> fields_apart g h"
    "\<forall>f\<in>set fs. length (field_image f rec) = fd_pack_length f"
    "\<forall>(f, g)\<in>set (zip fs gs). is_null g buf = is_null f rec"
  shows "kept nb gs buf (unpack_fields ops gs (pack_fields ops rec fs @ rest) buf) \<and>
    (\<forall>(f, g)\<in>set (zip fs gs). \<not> is_null f rec \<longrightarrow>
       val g (field_image g (unpack_fields ops gs (pack_fields ops rec fs @ rest) buf)) = val f (field_image f rec))"
  using assms(2-)
proof (induction fs gs arbitrary: buf rule: list_all2_induct)
  case Nil
  then show ?case by simp
next
  case (Cons f fs g gs)
  note c = same_columnD [OF Cons.hyps(1)]
  have pre: "\<forall>g\<in>set gs. field_fits nb n g \<and> 0 < fd_pack_length g" if "n = length buf" for n
    using Cons.prems(1) that by simp
  show ?case
  proof (cases "is_null f rec")
    case True
    then have "is_null g buf" using Cons.prems(5) by simp
    then show ?thesis
      using Cons.IH [of buf] Cons.prems True by (auto intro: kept_skip)
  next
    case False
    let ?img = "field_image f rec"
    have nn: "\<not> is_null g buf" using False Cons.prems(5) by simp
    have li: "length ?img = fd_pack_length f" using Cons.prems(4) by simp
    have fg: "field_fits nb (length buf) g" "0 < fd_pack_length g" using Cons.prems(1) by auto
    from unpack_one [OF assms(1) Cons.hyps(1) False nn li fg(2)]
    obtain img' where u: "unpack_fields ops (g # gs) (pack_fields ops rec (f # fs) @ rest) buf =
        unpack_fields ops gs (pack_fields ops rec fs @ rest) (put_bytes (fd_offset g) img' buf)"
      "length img' = fd_pack_length g" "val g img' = val f ?img" by blast
    define b where "b = put_bytes (fd_offset g) img' buf"
    have lb: "length b = length buf" using fg(1) u(2) by (simp add: b_def field_fits_def)
    have nb: "is_null h b = is_null h buf" if "field_fits nb (length buf) h" for h
      unfolding b_def by (rule is_null_put_bytes [OF that fg(1) u(2)])
    have "\<forall>(f, g)\<in>set (zip fs gs). is_null g b = is_null f rec"
      using Cons.prems(1,5) nb by (auto dest: set_zip_rightD)
    from Cons.IH [of b, OF _ _ _ _ this] Cons.prems lb pre
    have ih: "kept nb gs b (unpack_fields ops gs (pack_fields ops rec fs @ rest) b)"
      "\<forall>(f, g)\<in>set (zip fs gs). \<not> is_null f rec \<longrightarrow>
        val g (field_image g (unpack_fields ops gs (pack_fields ops rec fs @ rest) b)) = val f (field_image f rec)"
      by auto
    have "field_image g (unpack_fields ops gs (pack_fields ops rec fs @ rest) b) = field_image g b"
      using ih(1) fg(1) lb Cons.prems(2,3) unfolding kept_def by auto
    also have "\<dots> = img'"
      unfolding b_def using fg(1) u(2) by (intro field_image_put_same) (auto simp: field_fits_def)
    finally have "val g (field_image g (unpack_fields ops gs (pack_fields ops rec fs @ rest) b)) = val f ?img"
      using u(3) by simp
    then show ?thesis
      using ih kept_put [OF ih(1) [unfolded b_def] fg(1) u(2)] unfolding u(1) b_def by auto
  qed
qed

lemma is_null_set_other:
  assumes "fd_null f = None \<or> fd_null f \<noteq> fd_null g"
  shows "is_null f (set_null g r) = is_null f r" "is_null f (set_notnull g r) = is_null f r"
proof -
  have a: "bit (r[j := r ! j OR push_bit b 1] ! i) c = bit (r ! i) c"
    and o: "bit (r[j := r ! j AND NOT (push_bit b 1)] ! i) c = bit (r ! i) c"
    if "(i, c) \<noteq> (j, b)" for i j b c
    using that by (cases "i = j"; cases "j < length r"; auto simp: bit_simps list_update_beyond
        simp del: push_bit_of_1 dest: bit_imp_le_length)+
  show "is_null f (set_null g r) = is_null f r" "is_null f (set_notnull g r) = is_null f r"
    using assms a o by (auto simp: is_null_def set_null_def set_notnull_def split: option.splits)
qed

lemma fill_defaults_spec:
  assumes "\<forall>h\<in>set hs. field_fits nb (length buf) h" "distinct hs" "nb \<le> length buf"
    "length defs = length buf"
    "\<forall>f\<in>F \<union> set hs. \<forall>g\<in>F \<union> set hs. f \<noteq> g \<longrightarrow> fields_apart f g \<and> (fd_null f = None \<or> fd_null f \<noteq> fd_null g)"
    "F \<inter> set hs = {}" "\<forall>f\<in>F. field_fits nb (length buf) f"
  shows "length (fill_defaults defs hs buf) = length buf \<and>
    (\<forall>f\<in>F. field_image f (fill_defaults defs hs buf) = field_image f buf \<and>
       is_null f (fill_defaults defs hs buf) = is_null f buf) \<and>
    (\<forall>h\<in>set hs. field_image h (fill_defaults defs hs buf) = field_image h defs \<and>
       is_null h (fill_defaults defs hs buf) = is_null h defs)"
  using assms
proof (induction hs arbitrary: buf F)
  case (Cons h hs)
  define b1 where "b1 = put_bytes (fd_offset h) (field_image h defs) buf"
  define b where "b = (if fd_nullable h then if is_null h defs then set_null h b1 else set_notnull h b1 else b1)"
  have fh: "field_fits nb (length buf) h" and lh: "length (field_image h defs) = fd_pack_length h"
    using Cons.prems(1,4) field_image_length [of nb defs h] by auto
  have l1: "length b1 = length buf" and lb: "length b = length buf"
    using fh lh by (auto simp: b1_def b_def field_fits_def)
  have i1: "field_image f b = field_image f b1" if "field_fits nb (length buf) f" for f
    using field_image_null_bits [OF that fh] by (simp add: b_def)
  have ih: "field_image h b = field_image h defs" "is_null h b = is_null h defs"
  proof -
    show "field_image h b = field_image h defs"
      unfolding i1 [OF fh] b1_def using fh lh by (intro field_image_put_same) (auto simp: field_fits_def)
    show "is_null h b = is_null h defs"
      using is_null_set [of nb b1 h] fh l1 Cons.prems(3) by (auto simp: b_def)
  qed
  have other: "field_image f b = field_image f buf" "is_null f b = is_null f buf" if "f \<in> F \<union> set hs" for f
  proof -
    have f: "f \<noteq> h" "field_fits nb (length buf) f" "fields_apart f h" "fd_null f = None \<or> fd_null f \<noteq> fd_null h"
      using that Cons.prems(1,2,5,6,7) by auto
    show "field_image f b = field_image f buf"
      unfolding i1 [OF f(2)] b1_def using f fh lh by (intro field_image_put_other) (auto simp: field_fits_def)
    have "is_null f b1 = is_null f buf" unfolding b1_def by (rule is_null_put_bytes [OF f(2) fh lh])
    then show "is_null f b = is_null f buf" using is_null_set_other [OF f(4), of b1] by (simp add: b_def)
  qed
  have e: "fill_defaults defs (h # hs) buf = fill_defaults defs hs b" by (simp add: b_def b1_def Let_def)
  from Cons.IH [of b "insert h F"] Cons.prems lb fh show ?case
    unfolding e using ih other by auto
qed simp

section \<open>Rows across versions of a table\<close>

lemma row_header_fields:
  assumes "table_ok tb"
  shows "length (row_header tb) = ROW_HEADER_SIZE" "row_header tb ! 0 = ROW_HEADER_MAGIC"
    "le_val (take 2 (drop 1 (row_header tb @ r))) = tb_null_bytes tb"
    "le_val (take 2 (drop 3 (row_header tb @ r))) = length (tb_fields tb)"
  using assms by (simp_all add: row_header_def ROW_HEADER_SIZE_def table_ok_def le_val_le_bytes)

lemma put_bytes_zero: "length img \<le> length b \<Longrightarrow> put_bytes 0 img b = img @ drop (length img) b"
  by (simp add: put_bytes_def)

text \<open>The null bitmap after the two copies: the stored bytes where there are some, the defaults' for
  the rest; the bytes of the fields are not touched.\<close>

lemma null_bitmap_copied:
  assumes "nb2 \<le> length buf" "length defs = length buf" "nb1 \<le> length data"
  defines "c \<equiv> min nb1 nb2"
  defines "b1 \<equiv> put_bytes 0 (take c data) buf"
  defines "b2 \<equiv> (if c < nb2 then put_bytes c (take (nb2 - c) (drop c defs)) b1 else b1)"
  shows "length b2 = length buf" "\<And>i. i < nb1 \<Longrightarrow> i < nb2 \<Longrightarrow> b2 ! i = data ! i"
proof -
  have c: "c \<le> nb1" "c \<le> nb2" "length (take c data) = c" using assms(3) by (simp_all add: c_def)
  have l1: "length b1 = length buf" using assms(1) c unfolding b1_def by (intro length_put_bytes) simp
  show "length b2 = length buf" using l1 assms(1,2) c unfolding b2_def by simp
  fix i assume i: "i < nb1" "i < nb2"
  then have ic: "i < c" by (simp add: c_def)
  have "b1 ! i = data ! i"
    using ic i assms(1) c unfolding b1_def by (subst put_bytes_nth) simp_all
  moreover have "b2 ! i = b1 ! i"
    using ic i assms(1,2) l1 c unfolding b2_def by (auto simp: put_bytes_nth)
  ultimately show "b2 ! i = data ! i" by simp
qed

lemma is_null_same_bytes:
  assumes "fd_null f = fd_null g" "field_fits n1 l1 f" "field_fits n2 l2 g"
    "\<And>i. i < n1 \<Longrightarrow> i < n2 \<Longrightarrow> b ! i = r ! i"
  shows "is_null g b = is_null f r"
  using assms by (auto simp: is_null_def field_fits_def split: option.splits)

lemma deserialize_pack_row:
  assumes "table_ok t1" "table_ok t2" "length rec = tb_reclength t1" "length buf = tb_reclength t2"
  obtains b2 where "length b2 = length buf"
    "\<And>i. i < tb_null_bytes t1 \<Longrightarrow> i < tb_null_bytes t2 \<Longrightarrow> b2 ! i = rec ! i"
    "deserialize_row ops t2 buf (pack_row ops t1 rec) =
      unpack_fields ops (take (length (tb_fields t1)) (tb_fields t2)) (pack_fields ops rec (tb_fields t1))
        (fill_defaults (tb_default_values t2) (drop (length (tb_fields t1)) (tb_fields t2)) b2)"
proof -
  let ?nb1 = "tb_null_bytes t1" and ?nb2 = "tb_null_bytes t2" and ?n1 = "length (tb_fields t1)"
  let ?rest = "take ?nb1 rec @ pack_fields ops rec (tb_fields t1)"
  let ?c = "min ?nb1 ?nb2"
  define b2 where "b2 = (if ?c < ?nb2 then put_bytes ?c (take (?nb2 - ?c) (drop ?c (tb_default_values t2)))
    (put_bytes 0 (take ?c ?rest) buf) else put_bytes 0 (take ?c ?rest) buf)"
  have nb: "?nb1 \<le> length rec" "?nb2 \<le> length buf" "length (tb_default_values t2) = length buf"
    using assms by (simp_all add: table_ok_def)
  have h: "length (pack_row ops t1 rec) \<ge> ROW_HEADER_SIZE" "pack_row ops t1 rec ! 0 = ROW_HEADER_MAGIC"
    "le_val (take 2 (drop 1 (pack_row ops t1 rec))) = ?nb1"
    "le_val (take 2 (drop 3 (pack_row ops t1 rec))) = ?n1"
    "drop ROW_HEADER_SIZE (pack_row ops t1 rec) = ?rest"
    using row_header_fields [OF assms(1)] by (simp_all add: pack_row_def nth_append ROW_HEADER_SIZE_def)
  have d: "drop (length (tb_fields t1)) (tb_fields t2) = []" if "\<not> ?n1 < length (tb_fields t2)"
    using that by simp
  have "deserialize_row ops t2 buf (pack_row ops t1 rec) =
      unpack_fields ops (take ?n1 (tb_fields t2)) (pack_fields ops rec (tb_fields t1))
        (fill_defaults (tb_default_values t2) (drop ?n1 (tb_fields t2)) b2)"
    using h nb(1) d unfolding deserialize_row_def Let_def h b2_def
    by (auto simp: min_def)
  moreover note bm = null_bitmap_copied [OF nb(2,3), of ?nb1 ?rest]
  have "length b2 = length buf" unfolding b2_def by (rule bm(1)) (use nb in simp)
  moreover have "b2 ! i = rec ! i" if "i < ?nb1" "i < ?nb2" for i
  proof -
    have "b2 ! i = ?rest ! i" unfolding b2_def by (rule bm(2)) (use nb that in simp_all)
    then show ?thesis using that nb by (simp add: nth_append)
  qed
  ultimately show ?thesis using that by blast
qed

text \<open>The columns two versions share, as the one and as the other declares them.\<close>

definition shared_fields :: "table_def \<Rightarrow> table_def \<Rightarrow> field list" where
  "shared_fields t1 t2 = take (length (tb_fields t2)) (tb_fields t1)"

lemma shared_all2: "same_prefix t1 t2 \<Longrightarrow> list_all2 same_column (shared_fields t1 t2) (shared_fields t2 t1)"
  by (auto simp: list_all2_conv_all_nth same_prefix_def shared_fields_def)

lemma table_okD:
  assumes "table_ok tb" "length buf = tb_reclength tb"
  shows "tb_null_bytes tb \<le> length buf" "distinct (tb_fields tb)"
    "\<forall>h\<in>set (tb_fields tb). field_fits (tb_null_bytes tb) (length buf) h \<and> 0 < fd_pack_length h"
    "\<forall>f\<in>set (tb_fields tb). \<forall>g\<in>set (tb_fields tb). f \<noteq> g \<longrightarrow>
      fields_apart f g \<and> (fd_null f = None \<or> fd_null f \<noteq> fd_null g)"
    "length (tb_default_values tb) = length buf"
  using assms by (auto simp: table_ok_def)

lemma shared_fits:
  assumes "table_ok t1" "length rec = tb_reclength t1" "f \<in> set (shared_fields t1 t2)"
  shows "field_fits (tb_null_bytes t1) (length rec) f"
  using assms by (auto simp: shared_fields_def table_ok_def dest: in_set_takeD)

lemma pack_fields_append:
  "pack_fields ops rec (xs @ ys) = pack_fields ops rec xs @ pack_fields ops rec ys"
  by (induction xs) simp_all

lemma deserialize_stages:
  assumes "table_ok t1" "table_ok t2" "same_prefix t1 t2" "length rec = tb_reclength t1" "length buf = tb_reclength t2"
  obtains b3 rest where "length b3 = length buf"
    "\<forall>(f, g)\<in>set (zip (shared_fields t1 t2) (shared_fields t2 t1)). is_null g b3 = is_null f rec"
    "\<forall>h\<in>set (drop (length (tb_fields t1)) (tb_fields t2)).
       field_image h b3 = field_image h (tb_default_values t2) \<and> is_null h b3 = is_null h (tb_default_values t2)"
    "deserialize_row ops t2 buf (pack_row ops t1 rec) =
       unpack_fields ops (shared_fields t2 t1) (pack_fields ops rec (shared_fields t1 t2) @ rest) b3"
proof -
  let ?n1 = "length (tb_fields t1)"
  let ?gs = "shared_fields t2 t1" and ?hs = "drop ?n1 (tb_fields t2)" and ?fs = "shared_fields t1 t2"
  obtain b2 where b2: "length b2 = length buf"
      "\<And>i. i < tb_null_bytes t1 \<Longrightarrow> i < tb_null_bytes t2 \<Longrightarrow> b2 ! i = rec ! i"
      "deserialize_row ops t2 buf (pack_row ops t1 rec) =
        unpack_fields ops ?gs (pack_fields ops rec (tb_fields t1)) (fill_defaults (tb_default_values t2) ?hs b2)"
    using deserialize_pack_row [OF assms(1,2,4,5), of ops] unfolding shared_fields_def by blast
  note w = table_okD [OF assms(2,5)]
  have gh: "set ?gs \<union> set ?hs = set (tb_fields t2)" "set ?gs \<inter> set ?hs = {}" "distinct ?hs"
    using set_take_disj_set_drop_if_distinct [OF w(2) order_refl] w(2) unfolding shared_fields_def
    by (simp_all flip: set_append)
  define b3 where "b3 = fill_defaults (tb_default_values t2) ?hs b2"
  have b3: "length b3 = length buf" "\<forall>f\<in>set ?gs. is_null f b3 = is_null f b2"
      "\<forall>h\<in>set ?hs. field_image h b3 = field_image h (tb_default_values t2) \<and> is_null h b3 = is_null h (tb_default_values t2)"
    using fill_defaults_spec [of ?hs "tb_null_bytes t2" b2 "tb_default_values t2" "set ?gs"] b2(1) gh w
    unfolding b3_def by auto
  have nul: "\<forall>(f, g)\<in>set (zip ?fs ?gs). is_null g b3 = is_null f rec"
  proof clarify
    fix f g assume fg: "(f, g) \<in> set (zip ?fs ?gs)"
    then have m: "f \<in> set ?fs" "g \<in> set ?gs" by (auto dest: set_zip_leftD set_zip_rightD)
    have "fd_null f = fd_null g"
      using shared_all2 [OF assms(3)] fg same_columnD(3) by (force simp: list_all2_iff)
    moreover have "field_fits (tb_null_bytes t2) (length buf) g" using w(3) gh(1) m(2) by blast
    ultimately have "is_null g b2 = is_null f rec"
      using is_null_same_bytes [OF _ shared_fits [OF assms(1,4) m(1)]] b2(2) by metis
    then show "is_null g b3 = is_null f rec" using b3(2) m(2) by simp
  qed
  have "pack_fields ops rec (tb_fields t1) =
      pack_fields ops rec ?fs @ pack_fields ops rec (drop (length (tb_fields t2)) (tb_fields t1))"
    unfolding shared_fields_def by (metis append_take_drop_id pack_fields_append)
  then show ?thesis using that [OF b3(1) nul b3(3)] b2(3) unfolding b3_def by simp
qed

section \<open>A concrete table and its next version\<close>

definition rx_field :: "mysql_type \<Rightarrow> nat \<Rightarrow> nat \<Rightarrow> (nat \<times> nat) option \<Rightarrow> field" where
  "rx_field t off len nl = \<lparr>fd_type = t, fd_real_type = t, fd_offset = off, fd_pack_length = len,
     fd_field_length = len, fd_null = nl, fd_unsigned = False, fd_charset = my_charset_bin, fd_blob = False\<rparr>"

definition rx_ops :: pack_ops where
  "rx_ops = \<lparr>pk_pack = (\<lambda>f img. 1 # img),
     pk_unpack = (\<lambda>f d. case d of [] \<Rightarrow> None
       | _ # r \<Rightarrow> if length r < fd_pack_length f then None
                 else Some (take (fd_pack_length f) r, drop (fd_pack_length f) r)),
     pk_blob_length = (\<lambda>f img. 0)\<rparr>"

text \<open>Version 1 has a nullable number and a string, version 2 adds a nullable number with default 9.\<close>

definition rx_v1 :: table_def where
  "rx_v1 = \<lparr>tb_fields = [rx_field MYSQL_TYPE_LONG 1 4 (Some (0, 0)), rx_field MYSQL_TYPE_STRING 5 2 None],
     tb_null_bytes = 1, tb_reclength = 7, tb_default_values = [0, 0, 0, 0, 0, 0x20, 0x20]\<rparr>"

definition rx_v2 :: table_def where
  "rx_v2 = \<lparr>tb_fields = [rx_field MYSQL_TYPE_LONG 1 4 (Some (0, 0)), rx_field MYSQL_TYPE_STRING 5 2 None,
       rx_field MYSQL_TYPE_LONG 7 4 (Some (0, 1))],
     tb_null_bytes = 1, tb_reclength = 11, tb_default_values = [0, 0, 0, 0, 0, 0x20, 0x20, 9, 0, 0, 0]\<rparr>"

lemma rx_pack_laws: "pack_laws rx_ops (\<lambda>_ img. img)"
  by (auto simp: pack_laws_def rx_ops_def dest: same_columnD(2))

lemma rx_tables: "table_ok rx_v1" "table_ok rx_v2" "same_prefix rx_v1 rx_v2"
  by (auto simp: table_ok_def rx_v1_def rx_v2_def rx_field_def field_fits_def fields_apart_def same_prefix_def
      same_column_def less_Suc_eq)

section \<open>Properties\<close>

text \<open>C19: rows survive instant ADD COLUMN and DROP of the last columns. A row written under one
  version of a table and read under another, where the columns they share come first, keeps the
  value and the NULL state of every shared column; columns added since have the value and the NULL
  state of the table's defaults. With both versions the same this is the round trip of the format.
  It does not depend on what the record buffer held before.\<close>

theorem row_survives_schema_change:
  assumes "table_ok t1" "table_ok t2" "same_prefix t1 t2" "pack_laws ops val"
    and "length rec = tb_reclength t1" "length buf = tb_reclength t2"
    and "i < length (tb_fields t2)"
  defines "r \<equiv> deserialize_row ops t2 buf (pack_row ops t1 rec)" and "g \<equiv> tb_fields t2 ! i"
  shows "if i < length (tb_fields t1)
    then is_null g r = is_null (tb_fields t1 ! i) rec \<and>
      (\<not> is_null g r \<longrightarrow> val g (field_image g r) = val (tb_fields t1 ! i) (field_image (tb_fields t1 ! i) rec))
    else is_null g r = is_null g (tb_default_values t2) \<and>
      field_image g r = field_image g (tb_default_values t2)"
proof -
  let ?n1 = "length (tb_fields t1)"
  define fs where "fs = shared_fields t1 t2"
  define gs where "gs = shared_fields t2 t1"
  obtain b3 rest where b3: "length b3 = length buf" "\<forall>(f, g)\<in>set (zip fs gs). is_null g b3 = is_null f rec"
      "\<forall>h\<in>set (drop ?n1 (tb_fields t2)). field_image h b3 = field_image h (tb_default_values t2) \<and>
        is_null h b3 = is_null h (tb_default_values t2)"
      "r = unpack_fields ops gs (pack_fields ops rec fs @ rest) b3"
    unfolding r_def fs_def gs_def by (rule deserialize_stages [OF assms(1-3,5,6)])
  note w = table_okD [OF assms(2) assms(6)]
  have gs: "set gs \<subseteq> set (tb_fields t2)" "distinct gs"
    using w(2) by (auto simp: gs_def shared_fields_def dest: in_set_takeD)
  have g3: "\<forall>g\<in>set gs. field_fits (tb_null_bytes t2) (length b3) g \<and> 0 < fd_pack_length g"
    "\<forall>g\<in>set gs. \<forall>h\<in>set gs. g \<noteq> h \<longrightarrow> fields_apart g h"
    using gs(1) w b3(1) by auto
  have lens: "\<forall>f\<in>set fs. length (field_image f rec) = fd_pack_length f"
    using shared_fits [OF assms(1,5)] field_image_length unfolding fs_def by blast
  have res: "kept (tb_null_bytes t2) gs b3 r"
      "\<forall>(f, g)\<in>set (zip fs gs). \<not> is_null f rec \<longrightarrow> val g (field_image g r) = val f (field_image f rec)"
    using unpack_pack_fields [OF assms(4) shared_all2 [OF assms(3), folded fs_def gs_def] g3(1) gs(2) g3(2) lens b3(2)]
    unfolding b3(4) by blast+
  have gm: "g \<in> set (tb_fields t2)" using assms(7) by (simp add: g_def)
  have rn: "is_null g r = is_null g b3" using res(1) w(3) gm b3(1) by (auto simp: kept_def)
  show ?thesis
  proof (cases "i < ?n1")
    case True
    then have z: "(tb_fields t1 ! i, g) \<in> set (zip fs gs)"
      using assms(7) by (auto simp: in_set_zip fs_def gs_def g_def shared_fields_def intro!: exI [of _ i])
    then have "is_null g r = is_null (tb_fields t1 ! i) rec" using b3(2) rn by auto
    then show ?thesis using True z res(2) by auto
  next
    case False
    then have h: "g \<in> set (drop ?n1 (tb_fields t2))"
      using assms(7) by (auto simp: g_def in_set_conv_nth intro!: exI [of _ "i - ?n1"])
    have gn: "g \<notin> set gs"
      using set_take_disj_set_drop_if_distinct [OF w(2) order_refl] h by (auto simp: gs_def shared_fields_def)
    have "\<forall>g'\<in>set gs. g \<noteq> g' \<and> fields_apart g g'"
    proof
      fix g' assume g': "g' \<in> set gs"
      then have "g' \<in> set (tb_fields t2)" "g \<noteq> g'" using gs(1) gn by auto
      then show "g \<noteq> g' \<and> fields_apart g g'" using w(4) gm by simp
    qed
    then have "field_image g r = field_image g b3"
      using res(1) w(3) gm b3(1) unfolding kept_def by simp
    then show ?thesis using False b3(3) rn h by simp
  qed
qed

theorem row_survives_schema_change_witness:
  "is_null (tb_fields rx_v2 ! 2) (deserialize_row rx_ops rx_v2 (replicate 11 0xFF)
      (pack_row rx_ops rx_v1 [2, 5, 0, 0, 0, 65, 66])) =
    is_null (tb_fields rx_v2 ! 2) (tb_default_values rx_v2) \<and>
   field_image (tb_fields rx_v2 ! 2) (deserialize_row rx_ops rx_v2 (replicate 11 0xFF)
      (pack_row rx_ops rx_v1 [2, 5, 0, 0, 0, 65, 66])) = [9, 0, 0, 0]"
  using row_survives_schema_change [OF rx_tables rx_pack_laws, of "[2, 5, 0, 0, 0, 65, 66]" "replicate 11 0xFF" 2]
  by (simp add: rx_v1_def rx_v2_def rx_field_def field_image_def)

text \<open>C39: the buffer \<open>serialize_row\<close> reserves is large enough. Where \<open>pack\<close> writes at most the width
  of the column, two bytes of length and the data of a BLOB, and the columns fit beside the null
  bitmap in a record, the row written never exceeds the estimate the buffer is sized to.\<close>

theorem row_fits_estimate:
  assumes "\<forall>f\<in>set (tb_fields tb). length (pk_pack ops f (field_image f buf)) \<le>
      fd_pack_length f + FIELD_VARCHAR_LEN_PREFIX + (if fd_blob f then pk_blob_length ops f (field_image f buf) else 0)"
    and "(\<Sum>f\<leftarrow>tb_fields tb. fd_pack_length f) \<le> tb_reclength tb"
  shows "length (pack_row ops tb buf) \<le> row_estimate ops tb buf"
proof -
  let ?bl = "\<lambda>f. if is_null f buf then 0 else pk_blob_length ops f (field_image f buf)"
  have "length (pack_fields ops buf fs) \<le> (\<Sum>f\<leftarrow>fs. fd_pack_length f) + 2 * length fs + (\<Sum>f\<leftarrow>filter fd_blob fs. ?bl f)"
    if "\<forall>f\<in>set fs. length (pk_pack ops f (field_image f buf)) \<le>
      fd_pack_length f + 2 + (if fd_blob f then pk_blob_length ops f (field_image f buf) else 0)" for fs
    using that
  proof (induction fs)
    case (Cons f fs)
    have "length (field_image f buf) \<le> fd_pack_length f" by (simp add: field_image_def)
    then show ?case using Cons by (auto split: field_codec.split if_splits)
  qed simp
  from this [of "tb_fields tb"] assms show ?thesis
    by (simp add: pack_row_def row_header_def row_estimate_def FIELD_VARCHAR_LEN_PREFIX_def ROW_HEADER_SIZE_def)
qed

theorem row_fits_estimate_witness:
  "length (pack_row rx_ops rx_v1 [0, 5, 0, 0, 0, 65, 66]) \<le> row_estimate rx_ops rx_v1 [0, 5, 0, 0, 0, 65, 66]"
  by (rule row_fits_estimate)
    (simp_all add: rx_v1_def rx_field_def rx_ops_def field_image_def FIELD_VARCHAR_LEN_PREFIX_def)

text \<open>C21: encrypted rows come back. With a loaded key and a random vector, a row that is not too long is
  stored as the vector and whole cipher blocks, and any thread that reads it while the key stays
  loaded gets the row. Without a key or without random bytes nothing is stored.\<close>

theorem encrypted_row_roundtrip:
  assumes "cipher_ok (ee_cipher e)" "mk_inv n s" "length plain \<le> TIDESDB_ENCRYPT_MAX_PLAIN" "plain \<noteq> []"
    and "\<forall>iv. ee_random e = Some iv \<longrightarrow> length iv = TIDESDB_ENC_IV_LEN"
  shows "case tidesdb_encrypt_row_into e s plain of
      (None, s1) \<Rightarrow> mk_abs s = None \<or> ee_random e = None
    | (Some out, s1) \<Rightarrow> mk_abs s \<noteq> None \<and>
        length out = TIDESDB_ENC_IV_LEN + (length plain div 16 + 1) * 16 \<and>
        (\<forall>t s2 m. mk_inv m s2 \<and> mk_abs s2 = mk_abs s \<longrightarrow>
           fst (tidesdb_decrypt_row (e\<lparr>ee_thread := t\<rparr>) s2 out) = plain)"
proof (cases "mk_abs s = None \<or> ee_random e = None")
  case True
  then show ?thesis
    using mk_get_abs [OF assms(2), of "ee_thread e"]
    by (auto simp: tidesdb_encrypt_row_into_def split: prod.splits option.splits)
next
  case False
  then obtain k iv where k: "mk_abs s = Some k" "ee_random e = Some iv" by auto
  have iv: "length iv = 16" using assms(5) k by (simp add: TIDESDB_ENC_IV_LEN_def)
  have load: "g_master_key_loaded s'" "length k = 32" if "mk_abs s' = Some k" "mk_inv m s'" for s' m
    using that by (auto simp: mk_abs_def mk_inv_def split: if_splits)
  obtain c where c: "my_aes_encrypt (ee_cipher e) k iv plain = Some c" "length c = (length plain div 16 + 1) * 16"
      "my_aes_decrypt (ee_cipher e) k iv c = Some plain"
    using assms(1) load(2) [OF k(1) assms(2)] iv unfolding cipher_ok_def by blast
  have get: "\<exists>s1. encryption_key_get t s' = (Some k, s1) \<and> g_master_key_loaded s1"
    if "mk_abs s' = Some k" "mk_inv m s'" for s' m t
  proof -
    have "fst (encryption_key_get t s') = Some k" using mk_get_abs [OF that(2)] that(1) by simp
    moreover have "g_master_key_loaded (snd (encryption_key_get t s'))"
      using load(1) [OF that] by (simp add: encryption_key_get_def Let_def)
    ultimately show ?thesis by (metis prod.collapse)
  qed
  have enc: "fst (tidesdb_encrypt_row_into e s plain) = Some (iv @ c)"
    using get [OF k(1) assms(2), of "ee_thread e"] k c iv assms(3) load(2) [OF k(1) assms(2)]
    by (auto simp: tidesdb_encrypt_row_into_def encryption_crypt_def TIDESDB_AES_BLOCK_LEN_def TIDESDB_MASTER_KEY_LEN_def)
  have "length c < 2 ^ 32" using c(2) assms(3) by (simp add: TIDESDB_ENCRYPT_MAX_PLAIN_def)
  then have "fst (tidesdb_decrypt_row (e\<lparr>ee_thread := t\<rparr>) s2 (iv @ c)) = plain"
    if "mk_inv m s2" "mk_abs s2 = mk_abs s" for t s2 m
    using get [of s2 m t] that k c iv load(2) [OF k(1) assms(2)]
    by (auto simp: tidesdb_decrypt_row_def encryption_crypt_def TIDESDB_ENC_IV_LEN_def Let_def
        TIDESDB_AES_BLOCK_LEN_def TIDESDB_MASTER_KEY_LEN_def)
  then show ?thesis
    using enc iv c(2) k(1) by (auto simp: TIDESDB_ENC_IV_LEN_def split: prod.splits option.splits)
qed

text \<open>A stand-in for the cipher that meets its contract: pad to whole blocks with the padding length.\<close>

definition rx_pad :: "bytes \<Rightarrow> nat" where "rx_pad p = 16 - length p mod 16"

definition rx_cipher :: cipher where
  "rx_cipher = \<lparr>my_aes_encrypt = (\<lambda>key iv p. Some (p @ replicate (rx_pad p) (word_of_nat (rx_pad p)))),
     my_aes_decrypt = (\<lambda>key iv c. Some (take (length c - unat (last c)) c))\<rparr>"

lemma rx_cipher_ok: "cipher_ok rx_cipher"
proof -
  have a: "n = q * 16 + m \<Longrightarrow> m < 16 \<Longrightarrow> n + (16 - m) = (q + 1) * 16" for n q m :: nat by simp
  have pad: "length p + rx_pad p = (length p div 16 + 1) * 16" for p :: bytes
    unfolding rx_pad_def by (rule a) simp_all
  have k: "rx_pad p mod 256 = rx_pad p" "rx_pad p \<noteq> 0" for p by (simp_all add: rx_pad_def)
  define c where "c p = p @ replicate (rx_pad p) (word_of_nat (rx_pad p) :: byte)" for p
  have "unat (last (c p)) = rx_pad p" for p using k [of p] by (simp add: last_append c_def)
  then have "my_aes_decrypt rx_cipher key iv (c p) = Some p" for key iv p
    by (simp add: rx_cipher_def) (simp add: c_def)
  moreover have "my_aes_encrypt rx_cipher key iv p = Some (c p)" for key iv p by (simp add: rx_cipher_def c_def)
  moreover have "length (c p) = (length p div 16 + 1) * 16" for p using pad [of p] by (simp add: c_def)
  ultimately show ?thesis unfolding cipher_ok_def by blast
qed

theorem encrypted_row_roundtrip_witness:
  "case tidesdb_encrypt_row_into \<lparr>ee_cipher = rx_cipher, ee_thread = 1, ee_random = Some (replicate 16 3)\<rparr>
      (mk_exec (MkLoad (Some (replicate 32 7))) mk_init) [1, 2, 3] of
      (None, s1) \<Rightarrow> False
    | (Some out, s1) \<Rightarrow>
        fst (tidesdb_decrypt_row \<lparr>ee_cipher = rx_cipher, ee_thread = 2, ee_random = Some (replicate 16 3)\<rparr>
          (mk_exec (MkLoad (Some (replicate 32 7))) mk_init) out) = [1, 2, 3]"
proof -
  let ?s = "mk_exec (MkLoad (Some (replicate 32 7))) mk_init"
  let ?e = "\<lparr>ee_cipher = rx_cipher, ee_thread = 1, ee_random = Some (replicate 16 3)\<rparr>"
  have inv: "mk_inv 1 ?s" using mk_inv_exec [OF mk_inv_init, of "MkLoad (Some (replicate 32 7))"]
    by (simp del: mk_exec.simps)
  have abs: "mk_abs ?s \<noteq> None" by (simp only: mk_exec_abs) simp
  show ?thesis
    using encrypted_row_roundtrip [of ?e 1 ?s "[1, 2, 3]"] rx_cipher_ok inv abs
    by (cases "tidesdb_encrypt_row_into ?e ?s [1, 2, 3]"; cases "fst (tidesdb_encrypt_row_into ?e ?s [1, 2, 3])")
      (auto simp: TIDESDB_ENCRYPT_MAX_PLAIN_def TIDESDB_ENC_IV_LEN_def simp del: mk_exec.simps)
qed

text \<open>A lifetime handed to the engine is a positive number of seconds or the value for none, and
  comes from the TTL column before the session and from the session before the table.\<close>

theorem row_ttl_priority:
  "(compute_row_ttl col sess tbl = TIDESDB_TTL_NONE \<or> 0 < compute_row_ttl col sess tbl) \<and>
   (\<forall>v. col = Some v \<and> 0 < v \<longrightarrow> compute_row_ttl col sess tbl = v) \<and>
   ((\<forall>v. col = Some v \<longrightarrow> v \<le> 0) \<and> 0 < sint sess \<longrightarrow> compute_row_ttl col sess tbl = sint sess) \<and>
   ((\<forall>v. col = Some v \<longrightarrow> v \<le> 0) \<and> sint sess \<le> 0 \<and> 0 < sint tbl \<longrightarrow> compute_row_ttl col sess tbl = sint tbl)"
proof -
  have pos: "0 < sint w \<Longrightarrow> 0 < w" for w :: u64 by (cases "w = 0") (simp_all add: word_gt_0)
  show ?thesis using pos [of sess] pos [of tbl]
    by (auto simp: compute_row_ttl_def Let_def TIDESDB_TTL_NONE_def split: option.splits)
qed

end
