(* ===== verification/Fts.thy ===== *)
theory Fts
  imports Engine "HOL-Library.AList" "HOL-Library.Sublist"
begin

text \<open>Full-text search (\<open>tidesdb_fts.cc\<close>): the inverted index's key and value layout, the
  per-index counters, the tokenizer, the boolean query parser and the phrase check. Character sets
  are parameters: which bytes start a multi-byte character, which are alphanumeric, and lower-casing.\<close>

section \<open>Definitions\<close>

definition FTS_MAX_TERM_BYTES :: nat where "FTS_MAX_TERM_BYTES = 512"
definition FTS_TERM_LEN_PREFIX :: nat where "FTS_TERM_LEN_PREFIX = 2"
definition FTS_VALUE_LEN :: nat where "FTS_VALUE_LEN = 6"
definition FTS_META_KEY_TAG :: bytes where "FTS_META_KEY_TAG = [70, 84, 83, 0]"
definition FTS_META_VALUE_LEN :: nat where "FTS_META_VALUE_LEN = 16"

subsection \<open>Index keys, values and counters\<close>

definition fts_build_key :: "bytes \<Rightarrow> bytes \<Rightarrow> bytes" where
  "fts_build_key term pk =
     (let term_len = min (length term) FTS_MAX_TERM_BYTES in
      le_bytes 2 term_len @ take term_len term @ pk)"

definition fts_build_value :: "16 word \<Rightarrow> u32 \<Rightarrow> bytes" where
  "fts_build_value tf doc_len = le_bytes 2 (unat tf) @ le_bytes 4 (unat doc_len)"

definition fts_meta_key :: "nat \<Rightarrow> bytes" where
  "fts_meta_key keynr = 0 # FTS_META_KEY_TAG @ [word_of_nat keynr]"

text \<open>The counters are signed 64-bit integers stored little-endian; a missing or short entry, or any
  failed read, counts as zero.\<close>

definition fts_load_meta :: "'e engine \<Rightarrow> nat \<Rightarrow> nat \<Rightarrow> nat \<Rightarrow> 'e \<Rightarrow> u64 \<times> u64 \<times> 'e" where
  "fts_load_meta E t data_cf keynr e =
     (case txn_get E t data_cf (fts_meta_key keynr) e of (rc, val, e') \<Rightarrow>
        if rc = TDB_SUCCESS \<and> FTS_META_VALUE_LEN \<le> length val
        then (word_of_nat (le_val (take 8 val)), word_of_nat (le_val (take 8 (drop 8 val))), e')
        else (0, 0, e'))"

definition clamp0 :: "u64 \<Rightarrow> u64" where "clamp0 w = (if sint w < 0 then 0 else w)"

definition fts_update_meta :: "'e engine \<Rightarrow> nat \<Rightarrow> nat \<Rightarrow> nat \<Rightarrow> int \<Rightarrow> int \<Rightarrow> 'e \<Rightarrow> tdb_rc \<times> 'e" where
  "fts_update_meta E t data_cf keynr delta_docs delta_words e =
     (case fts_load_meta E t data_cf keynr e of (docs, words, e1) \<Rightarrow>
        let total_docs = clamp0 (docs + word_of_int delta_docs);
            total_words = clamp0 (words + word_of_int delta_words)
        in txn_put E t data_cf (fts_meta_key keynr) (le_bytes 8 (unat total_docs) @ le_bytes 8 (unat total_words)) (- 1) e1)"

subsection \<open>Tokenizer\<close>

text \<open>\<open>ismb s\<close> is the length of the multi-byte character at the start of \<open>s\<close>, or 0. Blend characters
  are a table over bytes; the flag that one is set only saves lookups.\<close>

record cs_ops =
  ismb :: "bytes \<Rightarrow> nat"
  isalnum :: "byte \<Rightarrow> bool"
  casedn :: "bytes \<Rightarrow> bytes"

record fts_cfg =
  min_word_len :: nat
  max_word_len :: nat
  blend :: "byte \<Rightarrow> bool"
  stopwords :: "bytes list"

definition fts_emit_token :: "cs_ops \<Rightarrow> fts_cfg \<Rightarrow> bytes \<Rightarrow> nat \<Rightarrow> bytes list" where
  "fts_emit_token cs cfg w char_count =
     (if char_count < min_word_len cfg \<or> max_word_len cfg < char_count then []
      else let low = casedn cs w in if low \<in> set (stopwords cfg) then [] else [low])"

definition starts_word :: "cs_ops \<Rightarrow> fts_cfg \<Rightarrow> bytes \<Rightarrow> bool" where
  "starts_word cs cfg s \<longleftrightarrow> s \<noteq> [] \<and> (ismb cs s \<noteq> 0 \<or> isalnum cs (hd s) \<or> blend cfg (hd s))"

fun skip_gap :: "cs_ops \<Rightarrow> fts_cfg \<Rightarrow> bytes \<Rightarrow> bytes" where
  "skip_gap cs cfg [] = []"
| "skip_gap cs cfg (c # s) = (if starts_word cs cfg (c # s) then c # s else skip_gap cs cfg s)"

text \<open>The word at the start of the text: its bytes, its length in characters, whether it contains a
  blend character, and the rest.\<close>

function take_word :: "cs_ops \<Rightarrow> fts_cfg \<Rightarrow> bytes \<Rightarrow> bytes \<times> nat \<times> bool \<times> bytes" where
  "take_word cs cfg [] = ([], 0, False, [])"
| "take_word cs cfg (c # s) =
     (let mb = ismb cs (c # s) in
      if mb \<noteq> 0 then (case take_word cs cfg (drop mb (c # s)) of (w, n, b, r) \<Rightarrow> (take mb (c # s) @ w, Suc n, b, r))
      else if isalnum cs c then (case take_word cs cfg s of (w, n, b, r) \<Rightarrow> (c # w, Suc n, b, r))
      else if blend cfg c then (case take_word cs cfg s of (w, n, b, r) \<Rightarrow> (c # w, Suc n, True, r))
      else ([], 0, False, c # s))"
  by pat_completeness auto
termination by (relation "measure (\<lambda>(cs, cfg, s). length s)") auto

text \<open>The parts of a blended word: the loop runs over bytes, and the character count of a part is
  the number of its bytes.\<close>

fun sub_parts :: "cs_ops \<Rightarrow> fts_cfg \<Rightarrow> bytes \<Rightarrow> nat \<Rightarrow> bytes \<Rightarrow> bytes list" where
  "sub_parts cs cfg sub sub_chars [] = (if sub \<noteq> [] then fts_emit_token cs cfg sub sub_chars else [])"
| "sub_parts cs cfg sub sub_chars (c # s) =
     (if blend cfg c
      then (if sub \<noteq> [] then fts_emit_token cs cfg sub sub_chars else []) @ sub_parts cs cfg [] 0 s
      else sub_parts cs cfg (sub @ [c]) (Suc sub_chars) s)"

definition word_tokens :: "cs_ops \<Rightarrow> fts_cfg \<Rightarrow> bytes \<Rightarrow> nat \<Rightarrow> bool \<Rightarrow> bytes list" where
  "word_tokens cs cfg w char_count contains_blend =
     fts_emit_token cs cfg w char_count @ (if contains_blend then sub_parts cs cfg [] 0 w else [])"

lemma length_skip_gap: "length (skip_gap cs cfg s) \<le> length s"
  by (induction s) auto

lemma take_word_shrinks: "take_word cs cfg s = (w, n, b, r) \<Longrightarrow> length r \<le> length s \<and> (starts_word cs cfg s \<longrightarrow> length r < length s)"
proof (induction cs cfg s arbitrary: w n b r rule: take_word.induct)
  case (2 cs cfg c s)
  then show ?case by (fastforce simp: Let_def starts_word_def split: if_splits prod.splits)
qed (simp add: starts_word_def)

lemma skip_gap_starts: "skip_gap cs cfg s \<noteq> [] \<Longrightarrow> starts_word cs cfg (skip_gap cs cfg s)"
  by (induction s) auto

lemma tokenize_shrinks:
  "skip_gap cs cfg s \<noteq> [] \<Longrightarrow> take_word cs cfg (skip_gap cs cfg s) = (w, n, b, r) \<Longrightarrow> length r < length s"
  using take_word_shrinks [of cs cfg "skip_gap cs cfg s" w n b r] skip_gap_starts [of cs cfg s] length_skip_gap [of cs cfg s]
  by simp

function fts_tokenize :: "cs_ops \<Rightarrow> fts_cfg \<Rightarrow> bytes \<Rightarrow> bytes list" where
  "fts_tokenize cs cfg text =
     (let p = skip_gap cs cfg text in
      if p = [] then []
      else case take_word cs cfg p of (w, n, b, r) \<Rightarrow> word_tokens cs cfg w n b @ fts_tokenize cs cfg r)"
  by pat_completeness auto
termination by (relation "measure (\<lambda>(cs, cfg, s). length s)") (auto intro: tokenize_shrinks dest: sym)

declare fts_tokenize.simps [simp del]

text \<open>The document of a row: the values of the key's non-null columns, joined by spaces.\<close>

fun join_doc :: "bytes \<Rightarrow> bytes option list \<Rightarrow> bytes" where
  "join_doc doc [] = doc"
| "join_doc doc (None # vs) = join_doc doc vs"
| "join_doc doc (Some v # vs) = join_doc ((if doc \<noteq> [] then doc @ [32] else doc) @ v) vs"

definition fts_extract_and_tokenize :: "cs_ops \<Rightarrow> fts_cfg \<Rightarrow> bytes option list \<Rightarrow> bytes list" where
  "fts_extract_and_tokenize cs cfg vals = fts_tokenize cs cfg (join_doc [] vals)"

text \<open>The term frequencies the write path counts, in 16 bits.\<close>

fun tf_map :: "bytes list \<Rightarrow> (bytes \<times> 16 word) list \<Rightarrow> (bytes \<times> 16 word) list" where
  "tf_map [] m = m"
| "tf_map (w # ws) m =
     tf_map ws (case map_of m w of None \<Rightarrow> m @ [(w, 1)] | Some c \<Rightarrow> AList.update w (c + 1) m)"

subsection \<open>Stop words\<close>

definition tdb_default_stopwords :: "bytes list" where
  "tdb_default_stopwords = map str
     [''a'', ''about'', ''an'', ''are'', ''as'', ''at'', ''be'', ''by'', ''com'', ''de'',
      ''en'', ''for'', ''from'', ''how'', ''i'', ''in'', ''is'', ''it'', ''la'', ''of'',
      ''on'', ''or'', ''that'', ''the'', ''this'', ''to'', ''was'', ''what'', ''when'', ''where'',
      ''who'', ''will'', ''with'', ''und'', ''the'', ''www'']"

definition tdb_rebuild_blend_map :: "bytes option \<Rightarrow> byte \<Rightarrow> bool" where
  "tdb_rebuild_blend_map chars = (case chars of None \<Rightarrow> (\<lambda>_. False) | Some cs \<Rightarrow> (\<lambda>c. c \<in> set (takeWhile (\<lambda>x. x \<noteq> 0) cs)))"

text \<open>The word in a row of a one-column stop word table: after the row header and the null bitmap
  (where the value is long enough to have them), a two-byte length and the word, lower-cased byte by
  byte.\<close>

definition c_tolower :: "byte \<Rightarrow> byte" where "c_tolower c = (if 65 \<le> c \<and> c \<le> 90 then c + 32 else c)"

definition stopword_of_row :: "bytes \<Rightarrow> bytes list" where
  "stopword_of_row val =
     (let data1 = (if 5 < length val then drop 5 val else val);
          data = (if 5 < length val \<and> 1 < length data1 then drop 1 data1 else data1)
      in if 2 \<le> length data
         then (let str_len = le_val (take 2 data) in
               if str_len \<le> length data - 2 \<and> 0 < str_len then [map c_tolower (take str_len (drop 2 data))] else [])
         else [])"

text \<open>Loading a stop word table. \<open>select_ok\<close>: the user's check on the database, None where there is no user;
  \<open>scan\<close>: the column family of a name as its values, an outer None where there is no such
  family, an inner None where its scan cannot start. Entries whose value cannot be read are left out of the scan.\<close>

definition tdb_load_stopwords_from_table_spec_into ::
  "(bytes \<Rightarrow> bool) option \<Rightarrow> (bytes \<Rightarrow> bytes list option option) \<Rightarrow> bytes \<Rightarrow> bytes list option" where
  "tdb_load_stopwords_from_table_spec_into select_ok scan spec =
     (if spec = [] then None
      else if 47 \<notin> set spec then None
      else let db_name = takeWhile (\<lambda>c. c \<noteq> 47) spec; tbl_name = drop 1 (dropWhile (\<lambda>c. c \<noteq> 47) spec) in
        case select_ok of
          None \<Rightarrow> None
        | Some acc \<Rightarrow> if \<not> acc db_name then None
            else (case scan (db_name @ [47] @ tbl_name) of
                    None \<Rightarrow> None
                  | Some None \<Rightarrow> None
                  | Some (Some vals) \<Rightarrow> Some (concat (map stopword_of_row (filter (\<lambda>v. v \<noteq> []) vals)))))"

text \<open>Setting the variable: the active set is replaced only by a set that loaded.\<close>

definition tdb_ft_stopword_table_update ::
  "(bytes \<Rightarrow> bool) option \<Rightarrow> (bytes \<Rightarrow> bytes list option option) \<Rightarrow> bytes \<Rightarrow> bytes list \<Rightarrow> bytes list" where
  "tdb_ft_stopword_table_update select_ok scan new_val current =
     (if new_val = [] then tdb_default_stopwords
      else case tdb_load_stopwords_from_table_spec_into select_ok scan new_val of None \<Rightarrow> current | Some new_set \<Rightarrow> new_set)"

subsection \<open>Boolean queries\<close>

record fts_query_term =
  qt_term :: bytes
  qt_yesno :: int
  qt_trunc :: bool
  qt_phrase :: "bytes list option"

definition is_query_word :: "cs_ops \<Rightarrow> bytes \<Rightarrow> bool" where
  "is_query_word cs s \<longleftrightarrow> s \<noteq> [] \<and> (isalnum cs (hd s) \<or> ismb cs s \<noteq> 0 \<or> hd s = 42)"

fun skip_spaces :: "bytes \<Rightarrow> bytes" where
  "skip_spaces [] = []"
| "skip_spaces (c # s) = (if c = 32 then skip_spaces s else c # s)"

fun skip_other :: "cs_ops \<Rightarrow> bytes \<Rightarrow> bytes" where
  "skip_other cs [] = []"
| "skip_other cs (c # s) = (if is_query_word cs (c # s) then c # s else skip_other cs s)"

function take_query_word :: "cs_ops \<Rightarrow> bytes \<Rightarrow> bytes \<times> bytes" where
  "take_query_word cs [] = ([], [])"
| "take_query_word cs (c # s) =
     (let mb = ismb cs (c # s) in
      if mb \<noteq> 0 then (case take_query_word cs (drop mb (c # s)) of (w, r) \<Rightarrow> (take mb (c # s) @ w, r))
      else if isalnum cs c \<or> c = 42 then (case take_query_word cs s of (w, r) \<Rightarrow> (c # w, r))
      else ([], c # s))"
  by pat_completeness auto
termination by (relation "measure (\<lambda>(cs, s). length s)") auto

text \<open>One pass of the parser's loop after the operator: the terms it emits and the rest; None where
  the loop ends.\<close>

definition phrase_terms :: "int \<Rightarrow> bytes list \<Rightarrow> fts_query_term list" where
  "phrase_terms yesno toks =
     (case toks of
        [] \<Rightarrow> []
      | w # ws \<Rightarrow> \<lparr>qt_term = w, qt_yesno = (if yesno \<noteq> 0 then yesno else 1), qt_trunc = False, qt_phrase = Some toks\<rparr> #
          map (\<lambda>v. \<lparr>qt_term = v, qt_yesno = 1, qt_trunc = False, qt_phrase = None\<rparr>) ws)"

definition word_term :: "cs_ops \<Rightarrow> int \<Rightarrow> bytes \<Rightarrow> fts_query_term list" where
  "word_term cs yesno w =
     (if w = [] then []
      else let trunc = (last w = 42); w' = (if trunc then butlast w else w) in
           if w' = [] then []
           else [\<lparr>qt_term = casedn cs w', qt_yesno = yesno, qt_trunc = trunc, qt_phrase = None\<rparr>])"

definition parse_item :: "cs_ops \<Rightarrow> fts_cfg \<Rightarrow> int \<Rightarrow> bytes \<Rightarrow> (fts_query_term list \<times> bytes) option" where
  "parse_item cs cfg yesno p =
     (case p of
        [] \<Rightarrow> None
      | c # s \<Rightarrow>
          if c = 34
          then (let phrase = takeWhile (\<lambda>d. d \<noteq> 34) s; r = drop 1 (dropWhile (\<lambda>d. d \<noteq> 34) s) in
                Some (if phrase = [] then [] else phrase_terms yesno (fts_tokenize cs cfg phrase), r))
          else (case skip_other cs p of
                  [] \<Rightarrow> None
                | q \<Rightarrow> (case take_query_word cs q of (w, r) \<Rightarrow> Some (word_term cs yesno w, r))))"

definition parse_sign :: "bytes \<Rightarrow> int \<times> bytes" where
  "parse_sign p = (case p of [] \<Rightarrow> (0, []) | c # s \<Rightarrow> if c = 43 then (1, s) else if c = 45 then (- 1, s) else (0, c # s))"

lemma length_skips: "length (skip_spaces s) \<le> length s" "length (skip_other cs s) \<le> length s"
  by (induction s) auto

lemma skip_other_word: "skip_other cs s = c # q \<Longrightarrow> is_query_word cs (c # q)"
  by (induction s) (auto split: if_splits)

lemma take_query_word_shrinks:
  "take_query_word cs s = (w, r) \<Longrightarrow> length r \<le> length s \<and> (is_query_word cs s \<longrightarrow> length r < length s)"
proof (induction cs s arbitrary: w r rule: take_query_word.induct)
  case (2 cs c s)
  then show ?case by (fastforce simp: Let_def is_query_word_def split: if_splits prod.splits)
qed (simp add: is_query_word_def)

lemma parse_item_shrinks: "parse_item cs cfg y p = Some (ts, r) \<Longrightarrow> length r < length p"
proof (cases p)
  case (Cons c s)
  have "length (drop 1 (dropWhile (\<lambda>d. d \<noteq> 34) s)) < length p"
    using length_dropWhile_le [of "\<lambda>d. d \<noteq> 34" s] Cons by simp
  moreover have "length r' < length p" if "skip_other cs p = d # q" "take_query_word cs (d # q) = (w, r')" for d q w r'
  proof -
    have "length r' < length (d # q)"
      using take_query_word_shrinks [OF that(2)] skip_other_word [OF that(1)] by simp
    then show ?thesis using length_skips(2) [of cs p] that(1) by simp
  qed
  moreover assume "parse_item cs cfg y p = Some (ts, r)"
  ultimately show ?thesis by (auto simp: parse_item_def Cons Let_def split: if_splits list.splits prod.splits)
qed (simp add: parse_item_def)

lemma parse_sign_length: "parse_sign s = (y, p) \<Longrightarrow> length p \<le> length s"
  by (cases s) (auto simp: parse_sign_def split: if_splits)

lemma parse_step_shrinks:
  assumes "parse_item cs cfg y (skip_spaces p) = Some (ts, r)" "parse_sign (skip_spaces q) = (y, p)"
  shows "length r < length q"
proof -
  have "length p \<le> length (skip_spaces q)"
    using assms(2) by (rule parse_sign_length)
  then show ?thesis using parse_item_shrinks [OF assms(1)] length_skips(1) [of p] length_skips(1) [of q] by linarith
qed

function fts_parse_boolean :: "cs_ops \<Rightarrow> fts_cfg \<Rightarrow> bytes \<Rightarrow> fts_query_term list" where
  "fts_parse_boolean cs cfg q =
     (let p = skip_spaces q in
      if p = [] then []
      else case parse_sign p of (yesno, p1) \<Rightarrow>
             (case parse_item cs cfg yesno (skip_spaces p1) of
                None \<Rightarrow> []
              | Some (ts, r) \<Rightarrow> ts @ fts_parse_boolean cs cfg r))"
  by pat_completeness auto
termination by (relation "measure (\<lambda>(cs, cfg, s). length s)") (auto intro: parse_step_shrinks dest: sym)

declare fts_parse_boolean.simps [simp del]

definition fts_phrase_in_tokens :: "bytes list \<Rightarrow> bytes list \<Rightarrow> bool" where
  "fts_phrase_in_tokens doc_tokens phrase_words =
     (if phrase_words = [] then True
      else if length doc_tokens < length phrase_words then False
      else list_ex (\<lambda>i. list_all (\<lambda>j. doc_tokens ! (i + j) = phrase_words ! j) [0..<length phrase_words])
             [0..<Suc (length doc_tokens - length phrase_words)])"

section \<open>Tokenizing joined text\<close>

text \<open>What the tokenizer relies on: a space is a one-byte character outside words, and whether a
  multi-byte character starts at a place does not depend on what follows the space after it.\<close>

definition space_separates :: "cs_ops \<Rightarrow> fts_cfg \<Rightarrow> bool" where
  "space_separates cs cfg \<longleftrightarrow> \<not> isalnum cs 32 \<and> \<not> blend cfg 32 \<and>
     (\<forall>b. ismb cs (32 # b) = 0) \<and> (\<forall>s. ismb cs s \<le> length s) \<and>
     (\<forall>s b. s \<noteq> [] \<longrightarrow> ismb cs (s @ 32 # b) = ismb cs s)"

lemma starts_word_append:
  "space_separates cs cfg \<Longrightarrow> s \<noteq> [] \<Longrightarrow> starts_word cs cfg (s @ 32 # b) = starts_word cs cfg s"
  by (simp add: space_separates_def starts_word_def)

lemma skip_gap_append:
  assumes "space_separates cs cfg"
  shows "skip_gap cs cfg (a @ 32 # b) =
    (if skip_gap cs cfg a = [] then skip_gap cs cfg b else skip_gap cs cfg a @ 32 # b)"
proof (induction a)
  case Nil
  then show ?case using assms by (simp add: space_separates_def starts_word_def)
next
  case (Cons c a)
  then show ?case using starts_word_append [OF assms, of "c # a" b] by simp
qed

lemma take_word_append:
  assumes "space_separates cs cfg"
  shows "take_word cs cfg (a @ 32 # b) = (case take_word cs cfg a of (w, n, bl, r) \<Rightarrow> (w, n, bl, r @ 32 # b))"
proof (induction "length a" arbitrary: a rule: less_induct)
  case less
  show ?case
  proof (cases a)
    case Nil
    then show ?thesis using assms by (simp add: space_separates_def)
  next
    case (Cons c s)
    have mb: "ismb cs (c # s @ 32 # b) = ismb cs (c # s)" "ismb cs (c # s) \<le> length (c # s)"
      using assms unfolding space_separates_def by (metis append_Cons list.distinct(1), blast)
    have "take_word cs cfg (drop (ismb cs (c # s)) (c # s) @ 32 # b) =
        (case take_word cs cfg (drop (ismb cs (c # s)) (c # s)) of (w, n, bl, r) \<Rightarrow> (w, n, bl, r @ 32 # b))"
      if "ismb cs (c # s) \<noteq> 0" using less that Cons by simp
    moreover have "take_word cs cfg (s @ 32 # b) = (case take_word cs cfg s of (w, n, bl, r) \<Rightarrow> (w, n, bl, r @ 32 # b))"
      using less Cons by simp
    moreover have "drop (ismb cs (c # s)) (c # s @ 32 # b) = drop (ismb cs (c # s)) (c # s) @ 32 # b"
      "take (ismb cs (c # s)) (c # s @ 32 # b) = take (ismb cs (c # s)) (c # s)"
      using mb(2) by (simp_all flip: append_Cons)
    ultimately show ?thesis using mb(1) Cons by (auto simp: Let_def split: prod.splits)
  qed
qed

lemma tokenize_append:
  assumes "space_separates cs cfg"
  shows "fts_tokenize cs cfg (a @ 32 # b) = fts_tokenize cs cfg a @ fts_tokenize cs cfg b"
proof (induction "length a" arbitrary: a rule: less_induct)
  case less
  show ?case
  proof (cases "skip_gap cs cfg a = []")
    case True
    then have "fts_tokenize cs cfg (a @ 32 # b) = fts_tokenize cs cfg b" "fts_tokenize cs cfg a = []"
      by (simp_all add: fts_tokenize.simps [of cs cfg "a @ 32 # b"] fts_tokenize.simps [of cs cfg a]
          fts_tokenize.simps [of cs cfg b] skip_gap_append [OF assms])
    then show ?thesis by simp
  next
    case False
    obtain w n bl r where t: "take_word cs cfg (skip_gap cs cfg a) = (w, n, bl, r)" by (metis prod_cases4)
    have "fts_tokenize cs cfg (r @ 32 # b) = fts_tokenize cs cfg r @ fts_tokenize cs cfg b"
      using less tokenize_shrinks [OF False t] by simp
    then show ?thesis using False
      by (simp add: fts_tokenize.simps [of cs cfg "a @ 32 # b"] fts_tokenize.simps [of cs cfg a]
          skip_gap_append [OF assms] take_word_append [OF assms] t Let_def)
  qed
qed

lemma tokenize_Nil [simp]: "fts_tokenize cs cfg [] = []"
  by (simp add: fts_tokenize.simps [of cs cfg "[]"])

definition somes :: "'a option list \<Rightarrow> 'a list" where "somes vs = List.map_filter id vs"

lemma somes_simps [simp]: "somes [] = []" "somes (None # vs) = somes vs" "somes (Some v # vs) = v # somes vs"
  by (simp_all add: somes_def List.map_filter_simps)

lemma tokenize_join_doc:
  assumes "space_separates cs cfg"
  shows "fts_tokenize cs cfg (join_doc doc vs) = fts_tokenize cs cfg doc @ concat (map (fts_tokenize cs cfg) (somes vs))"
  by (induction doc vs rule: join_doc.induct) (auto simp: tokenize_append [OF assms])

section \<open>Parsing printed queries\<close>

text \<open>The query syntax of single words: an operator, the word, and a star for a prefix.\<close>

definition print_term :: "fts_query_term \<Rightarrow> bytes" where
  "print_term t = (if qt_yesno t = 1 then [43] else if qt_yesno t = - 1 then [45] else []) @ qt_term t @ (if qt_trunc t then [42] else [])"

fun print_query :: "fts_query_term list \<Rightarrow> bytes" where
  "print_query [] = []"
| "print_query (t # ts) = print_term t @ 32 # print_query ts"

definition single_byte :: "cs_ops \<Rightarrow> bool" where
  "single_byte cs \<longleftrightarrow> (\<forall>s. ismb cs s = 0) \<and> \<not> isalnum cs 32 \<and> \<not> isalnum cs 34 \<and> \<not> isalnum cs 42 \<and> \<not> isalnum cs 43 \<and> \<not> isalnum cs 45"

definition plain_term :: "cs_ops \<Rightarrow> fts_query_term \<Rightarrow> bool" where
  "plain_term cs t \<longleftrightarrow> qt_phrase t = None \<and> qt_yesno t \<in> {- 1, 0, 1} \<and> qt_term t \<noteq> [] \<and>
     list_all (isalnum cs) (qt_term t) \<and> casedn cs (qt_term t) = qt_term t"

lemma take_query_word_print:
  assumes "single_byte cs" "list_all (isalnum cs) w"
  shows "take_query_word cs (w @ (if tr then [42] else []) @ 32 # r) = (w @ (if tr then [42] else []), 32 # r)"
  using assms(2) by (induction w) (use assms(1) in \<open>auto simp: single_byte_def\<close>)

lemma parse_signed:
  assumes "skip_spaces X = X"
  shows "parse_item cs cfg 1 X = Some ([t], r) \<Longrightarrow> fts_parse_boolean cs cfg (43 # X) = t # fts_parse_boolean cs cfg r"
    "parse_item cs cfg (- 1) X = Some ([t], r) \<Longrightarrow> fts_parse_boolean cs cfg (45 # X) = t # fts_parse_boolean cs cfg r"
  using assms by (simp_all add: fts_parse_boolean.simps [of cs cfg "43 # X"] fts_parse_boolean.simps [of cs cfg "45 # X"] parse_sign_def)

lemma parse_unsigned:
  assumes "skip_spaces X = X" "X \<noteq> []" "hd X \<noteq> 43" "hd X \<noteq> 45" "parse_item cs cfg 0 X = Some ([t], r)"
  shows "fts_parse_boolean cs cfg X = t # fts_parse_boolean cs cfg r"
proof -
  have "parse_sign X = (0, X)" using assms(2-4) by (cases X) (simp_all add: parse_sign_def)
  then show ?thesis using assms(1,2,5) by (simp add: fts_parse_boolean.simps [of cs cfg X])
qed

lemma parse_print_term:
  assumes "single_byte cs" "plain_term cs t"
  shows "fts_parse_boolean cs cfg (print_term t @ 32 # q) = t # fts_parse_boolean cs cfg (32 # q)"
proof -
  let ?w = "qt_term t" let ?tr = "if qt_trunc t then [42] else ([] :: bytes)"
  obtain c w where w: "?w = c # w" "isalnum cs c" using assms(2) by (cases ?w) (auto simp: plain_term_def)
  have ne: "c \<noteq> 32" "c \<noteq> 34" "c \<noteq> 43" "c \<noteq> 45" "c \<noteq> 42" using assms(1) w(2) by (auto simp: single_byte_def)
  have so: "skip_other cs (?w @ ?tr @ 32 # q) = ?w @ ?tr @ 32 # q"
    using w by (simp add: is_query_word_def)
  have tq: "take_query_word cs (?w @ ?tr @ 32 # q) = (?w @ ?tr, 32 # q)"
    using take_query_word_print [OF assms(1)] assms(2) by (simp add: plain_term_def)
  have lw: "last ?w \<noteq> 42"
    using assms last_in_set [of ?w] unfolding plain_term_def single_byte_def list_all_iff by metis
  have "word_term cs y (?w @ ?tr) = [\<lparr>qt_term = ?w, qt_yesno = y, qt_trunc = qt_trunc t, qt_phrase = None\<rparr>]" for y
    using assms(2) lw by (auto simp: word_term_def Let_def plain_term_def)
  then have item: "parse_item cs cfg y (?w @ ?tr @ 32 # q) =
      Some ([\<lparr>qt_term = ?w, qt_yesno = y, qt_trunc = qt_trunc t, qt_phrase = None\<rparr>], 32 # q)" for y
    using so tq w(1) ne by (simp add: parse_item_def)
  have sp: "skip_spaces (?w @ ?tr @ 32 # q) = ?w @ ?tr @ 32 # q" using w(1) ne by simp
  have t: "\<lparr>qt_term = ?w, qt_yesno = qt_yesno t, qt_trunc = qt_trunc t, qt_phrase = None\<rparr> = t"
    using assms(2) by (simp add: plain_term_def)
  consider "qt_yesno t = 1" | "qt_yesno t = - 1" | "qt_yesno t = 0" using assms(2) by (auto simp: plain_term_def)
  then show ?thesis
    using item [of 1] item [of "- 1"] item [of 0] sp t parse_signed [OF sp] parse_unsigned [OF sp] w(1) ne
    by cases (simp_all only: print_term_def append_assoc, simp_all)
qed

lemma parse_leading_space: "fts_parse_boolean cs cfg (32 # q) = fts_parse_boolean cs cfg q"
  by (simp add: fts_parse_boolean.simps [of cs cfg "32 # q"] fts_parse_boolean.simps [of cs cfg q])

section \<open>Keys and counters\<close>

text \<open>The prefix a search for a term seeks to.\<close>

definition fts_prefix :: "bytes \<Rightarrow> bytes" where
  "fts_prefix term = le_bytes 2 (length term) @ term"

lemma le_bytes_2_inject:
  assumes "m < 65536" "n < 65536" "le_bytes 2 m = le_bytes 2 n"
  shows "m = n"
  using arg_cong [OF assms(3), of le_val] assms(1,2) by (simp add: le_val_le_bytes)

lemma prefix_fts_key:
  assumes "length t \<le> FTS_MAX_TERM_BYTES" "length t' \<le> FTS_MAX_TERM_BYTES"
  shows "prefix (fts_prefix t) (fts_build_key t' pk) \<longleftrightarrow> t = t'"
proof
  assume "prefix (fts_prefix t) (fts_build_key t' pk)"
  then obtain z where z: "le_bytes 2 (length t) @ t @ z = le_bytes 2 (length t') @ t' @ pk"
    using assms(2) by (auto simp: prefix_def fts_prefix_def fts_build_key_def)
  then have "le_bytes 2 (length t) = le_bytes 2 (length t')" by (simp add: append_eq_append_conv)
  then have "length t = length t'" using le_bytes_2_inject assms by (simp add: FTS_MAX_TERM_BYTES_def)
  then show "t = t'" using z by simp
qed (use assms in \<open>auto simp: prefix_def fts_prefix_def fts_build_key_def\<close>)

lemma fts_build_key_inject:
  assumes "length w \<le> FTS_MAX_TERM_BYTES" "length w' \<le> FTS_MAX_TERM_BYTES" "fts_build_key w pk = fts_build_key w' pk'"
  shows "w = w' \<and> pk = pk'"
proof -
  have "prefix (fts_prefix w) (fts_build_key w' pk')"
    using prefix_fts_key [of w w pk] assms by simp
  then have "w = w'" using prefix_fts_key assms(1,2) by blast
  then show ?thesis using assms(3) by (simp add: fts_build_key_def Let_def)
qed

text \<open>The counters of an index in a view of the data column family.\<close>

definition meta_of :: "store \<Rightarrow> nat \<Rightarrow> nat \<Rightarrow> u64 \<times> u64" where
  "meta_of view cf keynr =
     (case view (cf, fts_meta_key keynr) of
        None \<Rightarrow> (0, 0)
      | Some v \<Rightarrow> if FTS_META_VALUE_LEN \<le> length v
                  then (word_of_nat (le_val (take 8 v)), word_of_nat (le_val (take 8 (drop 8 v)))) else (0, 0))"

lemma word_le_bytes_8: "(word_of_nat (le_val (le_bytes 8 (unat w))) :: u64) = w"
proof -
  have "unat w < 256 ^ 8" using unsigned_less [of w, where ?'a = nat] by simp
  then show ?thesis by (simp add: le_val_le_bytes)
qed

lemma meta_of_update:
  "meta_of (view((cf, fts_meta_key keynr) \<mapsto> le_bytes 8 (unat d) @ le_bytes 8 (unat w))) cf keynr = (d, w)"
  by (simp add: meta_of_def FTS_META_VALUE_LEN_def word_le_bytes_8)

section \<open>Stop word tables\<close>

text \<open>Without a user, or without the user's right to read the database, the stop words stay as they are.\<close>

lemma stopwords_fail_closed:
  assumes "new_val \<noteq> []" "\<forall>acc. select_ok = Some acc \<longrightarrow> \<not> acc (takeWhile (\<lambda>c. c \<noteq> 47) new_val)"
  shows "tdb_ft_stopword_table_update select_ok scan new_val current = current"
  using assms by (cases select_ok) (simp_all add: tdb_ft_stopword_table_update_def tdb_load_stopwords_from_table_spec_into_def Let_def)

section \<open>Findings\<close>

text \<open>The default list has 36 entries but 35 words: \<open>the\<close> is there twice.\<close>

theorem default_stopwords_count: "length tdb_default_stopwords = 36 \<and> length (remdups tdb_default_stopwords) = 35"
  by code_simp

text \<open>A single-byte character set and the default limits, for samples.\<close>

definition ascii_cs :: cs_ops where
  "ascii_cs = \<lparr>ismb = (\<lambda>_. 0), isalnum = (\<lambda>c. 48 \<le> c \<and> c \<le> 57 \<or> 65 \<le> c \<and> c \<le> 90 \<or> 97 \<le> c \<and> c \<le> 122),
     casedn = map (\<lambda>c. if 65 \<le> c \<and> c \<le> 90 then c + 32 else c)\<rparr>"

definition default_cfg :: fts_cfg where
  "default_cfg = \<lparr>min_word_len = 3, max_word_len = 84, blend = (\<lambda>_. False), stopwords = []\<rparr>"

text \<open>An excluded phrase makes its later words required: \<open>-"foo bar"\<close> asks for documents with
  \<open>bar\<close>.\<close>

theorem excluded_phrase_requires_word:
  "map (\<lambda>t. (qt_term t, qt_yesno t)) (fts_parse_boolean ascii_cs default_cfg (str ''-'' @ [34] @ str ''foo bar'' @ [34])) =
     [(str ''foo'', - 1), (str ''bar'', 1)]"
  by code_simp

section \<open>Properties\<close>

text \<open>C38: the tokens of a row are the tokens of its indexed columns, one column after the other: joining
  the columns with spaces before tokenizing neither merges nor splits words, and null columns
  contribute nothing.\<close>

theorem row_tokens_by_column:
  assumes "space_separates cs cfg"
  shows "fts_extract_and_tokenize cs cfg vals = concat (map (fts_tokenize cs cfg) (somes vals))"
  by (simp add: fts_extract_and_tokenize_def tokenize_join_doc [OF assms])

theorem row_tokens_by_column_witness:
  "fts_extract_and_tokenize ascii_cs default_cfg [Some (str ''Red fox''), None, Some (str ''ox, den'')] =
     concat (map (fts_tokenize ascii_cs default_cfg) [str ''Red fox'', str ''ox, den'']) \<and>
   fts_tokenize ascii_cs default_cfg (str ''ox, den'') = [str ''den'']"
proof -
  have "space_separates ascii_cs default_cfg" by (simp add: space_separates_def ascii_cs_def default_cfg_def)
  from row_tokens_by_column [OF this, of "[Some (str ''Red fox''), None, Some (str ''ox, den'')]"]
  have "fts_extract_and_tokenize ascii_cs default_cfg [Some (str ''Red fox''), None, Some (str ''ox, den'')] =
     concat (map (fts_tokenize ascii_cs default_cfg) [str ''Red fox'', str ''ox, den''])" by simp
  moreover have "fts_tokenize ascii_cs default_cfg (str ''ox, den'') = [str ''den'']" by code_simp
  ultimately show ?thesis by blast
qed

text \<open>The boolean query parser reads back what the query syntax prints: for every list of words
  with their operators and stars, parsing the printed query gives the list.\<close>

theorem boolean_query_roundtrip:
  assumes "single_byte cs" "\<forall>t\<in>set ts. plain_term cs t"
  shows "fts_parse_boolean cs cfg (print_query ts) = ts"
  using assms(2)
proof (induction ts)
  case Nil
  then show ?case by (simp add: fts_parse_boolean.simps [of cs cfg "[]"])
next
  case (Cons t ts)
  then show ?case using parse_print_term [OF assms(1)] by (simp add: parse_leading_space)
qed

definition sample_query :: "fts_query_term list" where
  "sample_query = [\<lparr>qt_term = str ''red'', qt_yesno = 1, qt_trunc = True, qt_phrase = None\<rparr>,
     \<lparr>qt_term = str ''fox'', qt_yesno = - 1, qt_trunc = False, qt_phrase = None\<rparr>]"

text \<open>C36: the counters of an index add up. A successful update leaves every other entry of the
  transaction's view alone and sets the document and word counts to the old ones plus the deltas in
  64 bits, at least zero, provided that the read before it answered.\<close>

theorem fts_meta_accumulates:
  assumes L: "engine_laws E B" and upd: "fts_update_meta E t cf keynr dd dw e = (TDB_SUCCESS, e')"
    and "fst (txn_get E t cf (fts_meta_key keynr) e) \<in> {TDB_SUCCESS, TDB_ERR_NOT_FOUND}"
  shows "meta_of (ob_view B e' t) cf keynr =
      (clamp0 (fst (meta_of (ob_view B e t) cf keynr) + word_of_int dd),
       clamp0 (snd (meta_of (ob_view B e t) cf keynr) + word_of_int dw)) \<and>
    (\<forall>k. k \<noteq> (cf, fts_meta_key keynr) \<longrightarrow> ob_view B e' t k = ob_view B e t k)"
proof -
  obtain rc v e1 where g: "txn_get E t cf (fts_meta_key keynr) e = (rc, v, e1)" by (metis prod_cases3)
  note gl = law_get(4-6) [OF L g]
  have m: "fts_load_meta E t cf keynr e = (fst (meta_of (ob_view B e t) cf keynr), snd (meta_of (ob_view B e t) cf keynr), e1)"
    using assms(3) gl by (auto simp: fts_load_meta_def g meta_of_def)
  define d where "d = clamp0 (fst (meta_of (ob_view B e t) cf keynr) + word_of_int dd)"
  define w where "w = clamp0 (snd (meta_of (ob_view B e t) cf keynr) + word_of_int dw)"
  have "txn_put E t cf (fts_meta_key keynr) (le_bytes 8 (unat d) @ le_bytes 8 (unat w)) (- 1) e1 = (TDB_SUCCESS, e')"
    using upd by (simp add: fts_update_meta_def m d_def w_def)
  then have "ob_view B e' t = (ob_view B e1 t)((cf, fts_meta_key keynr) \<mapsto> le_bytes 8 (unat d) @ le_bytes 8 (unat w))"
    using law_put(5) [OF L] by simp
  then show ?thesis
    by (simp add: gl(1) meta_of_update) (simp add: d_def w_def)
qed

definition meta_run :: "mem_state \<times> nat \<times> tdb_rc \<times> mem_state" where
  "meta_run = (case txn_begin_with_isolation mem_engine TDB_ISOLATION_SNAPSHOT mem_init of (_, t, e) \<Rightarrow>
     (e, t, fts_update_meta mem_engine t 0 2 1 5 e))"

theorem fts_meta_accumulates_witness:
  "case meta_run of (e, t, rc, e') \<Rightarrow> meta_of (ob_view mem_observer e' t) 0 2 = (1, 5) \<and>
     ob_view mem_observer e' t (0, [1]) = ob_view mem_observer e t (0, [1])"
proof -
  obtain e t rc e' where r: "meta_run = (e, t, rc, e')" by (metis prod_cases4)
  have "case meta_run of (e, t, rc, e') \<Rightarrow> rc = TDB_SUCCESS \<and> fst (txn_get mem_engine t 0 (fts_meta_key 2) e) = TDB_ERR_NOT_FOUND \<and>
      meta_of (ob_view mem_observer e t) 0 2 = (0, 0)" by code_simp
  then have c: "rc = TDB_SUCCESS" "fst (txn_get mem_engine t 0 (fts_meta_key 2) e) = TDB_ERR_NOT_FOUND"
    "meta_of (ob_view mem_observer e t) 0 2 = (0, 0)" unfolding r by simp_all
  have u: "fts_update_meta mem_engine t 0 2 1 5 e = (TDB_SUCCESS, e')" using r c(1) by (auto simp: meta_run_def split: prod.splits)
  have "fst (txn_get mem_engine t 0 (fts_meta_key 2) e) \<in> {TDB_SUCCESS, TDB_ERR_NOT_FOUND}" using c(2) by simp
  note m = fts_meta_accumulates [OF mem_engine_laws u this]
  moreover have "clamp0 (0 + word_of_int 1) = 1" "clamp0 (0 + word_of_int 5) = 5" "(0 :: nat, [1]) \<noteq> (0, fts_meta_key 2)" by code_simp+
  ultimately show ?thesis using c(3) unfolding r by simp
qed

end
