(* ===== verification/Fts_Search.thy ===== *)
theory Fts_Search
  imports Fts Complex_Main
begin

text \<open>Full-text search as the handler runs it (\<open>ft_init_ext\<close>, \<open>ft_init\<close> and \<open>ft_read\<close> of
  \<open>ha_tidesdb.cc\<close>, and the \<open>FT_INFO\<close> callbacks of \<open>tidesdb_fts.cc\<close>): the postings of each
  query term, BM25 scores, the filters for required and excluded terms and for phrases, and reading the
  results. An iterator over the index's column family is the list of its entries in key order;
  doubles are reals; the order in which a hash map is walked is that of insertion.\<close>

section \<open>Definitions\<close>

definition FTS_TERM_NEUTRAL :: int where "FTS_TERM_NEUTRAL = 0"

subsection \<open>Postings\<close>

text \<open>An entry's value is None where reading it fails.\<close>

type_synonym index_entry = "bytes \<times> bytes option"
type_synonym posting = "bytes \<times> 16 word \<times> u32"

definition iter_seek :: "index_entry list \<Rightarrow> bytes \<Rightarrow> index_entry list" where
  "iter_seek ix k = dropWhile (\<lambda>e. fst e < k) ix"

definition posting_of :: "bytes \<Rightarrow> bytes option \<Rightarrow> posting list" where
  "posting_of pk val =
     (case val of
        None \<Rightarrow> []
      | Some iv \<Rightarrow> if FTS_VALUE_LEN \<le> length iv
          then [(pk, word_of_nat (le_val (take 2 iv)), word_of_nat (le_val (take 4 (drop 2 iv))))] else [])"

fun exact_scan :: "bytes \<Rightarrow> index_entry list \<Rightarrow> posting list" where
  "exact_scan pre [] = []"
| "exact_scan pre ((ik, iv) # es) =
     (if length ik < length pre \<or> take (length pre) ik \<noteq> pre then []
      else posting_of (drop (length pre) ik) iv @ exact_scan pre es)"

fun bucket_scan :: "bytes \<Rightarrow> nat \<Rightarrow> index_entry list \<Rightarrow> posting list" where
  "bucket_scan term tlen [] = []"
| "bucket_scan term tlen ((ik, iv) # es) =
     (if length ik < FTS_TERM_LEN_PREFIX then []
      else let stored_len = le_val (take 2 ik) in
        if stored_len \<noteq> tlen then []
        else if length ik < FTS_TERM_LEN_PREFIX + stored_len then []
        else if take (length term) (drop 2 ik) \<noteq> term then []
        else if length ik \<le> FTS_TERM_LEN_PREFIX + stored_len then bucket_scan term tlen es
        else posting_of (drop (FTS_TERM_LEN_PREFIX + stored_len) ik) iv @ bucket_scan term tlen es)"

definition term_postings :: "nat \<Rightarrow> index_entry list \<Rightarrow> fts_query_term \<Rightarrow> posting list" where
  "term_postings maxw ix qt =
     (let pre = le_bytes 2 (length (qt_term qt)) @ qt_term qt in
      if qt_trunc qt
      then (let max_len = min maxw FTS_MAX_TERM_BYTES in
            concat (map (\<lambda>tlen. bucket_scan (qt_term qt) tlen (iter_seek ix (le_bytes 2 tlen @ qt_term qt)))
              [length (qt_term qt) ..< Suc max_len]))
      else exact_scan pre (iter_seek ix pre))"

subsection \<open>Scores\<close>

definition bm25_idf :: "int \<Rightarrow> nat \<Rightarrow> real" where
  "bm25_idf total_docs df = ln ((real_of_int total_docs - real df + 1 / 2) / (real df + 1 / 2) + 1)"

definition bm25_tf_norm :: "real \<Rightarrow> real \<Rightarrow> real \<Rightarrow> 16 word \<Rightarrow> u32 \<Rightarrow> real" where
  "bm25_tf_norm k1 b inv_avgdl tf doc_len =
     (real (unat tf) * (k1 + 1)) / (real (unat tf) + k1 * (1 - b + b * real (unat doc_len) * inv_avgdl))"

definition bm25_score :: "real \<Rightarrow> real \<Rightarrow> u64 \<Rightarrow> u64 \<Rightarrow> nat \<Rightarrow> 16 word \<Rightarrow> u32 \<Rightarrow> real" where
  "bm25_score k1 b docs words df tf doc_len =
     (let total_docs = sint docs; total_words = sint words;
          avgdl = (if 0 < total_docs then real_of_int total_words / real_of_int total_docs else 1);
          total_docs' = (if total_docs = 0 then 1 else total_docs)
      in bm25_idf total_docs' df * bm25_tf_norm k1 b (1 / avgdl) tf doc_len)"

subsection \<open>Scoring the terms of a query\<close>

text \<open>The two hash maps and the count of required terms.\<close>

record search_acc =
  doc_scores :: "(bytes \<times> real) list"
  doc_required_hits :: "(bytes \<times> nat) list"
  num_required :: nat

definition bump :: "bytes \<Rightarrow> 'a::monoid_add \<Rightarrow> (bytes \<times> 'a) list \<Rightarrow> (bytes \<times> 'a) list" where
  "bump k d m = AList.update k ((case map_of m k of None \<Rightarrow> 0 | Some x \<Rightarrow> x) + d) m"

definition score_posting :: "(nat \<Rightarrow> 16 word \<Rightarrow> u32 \<Rightarrow> real) \<Rightarrow> int \<Rightarrow> nat \<Rightarrow> posting \<Rightarrow> search_acc \<Rightarrow> search_acc" where
  "score_posting score yesno df p acc =
     (case p of (pk, tf, doc_len) \<Rightarrow>
        if yesno < FTS_TERM_NEUTRAL then acc\<lparr>doc_scores := AList.delete pk (doc_scores acc)\<rparr>
        else let acc1 = acc\<lparr>doc_scores := bump pk (score df tf doc_len) (doc_scores acc)\<rparr> in
             if FTS_TERM_NEUTRAL < yesno then acc1\<lparr>doc_required_hits := bump pk 1 (doc_required_hits acc1)\<rparr> else acc1)"

text \<open>One query term; \<open>iter\<close> gives the index's entries, or None where no iterator could be made: the
  term is then skipped, but a required one is still counted.\<close>

definition score_term ::
  "(nat \<Rightarrow> 16 word \<Rightarrow> u32 \<Rightarrow> real) \<Rightarrow> nat \<Rightarrow> (fts_query_term \<Rightarrow> index_entry list option) \<Rightarrow> search_acc \<Rightarrow> fts_query_term \<Rightarrow> search_acc" where
  "score_term score maxw iter acc qt =
     (let acc1 = (if FTS_TERM_NEUTRAL < qt_yesno qt then acc\<lparr>num_required := num_required acc + 1\<rparr> else acc) in
      case iter qt of
        None \<Rightarrow> acc1
      | Some ix \<Rightarrow> (let postings = term_postings maxw ix qt in
          fold (score_posting score (qt_yesno qt) (length postings)) postings acc1))"

definition empty_acc :: search_acc where
  "empty_acc = \<lparr>doc_scores = [], doc_required_hits = [], num_required = 0\<rparr>"

definition filter_required :: "search_acc \<Rightarrow> (bytes \<times> real) list" where
  "filter_required acc =
     (if 0 < num_required acc
      then filter (\<lambda>(pk, _). case map_of (doc_required_hits acc) pk of None \<Rightarrow> False | Some h \<Rightarrow> num_required acc \<le> h) (doc_scores acc)
      else doc_scores acc)"

subsection \<open>The search\<close>

record ft_info =
  keynr :: nat
  results :: "(bytes \<times> real) list"
  current_idx :: nat
  current_rank :: real
  match_count :: nat

text \<open>The row's indexed columns, fetched by primary key.\<close>

definition verify_phrases :: "cs_ops \<Rightarrow> fts_cfg \<Rightarrow> (bytes \<Rightarrow> bytes option list option) \<Rightarrow> fts_query_term list \<Rightarrow> (bytes \<times> real) list \<Rightarrow> (bytes \<times> real) list" where
  "verify_phrases cs cfg fetch terms rs =
     (let phrases = somes (map qt_phrase terms) in
      if phrases \<noteq> [] \<and> rs \<noteq> []
      then filter (\<lambda>(pk, _). case fetch pk of
                     None \<Rightarrow> False
                   | Some vals \<Rightarrow> list_all (fts_phrase_in_tokens (fts_extract_and_tokenize cs cfg vals)) phrases) rs
      else rs)"

definition query_terms :: "cs_ops \<Rightarrow> fts_cfg \<Rightarrow> bool \<Rightarrow> bytes \<Rightarrow> fts_query_term list" where
  "query_terms cs cfg ft_bool key =
     (if ft_bool then fts_parse_boolean cs cfg key
      else map (\<lambda>w. \<lparr>qt_term = w, qt_yesno = FTS_TERM_NEUTRAL, qt_trunc = False, qt_phrase = None\<rparr>) (fts_tokenize cs cfg key))"

definition search_results ::
  "cs_ops \<Rightarrow> fts_cfg \<Rightarrow> (nat \<Rightarrow> 16 word \<Rightarrow> u32 \<Rightarrow> real) \<Rightarrow> (fts_query_term \<Rightarrow> index_entry list option) \<Rightarrow>
   (bytes \<Rightarrow> bytes option list option) \<Rightarrow> fts_query_term list \<Rightarrow> (bytes \<times> real) list" where
  "search_results cs cfg score iter fetch terms =
     sort_key (\<lambda>r. - snd r)
       (verify_phrases cs cfg fetch terms (filter_required (foldl (score_term score (max_word_len cfg) iter) empty_acc terms)))"

text \<open>\<open>usable\<close>: the share is open and the index is a full-text one with a column family; \<open>txn_ok\<close>: the
  statement has a transaction. None is a null result.\<close>

definition ft_init_ext ::
  "cs_ops \<Rightarrow> fts_cfg \<Rightarrow> real \<Rightarrow> real \<Rightarrow> bool \<Rightarrow> bool \<Rightarrow> 'e engine \<Rightarrow> nat \<Rightarrow> nat \<Rightarrow> (fts_query_term \<Rightarrow> index_entry list option) \<Rightarrow>
   (bytes \<Rightarrow> bytes option list option) \<Rightarrow> bool \<Rightarrow> nat \<Rightarrow> bytes \<Rightarrow> 'e \<Rightarrow> ft_info option \<times> 'e" where
  "ft_init_ext cs cfg k1 b usable txn_ok E t data_cf iter fetch ft_bool inx key e =
     (if \<not> usable then (None, e)
      else if \<not> txn_ok then (None, e)
      else let terms = query_terms cs cfg ft_bool key in
        if terms = [] then (Some \<lparr>keynr = inx, results = [], current_idx = 0, current_rank = 0, match_count = 0\<rparr>, e)
        else (case fts_load_meta E t data_cf inx e of (docs, words, e1) \<Rightarrow>
          let rs = search_results cs cfg (bm25_score k1 b docs words) iter fetch terms in
          (Some \<lparr>keynr = inx, results = rs, current_idx = 0, current_rank = 0, match_count = length rs\<rparr>, e1)))"

subsection \<open>Reading the results\<close>

definition ft_init :: "ft_info option \<Rightarrow> ft_info option" where
  "ft_init info = map_option (\<lambda>i. i\<lparr>current_idx := 0\<rparr>) info"

definition tdb_fts_reinit_search :: "ft_info \<Rightarrow> ft_info" where
  "tdb_fts_reinit_search i = i\<lparr>current_idx := 0\<rparr>"

definition tdb_fts_get_docid :: "ft_info \<Rightarrow> nat" where
  "tdb_fts_get_docid i = (if 0 < current_idx i \<and> current_idx i \<le> length (results i) then current_idx i else 0)"

definition tdb_fts_get_relevance :: "ft_info \<Rightarrow> real" where
  "tdb_fts_get_relevance i = current_rank i"

text \<open>The loop over the results from the current one on; \<open>fetch\<close> gives an error code or the row.\<close>

fun ft_read_loop :: "(bytes \<Rightarrow> ha_err + 'r) \<Rightarrow> (bytes \<times> real) list \<Rightarrow> ft_info \<Rightarrow> (ha_err + 'r) \<times> ft_info" where
  "ft_read_loop fetch [] i = (Inl HA_ERR_END_OF_FILE, i)"
| "ft_read_loop fetch ((pk, rank) # rs) i =
     (let i1 = i\<lparr>current_rank := rank\<rparr> in
      case fetch pk of
        Inl err \<Rightarrow> if err = HA_ERR_KEY_NOT_FOUND then ft_read_loop fetch rs (i1\<lparr>current_idx := current_idx i1 + 1\<rparr>)
                   else (Inl err, i1)
      | Inr row \<Rightarrow> (Inr row, i1\<lparr>current_idx := current_idx i1 + 1\<rparr>))"

definition ft_read :: "bool \<Rightarrow> ha_err option \<Rightarrow> (bytes \<Rightarrow> ha_err + 'r) \<Rightarrow> ft_info option \<Rightarrow> (ha_err + 'r) \<times> ft_info option" where
  "ft_read killed txn_err fetch info =
     (if killed then (Inl HA_ERR_ABORTED_BY_USER, info)
      else case info of
        None \<Rightarrow> (Inl HA_ERR_END_OF_FILE, None)
      | Some i \<Rightarrow> (case txn_err of
            Some err \<Rightarrow> (Inl err, info)
          | None \<Rightarrow> (case ft_read_loop fetch (drop (current_idx i) (results i)) i of (r, i') \<Rightarrow> (r, Some i'))))"

section \<open>Phrases\<close>

lemma phrase_in_tokens_sublist: "fts_phrase_in_tokens toks ph \<longleftrightarrow> sublist ph toks"
proof (cases "ph = [] \<or> length toks < length ph")
  case True
  then show ?thesis using sublist_length_le [of ph toks] by (auto simp: fts_phrase_in_tokens_def)
next
  case False
  have "fts_phrase_in_tokens toks ph \<longleftrightarrow>
      (\<exists>i. i + length ph \<le> length toks \<and> (\<forall>j<length ph. toks ! (i + j) = ph ! j))"
    using False by (auto simp: fts_phrase_in_tokens_def list_ex_iff list_all_iff less_Suc_eq_le le_diff_conv2 Bex_def
        simp del: upt_Suc)
  also have "\<dots> \<longleftrightarrow> (\<exists>i. i + length ph \<le> length toks \<and> take (length ph) (drop i toks) = ph)"
    by (rule arg_cong [of _ _ Ex], rule ext, rule conj_cong) (auto simp: list_eq_iff_nth_eq)
  also have "\<dots> \<longleftrightarrow> sublist ph toks"
  proof
    assume "\<exists>i. i + length ph \<le> length toks \<and> take (length ph) (drop i toks) = ph"
    then show "sublist ph toks" by (metis sublist_drop sublist_order.order.trans sublist_take)
  next
    assume "sublist ph toks"
    then obtain a b where "toks = a @ ph @ b" by (auto simp: sublist_def)
    then show "\<exists>i. i + length ph \<le> length toks \<and> take (length ph) (drop i toks) = ph"
      by (intro exI [of _ "length a"]) simp
  qed
  finally show ?thesis .
qed

section \<open>Scans\<close>

lemma exact_scan_eq:
  "exact_scan p es = concat (map (\<lambda>e. posting_of (drop (length p) (fst e)) (snd e)) (takeWhile (\<lambda>e. prefix p (fst e)) es))"
  by (induction p es rule: exact_scan.induct) (simp_all add: prefix_take_iff)

text \<open>An index as the write path fills it: keys in order, each entry a term of at most 512 bytes with
  a primary key.\<close>

definition fts_entry :: "index_entry \<Rightarrow> bool" where
  "fts_entry e \<longleftrightarrow> (\<exists>t pk tf dl. length t \<le> FTS_MAX_TERM_BYTES \<and> pk \<noteq> [] \<and> e = (fts_build_key t pk, Some (fts_build_value tf dl)))"

definition fts_index :: "index_entry list \<Rightarrow> bool" where
  "fts_index ix \<longleftrightarrow> sorted_wrt (<) (map fst ix) \<and> (\<forall>e\<in>set ix. fts_entry e)"

text \<open>The documents a term stands for: those indexed under it, or under a word it is a prefix of.\<close>

definition indexed :: "index_entry list \<Rightarrow> bytes \<Rightarrow> bytes \<Rightarrow> bool" where
  "indexed ix t pk \<longleftrightarrow> (\<exists>e\<in>set ix. fst e = fts_build_key t pk \<and> pk \<noteq> [])"

definition term_matches :: "nat \<Rightarrow> index_entry list \<Rightarrow> fts_query_term \<Rightarrow> bytes \<Rightarrow> bool" where
  "term_matches maxw ix qt pk \<longleftrightarrow>
     (if qt_trunc qt then \<exists>t. prefix (qt_term qt) t \<and> length t \<le> min maxw FTS_MAX_TERM_BYTES \<and> indexed ix t pk
      else indexed ix (qt_term qt) pk)"

lemma fts_entryE:
  assumes "fts_entry e"
  obtains t pk tf dl where "length t \<le> FTS_MAX_TERM_BYTES" "pk \<noteq> []" "fst e = le_bytes 2 (length t) @ t @ pk"
    "fst e = fts_build_key t pk" "snd e = Some (fts_build_value tf dl)"
  using assms by (fastforce simp: fts_entry_def fts_build_key_def)

lemma posting_of_value: "posting_of pk (Some (fts_build_value tf dl)) = [(pk, tf, dl)]"
proof -
  have "unat tf < 256 ^ 2" "unat dl < 256 ^ 4"
    using unsigned_less [of tf, where ?'a = nat] unsigned_less [of dl, where ?'a = nat] by simp_all
  then show ?thesis by (simp add: posting_of_def fts_build_value_def FTS_VALUE_LEN_def le_val_le_bytes)
qed

lemma prefix_bucket:
  assumes "length term \<le> tlen" "tlen \<le> FTS_MAX_TERM_BYTES" "length t \<le> FTS_MAX_TERM_BYTES"
  shows "prefix (le_bytes 2 tlen @ term) (le_bytes 2 (length t) @ t @ pk) \<longleftrightarrow> length t = tlen \<and> prefix term t"
proof
  assume "prefix (le_bytes 2 tlen @ term) (le_bytes 2 (length t) @ t @ pk)"
  then obtain z where z: "le_bytes 2 (length t) @ t @ pk = le_bytes 2 tlen @ term @ z" by (auto simp: prefix_def)
  then have "le_bytes 2 (length t) = le_bytes 2 tlen" by (simp add: append_eq_append_conv)
  then have l: "length t = tlen" using le_bytes_2_inject assms(2,3) by (simp add: FTS_MAX_TERM_BYTES_def)
  have "t @ pk = term @ z" using z l by simp
  then have "prefix term t" using assms(1) l by (metis prefixI prefix_length_prefix)
  then show "length t = tlen \<and> prefix term t" using l by simp
qed (auto simp: prefix_def)

lemma bucket_scan_eq:
  assumes "length term \<le> tlen" "tlen \<le> FTS_MAX_TERM_BYTES" "\<forall>e\<in>set es. fts_entry e"
  shows "bucket_scan term tlen es =
    concat (map (\<lambda>e. posting_of (drop (2 + tlen) (fst e)) (snd e)) (takeWhile (\<lambda>e. prefix (le_bytes 2 tlen @ term) (fst e)) es))"
  using assms(3)
proof (induction es)
  case (Cons e es)
  obtain ik iv where e: "e = (ik, iv)" by (cases e)
  obtain t pk where k: "length t \<le> FTS_MAX_TERM_BYTES" "pk \<noteq> []" "ik = le_bytes 2 (length t) @ t @ pk"
    using Cons.prems e by (auto elim!: fts_entryE)
  have "length t < 256 ^ 2" using k(1) by (simp add: FTS_MAX_TERM_BYTES_def)
  then have l: "le_val (take 2 ik) = length t" using k(3) by (simp add: le_val_le_bytes)
  have tk: "take (length term) (drop 2 ik) = term \<longleftrightarrow> prefix term t" if "length t = tlen"
    using k(3) assms(1) that by (simp add: prefix_take_iff)
  have pb: "prefix (le_bytes 2 tlen @ term) ik \<longleftrightarrow> length t = tlen \<and> prefix term t"
    using prefix_bucket [OF assms(1,2) k(1)] k(3) by simp
  have "\<not> length ik < 2" "\<not> length ik < 2 + length t" "\<not> length ik \<le> 2 + length t" using k by simp_all
  then show ?case using Cons l tk pb e by (auto simp: FTS_TERM_LEN_PREFIX_def Let_def)
qed simp

lemma pks_of_entries:
  assumes "\<forall>e\<in>set es. fts_entry e"
  shows "map fst (concat (map (\<lambda>e. posting_of (f (fst e)) (snd e)) es)) = map (\<lambda>e. f (fst e)) es"
  using assms by (induction es) (auto elim!: fts_entryE simp: posting_of_value)

lemma fts_indexD:
  assumes "fts_index ix"
  shows "sorted (map fst ix)" "distinct (map fst ix)" "\<forall>e\<in>set (filter P ix). fts_entry e" "\<forall>e\<in>set (iter_seek ix k). fts_entry e"
  using assms by (auto simp: fts_index_def iter_seek_def strict_sorted_iff dest: set_dropWhileD)

lemma exact_pks:
  assumes "fts_index ix" "\<not> qt_trunc qt"
  shows "map fst (term_postings maxw ix qt) =
    map (\<lambda>e. drop (length (fts_prefix (qt_term qt))) (fst e)) (filter (\<lambda>e. prefix (fts_prefix (qt_term qt)) (fst e)) ix)"
proof -
  let ?p = "fts_prefix (qt_term qt)"
  have "term_postings maxw ix qt = exact_scan ?p (iter_seek ix ?p)"
    using assms(2) by (simp add: term_postings_def fts_prefix_def Let_def)
  then show ?thesis using prefix_scan [OF fts_indexD(1) [OF assms(1)], of ?p, folded iter_seek_def]
    by (simp only: exact_scan_eq pks_of_entries [OF fts_indexD(3) [OF assms(1)]])
qed

lemma exact_pks_distinct:
  assumes "fts_index ix" "\<not> qt_trunc qt"
  shows "distinct (map fst (term_postings maxw ix qt))"
proof -
  have "distinct (map fst (filter (\<lambda>e. prefix (fts_prefix (qt_term qt)) (fst e)) ix))"
    using fts_indexD(2) [OF assms(1)] by (rule distinct_map_filter)
  moreover have "inj_on (drop (length (fts_prefix (qt_term qt)))) {k. prefix (fts_prefix (qt_term qt)) k}"
    by (rule inj_onI) (auto simp: prefix_def)
  ultimately have "distinct (map (drop (length (fts_prefix (qt_term qt)))) (map fst (filter (\<lambda>e. prefix (fts_prefix (qt_term qt)) (fst e)) ix)))"
    unfolding distinct_map [of "drop _"] by (auto elim: inj_on_subset)
  then show ?thesis unfolding exact_pks [OF assms] by (simp add: comp_def)
qed

lemma exact_pks_set:
  assumes "fts_index ix" "\<not> qt_trunc qt" "length (qt_term qt) \<le> FTS_MAX_TERM_BYTES"
  shows "pk \<in> set (map fst (term_postings maxw ix qt)) \<longleftrightarrow> indexed ix (qt_term qt) pk"
proof
  assume "pk \<in> set (map fst (term_postings maxw ix qt))"
  then obtain e where e: "e \<in> set ix" "prefix (fts_prefix (qt_term qt)) (fst e)" "pk = drop (length (fts_prefix (qt_term qt))) (fst e)"
    unfolding exact_pks [OF assms(1,2)] by auto
  obtain t pk' where k: "length t \<le> FTS_MAX_TERM_BYTES" "pk' \<noteq> []" "fst e = fts_build_key t pk'"
    using e(1) assms(1) by (auto simp: fts_index_def elim!: fts_entryE)
  then have "qt_term qt = t" using prefix_fts_key [OF assms(3) k(1)] e(2) by simp
  then show "indexed ix (qt_term qt) pk" using e k assms(3) by (auto simp: indexed_def fts_build_key_def fts_prefix_def)
next
  assume "indexed ix (qt_term qt) pk"
  then obtain e where e: "e \<in> set ix" "fst e = fts_prefix (qt_term qt) @ pk"
    using assms(3) by (auto simp: indexed_def fts_build_key_def fts_prefix_def)
  then show "pk \<in> set (map fst (term_postings maxw ix qt))"
    unfolding exact_pks [OF assms(1,2)] set_map by (intro image_eqI [of _ _ e]) simp_all
qed

lemma trunc_pks:
  assumes "fts_index ix" "qt_trunc qt"
  shows "set (map fst (term_postings maxw ix qt)) =
    {pk. \<exists>tlen e. length (qt_term qt) \<le> tlen \<and> tlen \<le> min maxw FTS_MAX_TERM_BYTES \<and> e \<in> set ix \<and>
       prefix (le_bytes 2 tlen @ qt_term qt) (fst e) \<and> pk = drop (2 + tlen) (fst e)}"
proof -
  have "map fst (bucket_scan (qt_term qt) tlen (iter_seek ix (le_bytes 2 tlen @ qt_term qt))) =
      map (\<lambda>e. drop (2 + tlen) (fst e)) (filter (\<lambda>e. prefix (le_bytes 2 tlen @ qt_term qt) (fst e)) ix)"
    if "length (qt_term qt) \<le> tlen" "tlen \<le> min maxw FTS_MAX_TERM_BYTES" for tlen
  proof -
    have m: "tlen \<le> FTS_MAX_TERM_BYTES" using that by simp
    show ?thesis
      unfolding bucket_scan_eq [OF that(1) m fts_indexD(4) [OF assms(1)]] prefix_scan [OF fts_indexD(1) [OF assms(1)], folded iter_seek_def]
        pks_of_entries [OF fts_indexD(3) [OF assms(1)]] ..
  qed
  then have "set (map fst (bucket_scan (qt_term qt) tlen (iter_seek ix (le_bytes 2 tlen @ qt_term qt)))) =
      {pk. \<exists>e\<in>set ix. prefix (le_bytes 2 tlen @ qt_term qt) (fst e) \<and> pk = drop (2 + tlen) (fst e)}"
    if "length (qt_term qt) \<le> tlen" "tlen \<le> min maxw FTS_MAX_TERM_BYTES" for tlen
    using that by (auto simp: image_iff)
  note b = this
  have "set (map fst (term_postings maxw ix qt)) =
     (\<Union>tlen\<in>{length (qt_term qt) ..< Suc (min maxw FTS_MAX_TERM_BYTES)}.
        set (map fst (bucket_scan (qt_term qt) tlen (iter_seek ix (le_bytes 2 tlen @ qt_term qt)))))"
    using assms(2) by (simp add: term_postings_def image_UN del: upt_Suc)
  also have "\<dots> = (\<Union>tlen\<in>{length (qt_term qt) ..< Suc (min maxw FTS_MAX_TERM_BYTES)}.
        {pk. \<exists>e\<in>set ix. prefix (le_bytes 2 tlen @ qt_term qt) (fst e) \<and> pk = drop (2 + tlen) (fst e)})"
    by (rule SUP_cong [OF refl], rule b) (simp_all add: less_Suc_eq_le)
  also have "\<dots> = {pk. \<exists>tlen e. length (qt_term qt) \<le> tlen \<and> tlen \<le> min maxw FTS_MAX_TERM_BYTES \<and> e \<in> set ix \<and>
       prefix (le_bytes 2 tlen @ qt_term qt) (fst e) \<and> pk = drop (2 + tlen) (fst e)}"
    by (rule set_eqI) (simp only: UN_iff Bex_def mem_Collect_eq atLeastLessThan_iff less_Suc_eq_le, blast)
  finally show ?thesis .
qed

lemma trunc_pks_set:
  assumes "fts_index ix" "qt_trunc qt"
  shows "pk \<in> set (map fst (term_postings maxw ix qt)) \<longleftrightarrow> term_matches maxw ix qt pk"
proof
  assume "pk \<in> set (map fst (term_postings maxw ix qt))"
  then obtain tlen e where e: "length (qt_term qt) \<le> tlen" "tlen \<le> min maxw FTS_MAX_TERM_BYTES" "e \<in> set ix"
    "prefix (le_bytes 2 tlen @ qt_term qt) (fst e)" "pk = drop (2 + tlen) (fst e)"
    unfolding trunc_pks [OF assms] by auto
  obtain t pk' where k: "length t \<le> FTS_MAX_TERM_BYTES" "pk' \<noteq> []" "fst e = le_bytes 2 (length t) @ t @ pk'" "fst e = fts_build_key t pk'"
    using e(3) assms(1) by (auto simp: fts_index_def elim!: fts_entryE)
  then have "length t = tlen \<and> prefix (qt_term qt) t" using prefix_bucket [OF e(1) _ k(1)] e(2,4) by simp
  then show "term_matches maxw ix qt pk" using assms(2) e k by (auto simp: term_matches_def indexed_def intro!: exI [of _ t])
next
  assume "term_matches maxw ix qt pk"
  then obtain t e where t: "prefix (qt_term qt) t" "length t \<le> min maxw FTS_MAX_TERM_BYTES" "e \<in> set ix" "fst e = le_bytes 2 (length t) @ t @ pk"
    using assms(2) by (auto simp: term_matches_def indexed_def fts_build_key_def)
  then have "prefix (le_bytes 2 (length t) @ qt_term qt) (fst e)" "pk = drop (2 + length t) (fst e)" by auto
  then show "pk \<in> set (map fst (term_postings maxw ix qt))"
    unfolding trunc_pks [OF assms]
    by (intro CollectI exI [of _ "length t"] exI [of _ e] conjI t(2,3) prefix_length_le [OF t(1)])
qed

lemma postings_match:
  assumes "fts_index ix" "length (qt_term qt) \<le> FTS_MAX_TERM_BYTES"
  shows "pk \<in> set (map fst (term_postings maxw ix qt)) \<longleftrightarrow> term_matches maxw ix qt pk"
  using exact_pks_set [OF assms(1) _ assms(2)] trunc_pks_set [OF assms(1)]
  by (cases "qt_trunc qt") (simp_all add: term_matches_def del: set_map)

section \<open>Scores and filters\<close>

lemma dom_update: "fst ` set (AList.update k v m) = insert k (fst ` set m)"
  by (induction m) auto

lemma dom_delete: "fst ` set (AList.delete k m) = fst ` set m - {k}"
  by (induction m) auto

lemma map_of_bump: "map_of (bump k d m) k' = (if k' = k then Some ((case map_of m k of None \<Rightarrow> 0 | Some x \<Rightarrow> x) + d) else map_of m k')"
  by (auto simp: bump_def update_conv')

lemma dom_bump: "fst ` set (bump k d m) = insert k (fst ` set m)"
  by (simp add: bump_def dom_update)

lemma distinct_bump: "distinct (map fst m) \<Longrightarrow> distinct (map fst (bump k d m))"
  by (simp add: bump_def distinct_update)

text \<open>What one term does to the scored documents, to the hits of a document and to the count of required terms.\<close>

definition hits :: "search_acc \<Rightarrow> bytes \<Rightarrow> nat" where
  "hits acc pk = (case map_of (doc_required_hits acc) pk of None \<Rightarrow> 0 | Some h \<Rightarrow> h)"

lemma fold_postings_docs:
  "fst ` set (doc_scores (fold (score_posting score y df) ps acc)) =
    (if y < 0 then fst ` set (doc_scores acc) - fst ` set ps else fst ` set (doc_scores acc) \<union> fst ` set ps)"
  by (induction ps arbitrary: acc) (auto simp: score_posting_def FTS_TERM_NEUTRAL_def Let_def dom_bump dom_delete split: prod.splits)

lemma fold_postings_hits:
  "hits (fold (score_posting score y df) ps acc) pk = hits acc pk + (if 0 < y then count_list (map fst ps) pk else 0)"
  by (induction ps arbitrary: acc) (auto simp: score_posting_def FTS_TERM_NEUTRAL_def Let_def hits_def map_of_bump split: prod.splits option.splits)

lemma fold_postings_rest:
  "num_required (fold (score_posting score y df) ps acc) = num_required acc"
  "distinct (map fst (doc_scores acc)) \<Longrightarrow> distinct (map fst (doc_scores (fold (score_posting score y df) ps acc)))"
  by (induction ps arbitrary: acc)
     (auto simp: score_posting_def FTS_TERM_NEUTRAL_def Let_def distinct_bump distinct_delete split: prod.splits)

section \<open>The documents a query finds\<close>

definition required :: "fts_query_term \<Rightarrow> bool" where "required qt \<longleftrightarrow> 0 < qt_yesno qt"
definition excluded :: "fts_query_term \<Rightarrow> bool" where "excluded qt \<longleftrightarrow> qt_yesno qt < 0"

text \<open>A term adds its documents, an excluded one removes them from those found before it.\<close>

definition found :: "nat \<Rightarrow> index_entry list \<Rightarrow> fts_query_term list \<Rightarrow> bytes \<Rightarrow> bool" where
  "found maxw ix terms pk =
     foldl (\<lambda>b qt. if excluded qt then b \<and> \<not> term_matches maxw ix qt pk else b \<or> term_matches maxw ix qt pk) False terms"

definition excluded_last :: "fts_query_term list \<Rightarrow> bool" where
  "excluded_last terms \<longleftrightarrow> sorted_wrt (\<lambda>s t. excluded s \<longrightarrow> excluded t) terms"

lemma found_excluded_last:
  "excluded_last terms \<Longrightarrow> found maxw ix terms pk \<longleftrightarrow>
     (\<exists>qt\<in>set terms. \<not> excluded qt \<and> term_matches maxw ix qt pk) \<and> (\<forall>qt\<in>set terms. excluded qt \<longrightarrow> \<not> term_matches maxw ix qt pk)"
proof (induction terms rule: rev_induct)
  case (snoc t terms)
  then have "excluded_last terms" "excluded t \<or> (\<forall>s\<in>set terms. \<not> excluded s)"
    by (auto simp: excluded_last_def sorted_wrt_append)
  then show ?case using snoc.IH by (auto simp: found_def)
qed (simp add: found_def)

definition good_terms :: "fts_query_term list \<Rightarrow> bool" where
  "good_terms terms \<longleftrightarrow> (\<forall>qt\<in>set terms. length (qt_term qt) \<le> FTS_MAX_TERM_BYTES \<and> (required qt \<longrightarrow> \<not> qt_trunc qt))"

lemma count_list_distinct: "distinct xs \<Longrightarrow> count_list xs x = (if x \<in> set xs then 1 else 0)"
  by (induction xs) auto

lemma score_term_step:
  assumes "fts_index ix" "good_terms [qt]"
  shows "fst ` set (doc_scores (score_term score maxw (\<lambda>_. Some ix) acc qt)) =
      (if excluded qt then fst ` set (doc_scores acc) - {pk. term_matches maxw ix qt pk}
       else fst ` set (doc_scores acc) \<union> {pk. term_matches maxw ix qt pk})" (is ?docs)
    and "hits (score_term score maxw (\<lambda>_. Some ix) acc qt) pk =
      hits acc pk + (if required qt \<and> term_matches maxw ix qt pk then 1 else 0)" (is ?hits)
    and "num_required (score_term score maxw (\<lambda>_. Some ix) acc qt) = num_required acc + (if required qt then 1 else 0)"
    and "distinct (map fst (doc_scores acc)) \<Longrightarrow> distinct (map fst (doc_scores (score_term score maxw (\<lambda>_. Some ix) acc qt)))"
proof -
  have m: "fst ` set (term_postings maxw ix qt) = {pk. term_matches maxw ix qt pk}"
    using postings_match [OF assms(1), of qt] assms(2) by (auto simp: good_terms_def)
  then show ?docs by (simp add: score_term_def fold_postings_docs FTS_TERM_NEUTRAL_def excluded_def Let_def)
  have "required qt \<Longrightarrow> count_list (map fst (term_postings maxw ix qt)) pk = (if term_matches maxw ix qt pk then 1 else 0)"
    using exact_pks_distinct [OF assms(1)] assms(2) m by (auto simp: good_terms_def count_list_distinct)
  moreover have "hits (acc\<lparr>num_required := n\<rparr>) pk = hits acc pk" for n by (simp add: hits_def)
  ultimately show ?hits by (simp add: score_term_def fold_postings_hits FTS_TERM_NEUTRAL_def required_def Let_def)
qed (simp_all add: score_term_def fold_postings_rest FTS_TERM_NEUTRAL_def required_def Let_def)

lemma score_terms:
  assumes "fts_index ix" "good_terms terms"
  shows "(let acc = foldl (score_term score maxw (\<lambda>_. Some ix)) empty_acc terms in
      fst ` set (doc_scores acc) = {pk. found maxw ix terms pk} \<and>
      (\<forall>pk. hits acc pk = length (filter (\<lambda>qt. required qt \<and> term_matches maxw ix qt pk) terms)) \<and>
      num_required acc = length (filter required terms) \<and> distinct (map fst (doc_scores acc)))"
  using assms(2)
proof (induction terms rule: rev_induct)
  case Nil
  then show ?case by (simp add: empty_acc_def found_def hits_def)
next
  case (snoc t terms)
  then have g: "good_terms [t]" "good_terms terms" by (simp_all add: good_terms_def)
  show ?case using snoc.IH [OF g(2)] by (auto simp: Let_def found_def score_term_step [OF assms(1) g(1)])
qed

lemma filter_all_iff: "length (filter P xs) \<le> length (filter (\<lambda>x. P x \<and> Q x) xs) \<longleftrightarrow> (\<forall>x\<in>set xs. P x \<longrightarrow> Q x)"
proof (induction xs)
  case (Cons a xs)
  have "length (filter (\<lambda>x. P x \<and> Q x) xs) \<le> length (filter P xs)" by (induction xs) auto
  then show ?case using Cons by auto
qed simp

lemma filter_required_docs:
  fixes score :: "nat \<Rightarrow> 16 word \<Rightarrow> u32 \<Rightarrow> real" and maxw :: nat
  assumes "fts_index ix" "good_terms terms"
  defines "acc \<equiv> foldl (score_term score maxw (\<lambda>_. Some ix)) empty_acc terms"
  shows "fst ` set (filter_required acc) =
      {pk. found maxw ix terms pk \<and> (\<forall>qt\<in>set terms. required qt \<longrightarrow> term_matches maxw ix qt pk)}"
    and "distinct (map fst (filter_required acc))"
proof -
  have a: "fst ` set (doc_scores acc) = {pk. found maxw ix terms pk}" "num_required acc = length (filter required terms)"
    "hits acc pk = length (filter (\<lambda>qt. required qt \<and> term_matches maxw ix qt pk) terms)" "distinct (map fst (doc_scores acc))" for pk
    using score_terms [OF assms(1,2), of score maxw] by (simp_all add: acc_def Let_def)
  have f: "filter_required acc = filter (\<lambda>e. num_required acc \<le> hits acc (fst e)) (doc_scores acc)"
    by (auto simp: filter_required_def hits_def intro!: filter_cong split: option.splits)
  have "num_required acc \<le> hits acc pk \<longleftrightarrow> (\<forall>qt\<in>set terms. required qt \<longrightarrow> term_matches maxw ix qt pk)" for pk
    by (simp add: a filter_all_iff)
  then have "fst ` set (filter_required acc) =
      fst ` set (doc_scores acc) \<inter> {pk. \<forall>qt\<in>set terms. required qt \<longrightarrow> term_matches maxw ix qt pk}"
    unfolding f by auto
  then show "fst ` set (filter_required acc) =
      {pk. found maxw ix terms pk \<and> (\<forall>qt\<in>set terms. required qt \<longrightarrow> term_matches maxw ix qt pk)}"
    using a(1) by auto
  show "distinct (map fst (filter_required acc))" unfolding f using a(4) by (rule distinct_map_filter)
qed

lemma verify_phrases_docs:
  "set (verify_phrases cs cfg fetch terms rs) =
    {r \<in> set rs. \<forall>qt\<in>set terms. \<forall>ph. qt_phrase qt = Some ph \<longrightarrow>
       (\<exists>vals. fetch (fst r) = Some vals \<and> sublist ph (fts_extract_and_tokenize cs cfg vals))}"
proof -
  have s: "set (somes (map qt_phrase terms)) = {ph. \<exists>qt\<in>set terms. qt_phrase qt = Some ph}" for terms
    by (induction terms) (auto split: option.splits simp: somes_def List.map_filter_def)
  show ?thesis
  proof (cases "somes (map qt_phrase terms) = []")
    case True
    then have "qt_phrase qt \<noteq> Some ph" if "qt \<in> set terms" for qt ph using s [of terms] that by auto
    then show ?thesis using True by (auto simp: verify_phrases_def)
  next
    case False
    then have "set (somes (map qt_phrase terms)) \<noteq> {}" by simp
    then obtain qt0 ph0 where "qt0 \<in> set terms" "qt_phrase qt0 = Some ph0" unfolding s by blast
    then have "(case fetch pk of None \<Rightarrow> False | Some vals \<Rightarrow>
          list_all (fts_phrase_in_tokens (fts_extract_and_tokenize cs cfg vals)) (somes (map qt_phrase terms))) \<longleftrightarrow>
        (\<forall>qt\<in>set terms. \<forall>ph. qt_phrase qt = Some ph \<longrightarrow>
           (\<exists>vals. fetch pk = Some vals \<and> sublist ph (fts_extract_and_tokenize cs cfg vals)))" for pk
      by (cases "fetch pk") (auto simp: list_all_iff phrase_in_tokens_sublist s)
    then show ?thesis using False by (simp add: verify_phrases_def case_prod_unfold)
  qed
qed

lemma verify_phrases_filter: "\<exists>P. verify_phrases cs cfg fetch terms rs = filter P rs"
  unfolding verify_phrases_def Let_def by (metis filter_True)

lemma image_fst_filter: "fst ` {r \<in> S. Q (fst r)} = fst ` S \<inter> {k. Q k}"
  by auto

lemma search_results_docs:
  assumes "fts_index ix" "good_terms terms"
  shows "fst ` set (search_results cs cfg score (\<lambda>_. Some ix) fetch terms) =
      {pk. found (max_word_len cfg) ix terms pk \<and> (\<forall>qt\<in>set terms. required qt \<longrightarrow> term_matches (max_word_len cfg) ix qt pk) \<and>
         (\<forall>qt\<in>set terms. \<forall>ph. qt_phrase qt = Some ph \<longrightarrow>
            (\<exists>vals. fetch pk = Some vals \<and> sublist ph (fts_extract_and_tokenize cs cfg vals)))}"
    and "distinct (map fst (search_results cs cfg score (\<lambda>_. Some ix) fetch terms))"
    and "sorted_wrt (\<lambda>r s. snd s \<le> snd r) (search_results cs cfg score (\<lambda>_. Some ix) fetch terms)"
proof -
  let ?rs = "filter_required (foldl (score_term score (max_word_len cfg) (\<lambda>_. Some ix)) empty_acc terms)"
  let ?out = "search_results cs cfg score (\<lambda>_. Some ix) fetch terms"
  show "fst ` set ?out =
      {pk. found (max_word_len cfg) ix terms pk \<and> (\<forall>qt\<in>set terms. required qt \<longrightarrow> term_matches (max_word_len cfg) ix qt pk) \<and>
         (\<forall>qt\<in>set terms. \<forall>ph. qt_phrase qt = Some ph \<longrightarrow>
            (\<exists>vals. fetch pk = Some vals \<and> sublist ph (fts_extract_and_tokenize cs cfg vals)))}"
    unfolding search_results_def set_sort verify_phrases_docs
      image_fst_filter [of _ "\<lambda>pk. \<forall>qt\<in>set terms. \<forall>ph. qt_phrase qt = Some ph \<longrightarrow>
        (\<exists>vals. fetch pk = Some vals \<and> sublist ph (fts_extract_and_tokenize cs cfg vals))"]
      filter_required_docs(1) [OF assms] by blast
  obtain P where P: "verify_phrases cs cfg fetch terms ?rs = filter P ?rs" using verify_phrases_filter by blast
  have "distinct (map fst (filter P ?rs))" using filter_required_docs(2) [OF assms] by (rule distinct_map_filter)
  then have "distinct (map fst (sort_key (\<lambda>r. - snd r) (filter P ?rs)))" by (simp add: distinct_map)
  then show "distinct (map fst ?out)" by (simp add: search_results_def P)
  show "sorted_wrt (\<lambda>r s. snd s \<le> snd r) ?out"
    using sorted_sort_key [of "\<lambda>r. - snd r" "filter P ?rs"] by (simp add: search_results_def P sorted_wrt_map)
qed

text \<open>A usable index with a transaction gives a result even for a query without terms.\<close>

lemma ft_init_ext_some: "\<exists>i. fst (ft_init_ext cs cfg k1 b True True E t cf iter fetch ft_bool inx key e) = Some i"
  by (auto simp: ft_init_ext_def Let_def split: prod.splits)

section \<open>BM25\<close>

lemma bm25_idf_pos: "int df \<le> total_docs \<Longrightarrow> 0 < bm25_idf total_docs df"
proof -
  assume "int df \<le> total_docs"
  then have "0 < (real_of_int total_docs - real df + 1 / 2) / (real df + 1 / 2)" by (intro divide_pos_pos) linarith+
  then show ?thesis by (simp add: bm25_idf_def)
qed

lemma frac_mono:
  fixes x y c :: real
  assumes "0 \<le> x" "x < y" "0 < c"
  shows "x / (x + c) < y / (y + c)"
  using assms by (simp add: divide_simps) (simp add: algebra_simps)

text \<open>A word that occurs more often in a document scores it higher; a longer document scores lower.\<close>

lemma bm25_tf_norm_mono:
  assumes "0 < k1" "0 \<le> b" "b < 1" "0 \<le> ia" "unat tf < unat tf'"
  shows "bm25_tf_norm k1 b ia tf dl < bm25_tf_norm k1 b ia tf' dl"
proof -
  let ?c = "k1 * (1 - b + b * real (unat dl) * ia)"
  have "0 < 1 - b + b * real (unat dl) * ia" using assms by (intro add_pos_nonneg mult_nonneg_nonneg of_nat_0_le_iff) simp_all
  then have "0 < ?c" using assms(1) by simp
  then have "real (unat tf) / (real (unat tf) + ?c) * (k1 + 1) < real (unat tf') / (real (unat tf') + ?c) * (k1 + 1)"
    using assms(1,5) by (intro mult_strict_right_mono frac_mono of_nat_0_le_iff of_nat_less_iff [THEN iffD2]) simp_all
  then show ?thesis by (simp add: bm25_tf_norm_def)
qed

section \<open>Reading\<close>

text \<open>All reads until the end of the results.\<close>

fun read_all :: "nat \<Rightarrow> (bytes \<Rightarrow> ha_err + 'r) \<Rightarrow> ft_info \<Rightarrow> 'r list" where
  "read_all 0 fetch i = []"
| "read_all (Suc n) fetch i =
     (case ft_read False None fetch (Some i) of
        (Inr row, Some i') \<Rightarrow> row # read_all n fetch i'
      | _ \<Rightarrow> [])"

definition rows_of :: "(bytes \<Rightarrow> ha_err + 'r) \<Rightarrow> (bytes \<times> real) list \<Rightarrow> 'r list" where
  "rows_of fetch rs = List.map_filter (\<lambda>(pk, _). case fetch pk of Inl _ \<Rightarrow> None | Inr row \<Rightarrow> Some row) rs"

lemma rows_of_simps [simp]:
  "rows_of fetch [] = []"
  "rows_of fetch ((pk, rank) # rs) = (case fetch pk of Inl _ \<Rightarrow> rows_of fetch rs | Inr row \<Rightarrow> row # rows_of fetch rs)"
  by (simp_all add: rows_of_def List.map_filter_simps split: sum.splits)

lemma ft_read_loop_row:
  "ft_read_loop fetch rs i = (Inr row, i') \<Longrightarrow>
     \<exists>k<length rs. rows_of fetch rs = row # rows_of fetch (drop (Suc k) rs) \<and>
       current_idx i' = current_idx i + Suc k \<and> results i' = results i"
proof (induction fetch rs i rule: ft_read_loop.induct)
  case (2 fetch pk rank rs i)
  show ?case
  proof (cases "fetch pk")
    case (Inl err)
    let ?i = "i\<lparr>current_rank := rank, current_idx := current_idx i + 1\<rparr>"
    have "err = HA_ERR_KEY_NOT_FOUND" "ft_read_loop fetch rs ?i = (Inr row, i')"
      using 2(2) Inl by (simp_all add: Let_def split: if_splits)
    then obtain k where "k < length rs" "rows_of fetch rs = row # rows_of fetch (drop (Suc k) rs)"
      "current_idx i' = current_idx ?i + Suc k" "results i' = results ?i" using 2(1) [of "i\<lparr>current_rank := rank\<rparr>" err] Inl by auto
    then show ?thesis using Inl by (intro exI [of _ "Suc k"]) simp
  next
    case (Inr row')
    then show ?thesis using 2(2) by (intro exI [of _ 0]) (auto simp: Let_def)
  qed
qed simp

lemma ft_read_loop_end:
  "ft_read_loop fetch rs i = (Inl err, i') \<Longrightarrow>
     \<forall>(pk, _)\<in>set rs. \<forall>err. fetch pk = Inl err \<longrightarrow> err = HA_ERR_KEY_NOT_FOUND \<Longrightarrow> rows_of fetch rs = []"
  by (induction fetch rs i rule: ft_read_loop.induct) (auto simp: Let_def split: sum.splits if_splits)

lemma read_all_rows:
  assumes "\<forall>(pk, _)\<in>set (results i). \<forall>err. fetch pk = Inl err \<longrightarrow> err = HA_ERR_KEY_NOT_FOUND"
    and "length (results i) - current_idx i < n"
  shows "read_all n fetch i = rows_of fetch (drop (current_idx i) (results i))"
  using assms
proof (induction n arbitrary: i)
  case (Suc n)
  let ?rs = "drop (current_idx i) (results i)"
  obtain r i' where l: "ft_read_loop fetch ?rs i = (r, i')" by fastforce
  have e: "\<forall>(pk, _)\<in>set ?rs. \<forall>err. fetch pk = Inl err \<longrightarrow> err = HA_ERR_KEY_NOT_FOUND"
    using Suc.prems(1) by (auto dest: in_set_dropD)
  show ?case
  proof (cases r)
    case (Inl err)
    then show ?thesis using ft_read_loop_end [OF _ e] l by (simp add: ft_read_def)
  next
    case (Inr x)
    then obtain k where k: "k < length ?rs" "rows_of fetch ?rs = x # rows_of fetch (drop (Suc k) ?rs)"
      "current_idx i' = current_idx i + Suc k" "results i' = results i" using ft_read_loop_row [of fetch ?rs i x i'] l by auto
    have "read_all n fetch i' = rows_of fetch (drop (current_idx i') (results i'))"
      using Suc k by (intro Suc.IH) auto
    then show ?thesis using Inr l k by (simp add: ft_read_def add.commute)
  qed
qed simp

section \<open>A sample index\<close>

text \<open>Document 1 has \<open>red\<close>, document 2 \<open>red\<close> and \<open>fox\<close>, document 3 \<open>fox\<close> and \<open>foxes\<close>.\<close>

definition sample_entry :: "string \<Rightarrow> byte \<Rightarrow> index_entry" where
  "sample_entry w d = (fts_build_key (str w) [d], Some (fts_build_value 1 2))"

definition sample_index :: "index_entry list" where
  "sample_index = [sample_entry ''fox'' 2, sample_entry ''fox'' 3, sample_entry ''red'' 1, sample_entry ''red'' 2, sample_entry ''foxes'' 3]"

lemma sample_index_ok: "fts_index sample_index"
proof -
  have "fts_entry (sample_entry w d)" if "length w \<le> 512" for w d
    unfolding sample_entry_def fts_entry_def
    using that by (intro exI [of _ "str w"] exI [of _ "[d]"] exI [of _ 1] exI [of _ 2]) (simp add: str_def FTS_MAX_TERM_BYTES_def)
  then have "\<forall>e\<in>set sample_index. fts_entry e" by (simp add: sample_index_def)
  moreover have "sorted_wrt (<) (map fst sample_index)" by code_simp
  ultimately show ?thesis by (simp add: fts_index_def)
qed

definition sample_search :: "bytes \<Rightarrow> bytes list" where
  "sample_search q = map fst (search_results ascii_cs default_cfg (\<lambda>_ _ _. 1) (\<lambda>_. Some sample_index) (\<lambda>_. None)
     (query_terms ascii_cs default_cfg True q))"

section \<open>Findings\<close>

text \<open>An excluded term only removes what was found before it: \<open>red -fox\<close> finds document 1 alone, but
  \<open>-fox red\<close> also finds document 2, which has both words.\<close>

theorem leading_exclusion_ignored:
  "sample_search (str ''red -fox'') = [[1]] \<and> sample_search (str ''-fox red'') = [[1], [2]]"
  by code_simp

text \<open>A required prefix counts once per word it matches: \<open>+fox* +red\<close> finds document 3, which has two words
  with the prefix and not the word \<open>red\<close>.\<close>

theorem required_prefix_counts_words:
  "sample_search (str ''+fox* +red'') = [[2], [3]] \<and> \<not> indexed sample_index (str ''red'') [3]"
  by code_simp

section \<open>Properties\<close>


definition sample_query_key :: bytes where "sample_query_key = str ''red -fox''"


text \<open>C40: reading the results of a search ends and gives every row that still exists, in the order of the
  results: rows deleted since the search are skipped, and one read more than there are results
  is enough to see the end.\<close>

theorem ft_read_complete:
  assumes "\<forall>(pk, _)\<in>set (results i). \<forall>err. fetch pk = Inl err \<longrightarrow> err = HA_ERR_KEY_NOT_FOUND"
  shows "read_all (Suc (length (results i))) fetch (tdb_fts_reinit_search i) = rows_of fetch (results i)"
  using read_all_rows [of "tdb_fts_reinit_search i" fetch "Suc (length (results i))"] assms by (simp add: tdb_fts_reinit_search_def)

definition sample_info :: ft_info where
  "sample_info = \<lparr>keynr = 0, results = [([1], 2), ([2], 1), ([3], 1)], current_idx = 2, current_rank = 0, match_count = 3\<rparr>"

definition sample_fetch :: "bytes \<Rightarrow> ha_err + bytes" where
  "sample_fetch pk = (if pk = [2] then Inl HA_ERR_KEY_NOT_FOUND else Inr (pk @ pk))"

theorem ft_read_complete_witness:
  "read_all 4 sample_fetch (tdb_fts_reinit_search sample_info) = [[1, 1], [3, 3]]"
proof -
  have "\<forall>(pk, _)\<in>set (results sample_info). \<forall>err. sample_fetch pk = Inl err \<longrightarrow> err = HA_ERR_KEY_NOT_FOUND"
    by (simp add: sample_info_def sample_fetch_def)
  moreover have "rows_of sample_fetch (results sample_info) = [[1, 1], [3, 3]]" "length (results sample_info) = 3"
    by code_simp+
  ultimately show ?thesis using ft_read_complete [of sample_info sample_fetch] by simp
qed

end
