(* ===== verification/Cf_Names.thy ===== *)
theory Cf_Names
  imports TDB_Prelude
begin

text \<open>Names and paths (\<open>ha_tidesdb.cc\<close>): the column family of a table path and of an index, the
  key of a table in the schema column family, the database of a directory path, and the checks on the
  destination of a backup. Paths are strings; resolving one against the file system is a parameter.\<close>

section \<open>Definitions\<close>

definition CF_INDEX_INFIX :: string where "CF_INDEX_INFIX = ''__idx_''"
definition CF_DB_TABLE_SEP :: string where "CF_DB_TABLE_SEP = ''__''"
definition MARIADB_REL_PATH_PREFIX :: string where "MARIADB_REL_PATH_PREFIX = ''./''"
definition SCHEMA_CF_KEY_SEP :: char where "SCHEMA_CF_KEY_SEP = CHR 0x00"

subsection \<open>Splitting paths\<close>

text \<open>What stands before and after the last slash, if there is one.\<close>

definition rsplit :: "string \<Rightarrow> (string \<times> string) option" where
  "rsplit p =
     (if CHR ''/'' \<in> set p
      then Some (rev (drop 1 (dropWhile (\<lambda>c. c \<noteq> CHR ''/'') (rev p))), rev (takeWhile (\<lambda>c. c \<noteq> CHR ''/'') (rev p)))
      else None)"

definition strip_rel :: "string \<Rightarrow> string" where
  "strip_rel p = (if take 2 p = MARIADB_REL_PATH_PREFIX then drop 2 p else p)"

text \<open>The database and the table of a path; no database where the path has no slash.\<close>

definition db_and_table :: "string \<Rightarrow> string option \<times> string" where
  "db_and_table path =
     (case rsplit (strip_rel path) of
        None \<Rightarrow> (None, strip_rel path)
      | Some (before, tblname) \<Rightarrow> (Some (case rsplit before of None \<Rightarrow> before | Some (_, dbname) \<Rightarrow> dbname), tblname))"

definition path_to_cf_name :: "string \<Rightarrow> string" where
  "path_to_cf_name path =
     (case db_and_table path of
        (None, p) \<Rightarrow> p
      | (Some dbname, tblname) \<Rightarrow> map (\<lambda>c. if c = CHR ''#'' then CHR ''_'' else c) (dbname @ CF_DB_TABLE_SEP @ tblname))"

definition schema_cf_key :: "string \<Rightarrow> string \<Rightarrow> string" where
  "schema_cf_key db tbl = db @ [SCHEMA_CF_KEY_SEP] @ tbl"

definition schema_cf_key_from_path :: "string \<Rightarrow> string" where
  "schema_cf_key_from_path path =
     (case db_and_table path of
        (None, p) \<Rightarrow> SCHEMA_CF_KEY_SEP # p
      | (Some dbname, tblname) \<Rightarrow> dbname @ [SCHEMA_CF_KEY_SEP] @ tblname)"

definition idx_cf_name :: "string \<Rightarrow> string \<Rightarrow> string" where
  "idx_cf_name table_cf key_name = table_cf @ CF_INDEX_INFIX @ key_name"

definition tidesdb_path_to_db_name :: "string \<Rightarrow> string" where
  "tidesdb_path_to_db_name path =
     (let p = rev (dropWhile (\<lambda>c. c = CHR ''/'') (rev path)) in
      rev (takeWhile (\<lambda>c. c \<noteq> CHR ''/'' \<and> c \<noteq> CHR 0x5C) (rev p)))"

subsection \<open>Log lines and backup destinations\<close>

text \<open>A C string ends at its first zero byte; \<open>out_size\<close> counts the terminator.\<close>

definition tdb_sanitize_for_log :: "string \<Rightarrow> nat \<Rightarrow> string" where
  "tdb_sanitize_for_log str_in out_size =
     map (\<lambda>c. if of_char c < (0x20 :: nat) \<or> of_char c = (0x7F :: nat) then CHR ''?'' else c)
       (take (out_size - 1) (takeWhile (\<lambda>c. c \<noteq> CHR 0x00) str_in))"

text \<open>The search for \<open>..\<close>: \<open>bound\<close> says that the place is the start or follows a slash.\<close>

fun no_dotdot :: "bool \<Rightarrow> string \<Rightarrow> bool" where
  "no_dotdot bound [] = True"
| "no_dotdot bound [c] = True"
| "no_dotdot bound (c # d # s) =
     (if c = CHR ''.'' \<and> d = CHR ''.''
      then (if bound \<and> (s = [] \<or> hd s = CHR ''/'') then False else no_dotdot False s)
      else no_dotdot (c = CHR ''/'') (d # s))"

text \<open>The first argument is the buffer up to the length the server gave.\<close>

definition tdb_path_is_safe :: "string \<Rightarrow> bool" where
  "tdb_path_is_safe path \<longleftrightarrow> path \<noteq> [] \<and> hd path = CHR ''/'' \<and> CHR 0x00 \<notin> set path \<and> no_dotdot True path"

definition parent_dir :: "string \<Rightarrow> string" where
  "parent_dir dest = (case rsplit dest of None \<Rightarrow> ''/'' | Some (before, _) \<Rightarrow> if before = [] then ''/'' else before)"

definition tdb_path_is_under_allowed_root :: "(string \<Rightarrow> string option) \<Rightarrow> string \<Rightarrow> string \<Rightarrow> bool" where
  "tdb_path_is_under_allowed_root realpath allowed_root path =
     (if allowed_root = [] then True
      else case realpath allowed_root of
        None \<Rightarrow> False
      | Some root_real \<Rightarrow> (case realpath (parent_dir path) of
            None \<Rightarrow> False
          | Some parent_real \<Rightarrow>
              let rlen = length root_real in
              if take rlen parent_real \<noteq> root_real then False
              else rlen = length parent_real \<or> parent_real ! rlen = CHR ''/''))"

section \<open>Separators\<close>

text \<open>A separator that does not occur before its place splits a string in one way.\<close>

definition sep_free :: "string \<Rightarrow> string \<Rightarrow> bool" where
  "sep_free sep x \<longleftrightarrow> \<not> sublist sep (x @ butlast sep)"

lemma sep_split_le:
  assumes "sep \<noteq> []" "sep_free sep y" "x @ sep @ u = y @ sep @ v" "length x \<le> length y"
  shows "x = y"
proof (rule ccontr)
  assume ne: "x \<noteq> y"
  obtain us where us: "y = x @ us" using assms(3,4) by (metis append_eq_append_conv_if append_take_drop_id)
  then have "us \<noteq> []" using ne by auto
  then have l: "length x + length sep \<le> length y + length (butlast sep)"
    using us assms(1) by (cases us) (simp_all add: Suc_leI)
  have "take (length y + length (butlast sep)) (y @ sep @ v) = y @ butlast sep"
    by (simp add: butlast_conv_take)
  moreover have "prefix (x @ sep) (take (length y + length (butlast sep)) (x @ sep @ u))"
    using l by (simp add: prefix_def)
  ultimately have "prefix (x @ sep) (y @ butlast sep)" using assms(3) by simp
  then have "sublist sep (y @ butlast sep)" by (auto simp: prefix_def sublist_def)
  then show False using assms(2) by (simp add: sep_free_def)
qed

lemma sep_split:
  assumes "sep \<noteq> []" "sep_free sep x" "sep_free sep y"
  shows "x @ sep @ u = y @ sep @ v \<longleftrightarrow> x = y \<and> u = v"
proof
  assume e: "x @ sep @ u = y @ sep @ v"
  have "x = y"
    using sep_split_le [OF assms(1,3) e] sep_split_le [OF assms(1,2) e [symmetric]] by fastforce
  then show "x = y \<and> u = v" using e by simp
qed simp

section \<open>Table paths\<close>

lemma rsplit_slash: "CHR ''/'' \<notin> set t \<Longrightarrow> rsplit (b @ CHR ''/'' # t) = Some (b, t)"
  by (auto simp: rsplit_def takeWhile_append dropWhile_append)

lemma rsplit_none: "CHR ''/'' \<notin> set t \<Longrightarrow> rsplit t = None"
  by (simp add: rsplit_def)

lemma strip_rel_cases: "strip_rel p = p \<or> (\<exists>r. p = CHR ''.'' # CHR ''/'' # r \<and> strip_rel p = r)"
  by (cases p; cases "tl p") (auto simp: strip_rel_def MARIADB_REL_PATH_PREFIX_def)

text \<open>Whatever directory the server names, the database is the last directory and the table the file.\<close>

lemma db_and_table_path:
  assumes "CHR ''/'' \<notin> set db" "CHR ''/'' \<notin> set tbl"
  shows "db_and_table (dir @ ''/'' @ db @ ''/'' @ tbl) = (Some db, tbl)"
proof -
  let ?p = "dir @ ''/'' @ db @ ''/'' @ tbl"
  have "strip_rel ?p = db @ ''/'' @ tbl \<or> (\<exists>b. strip_rel ?p = b @ ''/'' @ db @ ''/'' @ tbl)"
  proof (cases "strip_rel ?p = ?p")
    case False
    then obtain r where r: "?p = CHR ''.'' # CHR ''/'' # r" "strip_rel ?p = r" using strip_rel_cases by blast
    show ?thesis
    proof (cases "length dir \<le> 1")
      case True
      then show ?thesis using r by (cases dir) auto
    next
      case False
      then obtain b where "dir = CHR ''.'' # CHR ''/'' # b" using r(1) by (cases dir; cases "tl dir") auto
      then show ?thesis using r by auto
    qed
  qed blast
  moreover have "rsplit (b @ ''/'' @ db @ ''/'' @ tbl) = Some (b @ ''/'' @ db, tbl)" for b
    using rsplit_slash [OF assms(2), of "b @ ''/'' @ db"] by simp
  moreover have "rsplit (db @ ''/'' @ tbl) = Some (db, tbl)" using rsplit_slash [OF assms(2), of db] by simp
  moreover have "rsplit (b @ ''/'' @ db) = Some (b, db)" for b using rsplit_slash [OF assms(1), of b] by simp
  ultimately show ?thesis using rsplit_none [OF assms(1)] by (auto simp: db_and_table_def)
qed

text \<open>Names the server makes for ordinary tables: no slash and no temporary-table marker.\<close>

definition plain_name :: "string \<Rightarrow> bool" where
  "plain_name n \<longleftrightarrow> CHR ''/'' \<notin> set n \<and> CHR ''#'' \<notin> set n"

lemma no_hash_map: "CHR ''#'' \<notin> set s \<Longrightarrow> map (\<lambda>c. if c = CHR ''#'' then CHR ''_'' else c) s = s"
  by (rule map_idI) auto

lemma cf_name_of_path:
  assumes "plain_name db" "plain_name tbl"
  shows "path_to_cf_name (dir @ ''/'' @ db @ ''/'' @ tbl) = db @ CF_DB_TABLE_SEP @ tbl"
  unfolding path_to_cf_name_def using assms
  by (subst db_and_table_path) (simp_all add: plain_name_def no_hash_map CF_DB_TABLE_SEP_def)

lemma CF_DB_TABLE_SEP_ne: "CF_DB_TABLE_SEP \<noteq> []" "CF_INDEX_INFIX \<noteq> []"
  by (simp_all add: CF_DB_TABLE_SEP_def CF_INDEX_INFIX_def)

text \<open>Column families named with the prefix of a table's indexes belong to that table.\<close>

definition table_cf :: "string \<Rightarrow> string \<Rightarrow> string" where
  "table_cf db tbl = db @ CF_DB_TABLE_SEP @ tbl"

lemma table_cf_inject:
  assumes "sep_free CF_DB_TABLE_SEP db" "sep_free CF_DB_TABLE_SEP db'"
  shows "table_cf db t = table_cf db' t' \<longleftrightarrow> db = db' \<and> t = t'"
  using sep_split [OF CF_DB_TABLE_SEP_ne(1) assms] by (simp add: table_cf_def)

lemma index_prefix_table:
  assumes "sep_free CF_DB_TABLE_SEP db" "sep_free CF_DB_TABLE_SEP db'" "sep_free CF_INDEX_INFIX t'"
  shows "\<not> prefix (table_cf db t @ CF_INDEX_INFIX) (table_cf db' t')"
proof
  assume "prefix (table_cf db t @ CF_INDEX_INFIX) (table_cf db' t')"
  then obtain z where "table_cf db' t' = table_cf db (t @ CF_INDEX_INFIX @ z)" by (auto simp: prefix_def table_cf_def)
  then have "t' = t @ CF_INDEX_INFIX @ z" using table_cf_inject [OF assms(2,1)] by simp
  then have "sublist CF_INDEX_INFIX (t' @ butlast CF_INDEX_INFIX)" by (auto simp: sublist_def)
  then show False using assms(3) by (simp add: sep_free_def)
qed

lemma index_prefix_index:
  assumes "sep_free CF_DB_TABLE_SEP db" "sep_free CF_DB_TABLE_SEP db'" "sep_free CF_INDEX_INFIX t" "sep_free CF_INDEX_INFIX t'"
  shows "prefix (table_cf db t @ CF_INDEX_INFIX) (idx_cf_name (table_cf db' t') k) \<longleftrightarrow> db = db' \<and> t = t'"
proof
  assume "prefix (table_cf db t @ CF_INDEX_INFIX) (idx_cf_name (table_cf db' t') k)"
  then obtain z where "table_cf db' (t' @ CF_INDEX_INFIX @ k) = table_cf db (t @ CF_INDEX_INFIX @ z)"
    by (auto simp: prefix_def table_cf_def idx_cf_name_def)
  then have "db' = db" "t' @ CF_INDEX_INFIX @ k = t @ CF_INDEX_INFIX @ z" using table_cf_inject [OF assms(2,1)] by simp_all
  then show "db = db' \<and> t = t'" using sep_split [OF CF_DB_TABLE_SEP_ne(2) assms(4,3)] by simp
qed (simp add: idx_cf_name_def)

lemma index_prefix_disjoint:
  assumes "sep_free CF_DB_TABLE_SEP db" "sep_free CF_DB_TABLE_SEP db'" "sep_free CF_INDEX_INFIX t" "sep_free CF_INDEX_INFIX t'"
    and "prefix (table_cf db t @ CF_INDEX_INFIX) x" "prefix (table_cf db' t' @ CF_INDEX_INFIX) x"
  shows "db = db' \<and> t = t'"
proof -
  obtain k where "x = idx_cf_name (table_cf db' t') k" using assms(6) by (auto simp: prefix_def idx_cf_name_def)
  then show ?thesis using index_prefix_index [OF assms(1-4)] assms(5) by simp
qed

section \<open>Components of a path\<close>

fun comps :: "string \<Rightarrow> string list" where
  "comps [] = [[]]"
| "comps (c # s) = (if c = CHR ''/'' then [] # comps s else (c # hd (comps s)) # tl (comps s))"

lemma comps_ne [simp]: "comps s \<noteq> []"
  by (cases s) auto

lemma hd_comps_empty: "hd (comps s) = [] \<longleftrightarrow> s = [] \<or> hd s = CHR ''/''"
  by (cases s) auto

lemma hd_comps_dot: "c # hd (comps (d # s)) = ''..'' \<Longrightarrow> c = CHR ''.'' \<and> d = CHR ''.''"
  by (auto split: if_splits)

lemma set_comps: "set (comps s) = insert (hd (comps s)) (set (tl (comps s)))"
  using comps_ne [of s] by (cases "comps s") simp_all

lemma no_dotdot_comps:
  "no_dotdot bound s \<longleftrightarrow> ''..'' \<notin> (if bound then set (comps s) else set (tl (comps s)))"
proof (induction bound s rule: no_dotdot.induct)
  case (3 bound c d s)
  consider "c = CHR ''.''" "d = CHR ''.''" | "c = CHR ''/''" | "c \<noteq> CHR ''/''" "\<not> (c = CHR ''.'' \<and> d = CHR ''.'')" by blast
  then show ?case
  proof cases
    case 1
    then show ?thesis using "3.IH"(1) hd_comps_empty [of s] by auto
  next
    case 2
    then show ?thesis using "3.IH"(2) by (auto simp del: comps.simps(2) simp: comps.simps(2) [of "CHR ''/''"])
  next
    case 3
    have "c # hd (comps (d # s)) \<noteq> ''..''" using 3 hd_comps_dot by blast
    moreover have "no_dotdot False (d # s) \<longleftrightarrow> ''..'' \<notin> set (tl (comps (d # s)))" using "3.IH"(2) 3 by simp
    moreover have "no_dotdot bound (c # d # s) = no_dotdot False (d # s)" using 3 by auto
    moreover have "comps (c # d # s) = (c # hd (comps (d # s))) # tl (comps (d # s))" using 3 by (simp only: comps.simps(2) [of c] if_False)
    ultimately show ?thesis by (simp only: list.set insert_iff list.sel) auto
  qed
qed auto

lemma comps_append: "comps (a @ CHR ''/'' # b) = comps a @ comps b"
  by (induction a) auto

lemma comps_inject: "comps a = comps b \<Longrightarrow> a = b"
proof (induction a arbitrary: b)
  case Nil
  then show ?case using comps_ne [symmetric] by (cases b) (auto split: if_splits)
next
  case (Cons c a)
  then show ?case
    by (cases b) (auto split: if_splits, metis comps_ne list.collapse)
qed

lemma comps_prefix:
  assumes "comps p = comps r @ w # ws"
  shows "\<exists>b. p = r @ CHR ''/'' # b"
  using assms
proof (induction r arbitrary: p)
  case Nil
  then show ?case by (cases p) (auto split: if_splits)
next
  case (Cons c r)
  obtain d q where p: "p = d # q" using Cons.prems by (cases p) (auto split: if_splits)
  have "d = c \<and> comps q = comps r @ w # ws"
  proof (cases "c = CHR ''/''")
    case True
    then show ?thesis using Cons.prems p by (auto split: if_splits)
  next
    case False
    then have "d # hd (comps q) = c # hd (comps r)" "tl (comps q) = tl (comps r) @ w # ws" "d \<noteq> CHR ''/''"
      using Cons.prems p by (auto split: if_splits)
    then show ?thesis by (metis append_Cons comps_ne list.collapse list.inject)
  qed
  then show ?case using Cons.IH p by fastforce
qed

text \<open>The check against the allowed root, by components of the resolved paths.\<close>

lemma root_check_comps:
  "take (length root) par = root \<and> (length root = length par \<or> par ! length root = CHR ''/'') \<longleftrightarrow>
     prefix (comps root) (comps par)" (is "?l \<longleftrightarrow> ?r")
proof
  assume l: ?l
  obtain z where z: "par = root @ z" using l by (metis append_take_drop_id)
  show ?r
  proof (cases z)
    case (Cons c w)
    then have "c = CHR ''/''" using l z by simp
    then show ?thesis using z Cons comps_append [of root w] by (simp add: prefix_def)
  qed (simp add: z)
next
  assume ?r
  then obtain ws where ws: "comps par = comps root @ ws" by (auto simp: prefix_def)
  then show ?l using comps_inject [of par root] comps_prefix [of par root] by (cases ws) auto
qed

section \<open>Findings\<close>

text \<open>Two tables can share a column family, and a table one with an index: double underscores are not
  escaped.\<close>

theorem cf_name_collision:
  "path_to_cf_name ''./a/b__c'' = path_to_cf_name ''./a__b/c'' \<and>
   path_to_cf_name ''./d/t__idx_k'' = idx_cf_name (path_to_cf_name ''./d/t'') ''k''"
  by code_simp

text \<open>An allowed root of \<open>/\<close> refuses every destination that is not directly under it.\<close>

theorem slash_root_refuses:
  "\<not> tdb_path_is_under_allowed_root Some ''/'' ''/var/backup''"
  by code_simp

section \<open>Properties\<close>

text \<open>C33: the plugin's names keep tables apart. For databases whose name does not run into the double
  underscore, whatever directories the server puts before them, two tables have the same column family
  only if they are the same table; the family of an index starts with the prefix of a table's indexes only
  for that table, and no table's own family does, when table names do not run into the index infix.\<close>

theorem cf_names_unambiguous:
  assumes "plain_name db" "plain_name db'" "plain_name t" "plain_name t'"
    and "sep_free CF_DB_TABLE_SEP db" "sep_free CF_DB_TABLE_SEP db'" "sep_free CF_INDEX_INFIX t" "sep_free CF_INDEX_INFIX t'"
  shows "let cf = path_to_cf_name (dir @ ''/'' @ db @ ''/'' @ t); cf' = path_to_cf_name (dir' @ ''/'' @ db' @ ''/'' @ t') in
    (cf = cf' \<longleftrightarrow> db = db' \<and> t = t') \<and>
    (prefix (cf @ CF_INDEX_INFIX) (idx_cf_name cf' k) \<longleftrightarrow> db = db' \<and> t = t') \<and>
    \<not> prefix (cf @ CF_INDEX_INFIX) cf'"
  unfolding cf_name_of_path [OF assms(1,3)] cf_name_of_path [OF assms(2,4)]
  using table_cf_inject [OF assms(5,6)] index_prefix_index [OF assms(5-8)] index_prefix_table [OF assms(5,6,8)]
  by (simp add: Let_def table_cf_def)

theorem cf_names_unambiguous_witness:
  "path_to_cf_name (''/var/lib'' @ ''/'' @ ''shop'' @ ''/'' @ ''orders'') \<noteq> path_to_cf_name (''.'' @ ''/'' @ ''shop'' @ ''/'' @ ''items'')"
proof -
  have "plain_name ''shop''" "plain_name ''orders''" "plain_name ''items''" by code_simp+
  moreover have "sep_free CF_DB_TABLE_SEP ''shop''" "sep_free CF_INDEX_INFIX ''orders''" "sep_free CF_INDEX_INFIX ''items''" by code_simp+
  ultimately show ?thesis using cf_names_unambiguous [of "''shop''" "''shop''" "''orders''" "''items''" "''/var/lib''" "''.''"] by (simp add: Let_def)
qed

text \<open>What is logged of a value an operator sets has no control characters and fits the buffer with its
  terminator.\<close>

theorem sanitized_for_log:
  "0 < out_size \<Longrightarrow> length (tdb_sanitize_for_log s out_size) < out_size \<and>
     (\<forall>c\<in>set (tdb_sanitize_for_log s out_size). 0x20 \<le> (of_char c :: nat) \<and> of_char c \<noteq> (0x7F :: nat))"
  by (auto simp: tdb_sanitize_for_log_def)

end
