(* ===== verification/Atomic_Ddl.thy ===== *)
theory Atomic_Ddl
  imports Engine Cf_Names "HOL-Library.Product_Lexorder"
begin

text \<open>Atomic DDL (\<open>tidesdb_atomic_ddl.cc\<close>, \<open>tidesdb_atomic_ddl_pure.cc\<close>): the store of serialized
  dictionary information with its server callbacks, and the binding of a table to its column family in the
  dictionary's private data. The engine is a parameter with the laws of theory Engine; the digest over
  the columns and the checksum over the options are parameters too.\<close>

section \<open>Definitions\<close>

subsection \<open>The SDI store\<close>

type_synonym sdi_key = "u32 \<times> u64"

definition kSdiPackedKeyLen :: nat where "kSdiPackedKeyLen = 12"
definition kTidesdbTablespace :: string where "kTidesdbTablespace = ''tidesdb_system''"
definition kSdiCfName :: string where "kSdiCfName = ''__tidesdb_sdi''"
definition kSdiTtlNone :: int where "kSdiTtlNone = - 1"

definition pack_key :: "sdi_key \<Rightarrow> bytes" where
  "pack_key k = be_loop 4 (fst k) @ be_loop 8 (snd k)"

definition unpack_key :: "bytes \<Rightarrow> sdi_key" where
  "unpack_key k =
     (push_bit 24 (ucast (k ! 0)) OR push_bit 16 (ucast (k ! 1)) OR push_bit 8 (ucast (k ! 2)) OR ucast (k ! 3),
      foldl (\<lambda>id i. push_bit 8 id OR ucast (k ! (4 + i))) 0 [0..<8])"

text \<open>The store's handle on its column family, if it has one, and the isolation of a plain begin.\<close>

record sdi_store =
  sdi_cf :: "nat option"
  sdi_iso :: isolation

text \<open>\<open>init\<close>: the family is looked up by name, created where it is missing (an answer that it exists is
  fine) and looked up again.\<close>

definition sdi_init :: "(string \<Rightarrow> 'c \<Rightarrow> nat option) \<Rightarrow> (string \<Rightarrow> 'c \<Rightarrow> tdb_rc \<times> 'c) \<Rightarrow> isolation \<Rightarrow> 'c \<Rightarrow> sdi_store option \<times> 'c" where
  "sdi_init get_cf create_cf lvl c =
     (case get_cf kSdiCfName c of
        Some cf \<Rightarrow> (Some \<lparr>sdi_cf = Some cf, sdi_iso = lvl\<rparr>, c)
      | None \<Rightarrow> (case create_cf kSdiCfName c of (rc, c1) \<Rightarrow>
          if rc \<noteq> TDB_SUCCESS \<and> rc \<noteq> TDB_ERR_EXISTS then (None, c1)
          else (case get_cf kSdiCfName c1 of None \<Rightarrow> (None, c1) | Some cf \<Rightarrow> (Some \<lparr>sdi_cf = Some cf, sdi_iso = lvl\<rparr>, c1))))"

definition sdi_put :: "'e engine \<Rightarrow> sdi_store \<Rightarrow> sdi_key \<Rightarrow> bytes \<Rightarrow> 'e \<Rightarrow> bool \<times> 'e" where
  "sdi_put E s k blob e =
     (case sdi_cf s of
        None \<Rightarrow> (False, e)
      | Some cf \<Rightarrow> (case txn_begin_with_isolation E (sdi_iso s) e of (rc, t, e1) \<Rightarrow>
          if rc \<noteq> TDB_SUCCESS then (False, e1)
          else (case txn_put E t cf (pack_key k) blob kSdiTtlNone e1 of (rc, e2) \<Rightarrow>
            if rc \<noteq> TDB_SUCCESS then (False, txn_free E t (txn_rollback E t e2))
            else (case txn_commit E t e2 of (rc, e3) \<Rightarrow> (rc = TDB_SUCCESS, txn_free E t e3)))))"

text \<open>\<open>get\<close>: \<open>cap\<close> is None for a size probe and the room in the caller's buffer otherwise. The answer is
  success, the new length where it is set, and the bytes copied.\<close>

definition sdi_get :: "'e engine \<Rightarrow> sdi_store \<Rightarrow> sdi_key \<Rightarrow> nat option \<Rightarrow> 'e \<Rightarrow> (bool \<times> nat option \<times> bytes option) \<times> 'e" where
  "sdi_get E s k cap e =
     (case sdi_cf s of
        None \<Rightarrow> ((False, None, None), e)
      | Some cf \<Rightarrow> (case txn_begin_with_isolation E (sdi_iso s) e of (rc, t, e1) \<Rightarrow>
          if rc \<noteq> TDB_SUCCESS then ((False, None, None), e1)
          else (case txn_get E t cf (pack_key k) e1 of (rc, v, e2) \<Rightarrow>
            let e3 = txn_free E t (txn_rollback E t e2) in
            if rc = TDB_ERR_NOT_FOUND then ((False, None, None), e3)
            else if rc \<noteq> TDB_SUCCESS then ((False, None, None), e3)
            else (case cap of
                None \<Rightarrow> ((True, Some (length v), None), e3)
              | Some n \<Rightarrow> if n < length v then ((False, Some (length v), None), e3)
                          else ((True, Some (length v), Some v), e3)))))"

definition sdi_del :: "'e engine \<Rightarrow> sdi_store \<Rightarrow> sdi_key \<Rightarrow> 'e \<Rightarrow> bool \<times> 'e" where
  "sdi_del E s k e =
     (case sdi_cf s of
        None \<Rightarrow> (False, e)
      | Some cf \<Rightarrow> (case txn_begin_with_isolation E (sdi_iso s) e of (rc, t, e1) \<Rightarrow>
          if rc \<noteq> TDB_SUCCESS then (False, e1)
          else (case txn_delete E t cf (pack_key k) e1 of (rc, e2) \<Rightarrow>
            if rc \<noteq> TDB_SUCCESS \<and> rc \<noteq> TDB_ERR_NOT_FOUND then (False, txn_free E t (txn_rollback E t e2))
            else (case txn_commit E t e2 of (rc, e3) \<Rightarrow> (rc = TDB_SUCCESS, txn_free E t e3)))))"

text \<open>\<open>scan t cf e\<close>: the keys a forward iteration over a family yields in a transaction, None where no iterator
  can be made.\<close>

definition sdi_list_keys ::
  "'e engine \<Rightarrow> (nat \<Rightarrow> nat \<Rightarrow> 'e \<Rightarrow> bytes list option) \<Rightarrow> sdi_store \<Rightarrow> 'e \<Rightarrow> sdi_key list option \<times> 'e" where
  "sdi_list_keys E scan s e =
     (case sdi_cf s of
        None \<Rightarrow> (None, e)
      | Some cf \<Rightarrow> (case txn_begin_with_isolation E (sdi_iso s) e of (rc, t, e1) \<Rightarrow>
          if rc \<noteq> TDB_SUCCESS then (None, e1)
          else let e2 = txn_free E t (txn_rollback E t e1) in
            (case scan t cf e1 of
               None \<Rightarrow> (None, e2)
             | Some ks \<Rightarrow> (Some (map unpack_key (filter (\<lambda>k. length k = kSdiPackedKeyLen) ks)), e2))))"

subsection \<open>The server callbacks\<close>

text \<open>True is failure. \<open>sdi\<close> is None where the store could not be set up.\<close>

definition tidesdb_sdi_create :: "string option \<Rightarrow> bool" where "tidesdb_sdi_create ts = False"
definition tidesdb_sdi_drop :: "string option \<Rightarrow> bool" where "tidesdb_sdi_drop ts = False"

definition tidesdb_sdi_get_keys ::
  "'e engine \<Rightarrow> (nat \<Rightarrow> nat \<Rightarrow> 'e \<Rightarrow> bytes list option) \<Rightarrow> sdi_store option \<Rightarrow> string \<Rightarrow> 'e \<Rightarrow> bool \<times> sdi_key list \<times> 'e" where
  "tidesdb_sdi_get_keys E scan sdi ts e =
     (if ts \<noteq> kTidesdbTablespace then (False, [], e)
      else case sdi of
        None \<Rightarrow> (False, [], e)
      | Some s \<Rightarrow> (case sdi_list_keys E scan s e of (None, e') \<Rightarrow> (True, [], e') | (Some ks, e') \<Rightarrow> (False, ks, e')))"

definition tidesdb_sdi_get ::
  "'e engine \<Rightarrow> sdi_store option \<Rightarrow> string \<Rightarrow> sdi_key option \<Rightarrow> nat option \<Rightarrow> 'e \<Rightarrow> (bool \<times> nat option \<times> bytes option) \<times> 'e" where
  "tidesdb_sdi_get E sdi ts k cap e =
     (if ts \<noteq> kTidesdbTablespace then ((False, None, None), e)
      else case (sdi, k) of
        (Some s, Some key) \<Rightarrow> (case sdi_get E s key cap e of ((ok, len, data), e') \<Rightarrow> ((\<not> ok, len, data), e'))
      | _ \<Rightarrow> ((False, None, None), e))"

definition tidesdb_sdi_set :: "'e engine \<Rightarrow> sdi_store option \<Rightarrow> string \<Rightarrow> sdi_key option \<Rightarrow> bytes option \<Rightarrow> 'e \<Rightarrow> bool \<times> 'e" where
  "tidesdb_sdi_set E sdi ts k blob e =
     (if ts \<noteq> kTidesdbTablespace then (False, e)
      else case (sdi, k, blob) of
        (Some s, Some key, Some b) \<Rightarrow> (case sdi_put E s key b e of (ok, e') \<Rightarrow> (\<not> ok, e'))
      | _ \<Rightarrow> (True, e))"

definition tidesdb_sdi_delete :: "'e engine \<Rightarrow> sdi_store option \<Rightarrow> string \<Rightarrow> sdi_key option \<Rightarrow> 'e \<Rightarrow> bool \<times> 'e" where
  "tidesdb_sdi_delete E sdi ts k e =
     (if ts \<noteq> kTidesdbTablespace then (False, e)
      else case (sdi, k) of
        (Some s, Some key) \<Rightarrow> (case sdi_del E s key e of (ok, e') \<Rightarrow> (\<not> ok, e'))
      | _ \<Rightarrow> (True, e))"

subsection \<open>The binding of a table to its column family\<close>

record dd_column =
  col_name :: bytes
  col_type :: byte
  col_char_length :: u64
  col_nullable :: bool
  col_collation_id :: u64

text \<open>A table of the dictionary: its columns and the engine's private data. The serialized form of the private
  data that the server stores is the map it stands for.\<close>

record dd_table =
  dd_id :: u64
  dd_columns :: "dd_column list"
  dd_se_private_data :: "string \<Rightarrow> string option"

text \<open>Numbers as the C library prints and reads them.\<close>

fun to_string :: "nat \<Rightarrow> string" where
  "to_string n = (if n < 10 then [char_of (48 + n)] else to_string (n div 10) @ [char_of (48 + n mod 10)])"

declare to_string.simps [simp del]

definition is_digit :: "char \<Rightarrow> bool" where
  "is_digit c \<longleftrightarrow> 48 \<le> (of_char c :: nat) \<and> (of_char c :: nat) \<le> 57"

definition is_space :: "char \<Rightarrow> bool" where
  "is_space c \<longleftrightarrow> of_char c = (32 :: nat) \<or> 9 \<le> (of_char c :: nat) \<and> (of_char c :: nat) \<le> 13"

definition digits_value :: "string \<Rightarrow> nat" where
  "digits_value ds = foldl (\<lambda>v c. v * 10 + (of_char c - 48)) 0 ds"

definition strtoull :: "string \<Rightarrow> u64" where
  "strtoull s =
     (let s1 = dropWhile is_space s;
          neg = (s1 \<noteq> [] \<and> hd s1 = CHR ''-'');
          s2 = (if s1 \<noteq> [] \<and> (hd s1 = CHR ''-'' \<or> hd s1 = CHR ''+'') then tl s1 else s1);
          v = digits_value (takeWhile is_digit s2)
      in if 2 ^ 64 \<le> v then - 1 else if neg then - word_of_nat v else word_of_nat v)"

definition canonical_column :: "dd_column \<Rightarrow> bytes" where
  "canonical_column c =
     col_name c @ [124, col_type c, 124] @ le_bytes 8 (unat (col_char_length c)) @ [124, if col_nullable c then 1 else 0, 124] @
     le_bytes 8 (unat (col_collation_id c)) @ [10]"

definition hex_digit :: "nat \<Rightarrow> char" where "hex_digit n = ''0123456789abcdef'' ! n"

definition hex :: "bytes \<Rightarrow> string" where
  "hex bs = concat (map (\<lambda>b. [hex_digit (unat b div 16), hex_digit (unat b mod 16)]) bs)"

definition compute_schema_fingerprint :: "(bytes \<Rightarrow> bytes) \<Rightarrow> dd_table \<Rightarrow> string" where
  "compute_schema_fingerprint sha256 t = hex (sha256 (concat (map canonical_column (dd_columns t))))"

text \<open>The outside of the bridge: the digest, the options checksum and the clock.\<close>

record bridge_env =
  be_sha256 :: "bytes \<Rightarrow> bytes"
  be_options_checksum :: "dd_table \<Rightarrow> u32"
  be_now :: nat

definition prepare_create :: "bridge_env \<Rightarrow> dd_table \<Rightarrow> string \<Rightarrow> dd_table" where
  "prepare_create env t cf_name = t\<lparr>dd_se_private_data := (dd_se_private_data t)(
     ''cf_name'' \<mapsto> cf_name,
     ''fingerprint'' \<mapsto> compute_schema_fingerprint (be_sha256 env) t,
     ''options_csum'' \<mapsto> to_string (unat (be_options_checksum env t)),
     ''atomic_ddl'' \<mapsto> ''1'',
     ''created_at'' \<mapsto> to_string (be_now env))\<rparr>"

text \<open>Dropping deletes the table's SDI entry and goes on whatever comes of it (\<open>SDI_TYPE_TABLE\<close> is 1).\<close>

definition prepare_drop :: "'e engine \<Rightarrow> sdi_store option \<Rightarrow> dd_table option \<Rightarrow> 'e \<Rightarrow> bool \<times> 'e" where
  "prepare_drop E sdi t e =
     (case (t, sdi) of
        (Some d, Some s) \<Rightarrow> (case sdi_del E s (1, dd_id d) e of (_, e') \<Rightarrow> (True, e'))
      | _ \<Rightarrow> (True, e))"

definition validate_open :: "bool \<Rightarrow> dd_table option \<Rightarrow> string \<Rightarrow> bool" where
  "validate_open strict t path_inferred_cf =
     (case t of
        None \<Rightarrow> True
      | Some d \<Rightarrow>
          if \<not> strict then True
          else (case (dd_se_private_data d ''cf_name'', dd_se_private_data d ''atomic_ddl'') of
              (Some persisted_cf, Some _) \<Rightarrow> persisted_cf = path_inferred_cf
            | _ \<Rightarrow> False))"

definition read_key :: "dd_table option \<Rightarrow> dd_table \<Rightarrow> string \<Rightarrow> string option" where
  "read_key old_def new_def k =
     (case dd_se_private_data new_def k of
        Some v \<Rightarrow> Some v
      | None \<Rightarrow> (case old_def of None \<Rightarrow> None | Some d \<Rightarrow> dd_se_private_data d k))"

definition recompute_se_private_data :: "bridge_env \<Rightarrow> dd_table option \<Rightarrow> dd_table \<Rightarrow> string \<Rightarrow> string option" where
  "recompute_se_private_data env old_def new_def =
     (let old_cf = (case read_key old_def new_def ''cf_name'' of None \<Rightarrow> [] | Some v \<Rightarrow> v);
          created0 = (case read_key old_def new_def ''created_at'' of None \<Rightarrow> [] | Some v \<Rightarrow> v);
          created = (if created0 = [] then to_string (be_now env) else created0);
          schema_version = (case read_key old_def new_def ''schema_version'' of None \<Rightarrow> 0 | Some sv \<Rightarrow> strtoull sv)
      in [''cf_name'' \<mapsto> old_cf,
          ''fingerprint'' \<mapsto> compute_schema_fingerprint (be_sha256 env) new_def,
          ''options_csum'' \<mapsto> to_string (unat (be_options_checksum env new_def)),
          ''atomic_ddl'' \<mapsto> ''1'',
          ''created_at'' \<mapsto> created,
          ''schema_version'' \<mapsto> to_string (unat (schema_version + 1))])"

section \<open>Keys of the SDI store\<close>

lemma length_be_loop [simp]: "length (be_loop k w) = k"
  by (simp add: be_loop_def)

lemma be_loop_inject:
  assumes "LENGTH('a::len) = 8 * k" "0 < k"
  shows "be_loop k (v :: 'a word) = be_loop k w \<longleftrightarrow> v = w"
proof
  assume "be_loop k v = be_loop k w"
  then have "be_fold (0 :: 'a word) (be_loop k v) = be_fold 0 (be_loop k w)" by (rule arg_cong)
  then show "v = w" by (simp only: be_fold_be_loop [OF assms])
qed simp

lemma length_pack_key [simp]: "length (pack_key k) = kSdiPackedKeyLen"
  by (simp add: pack_key_def kSdiPackedKeyLen_def)

interpretation sdi_keys: ordered_codec pack_key "\<lambda>_. True" kSdiPackedKeyLen
proof
  fix x y :: sdi_key
  have "be_loop 4 (fst x) < be_loop 4 (fst y) \<longleftrightarrow> fst x < fst y" "be_loop 8 (snd x) < be_loop 8 (snd y) \<longleftrightarrow> snd x < snd y"
    by (simp_all add: be_loop_less_iff)
  moreover have "be_loop 4 (fst x) = be_loop 4 (fst y) \<longleftrightarrow> fst x = fst y"
    by (simp add: be_loop_inject)
  ultimately show "pack_key x < pack_key y \<longleftrightarrow> x < y"
    by (cases x, cases y) (auto simp: pack_key_def append_less_same_length)
qed simp_all

lemma nth_Cons_numeral_4: "xs = [a, b, c, d] \<Longrightarrow> be_fold (0 :: u32) xs =
    push_bit 24 (ucast a) OR push_bit 16 (ucast b) OR push_bit 8 (ucast c) OR ucast d"
  by (simp add: be_fold_def push_bit_or or.assoc)

lemma unpack_pack: "unpack_key (pack_key k) = k"
proof -
  obtain a b c d where t: "be_loop 4 (fst k) = [a, b, c, d]"
    by (rule that [of "be_loop 4 (fst k) ! 0" "be_loop 4 (fst k) ! 1" "be_loop 4 (fst k) ! 2" "be_loop 4 (fst k) ! 3"])
       (simp add: be_loop_def numeral_eq_Suc)
  have "fst (unpack_key (pack_key k)) = be_fold 0 (be_loop 4 (fst k))"
    by (simp add: unpack_key_def pack_key_def t nth_Cons_numeral_4)
  moreover have "snd (unpack_key (pack_key k)) = be_fold 0 (be_loop 8 (snd k))"
  proof -
    have "map (\<lambda>i. pack_key k ! (4 + i)) [0..<8] = be_loop 8 (snd k)"
      by (rule nth_equalityI) (simp_all add: pack_key_def nth_append)
    then show ?thesis by (simp only: be_fold_def unpack_key_def snd_conv foldl_map flip: \<open>map _ _ = _\<close>)
  qed
  ultimately show ?thesis by (simp add: be_fold_be_loop prod_eq_iff)
qed

interpretation sdi_codec: byte_codec pack_key "\<lambda>b. Some (unpack_key b)" "\<lambda>_. True"
  by unfold_locales (simp add: unpack_pack)

lemma pack_unpack: "length b = kSdiPackedKeyLen \<Longrightarrow> pack_key (unpack_key b) = b"
proof -
  assume l: "length b = kSdiPackedKeyLen"
  have t: "take 4 b = [b ! 0, b ! 1, b ! 2, b ! 3]"
    using l by (intro nth_equalityI) (auto simp: kSdiPackedKeyLen_def less_Suc_eq numeral_eq_Suc)
  have m: "map (\<lambda>i. b ! (4 + i)) [0..<8] = drop 4 b"
    using l by (intro nth_equalityI) (simp_all add: kSdiPackedKeyLen_def)
  have "fst (unpack_key b) = be_fold 0 (take 4 b)" by (simp add: unpack_key_def t nth_Cons_numeral_4)
  moreover have "snd (unpack_key b) = be_fold 0 (drop 4 b)"
    by (simp only: be_fold_def unpack_key_def snd_conv foldl_map flip: m)
  ultimately have "pack_key (unpack_key b) = take 4 b @ drop 4 b"
    using l by (simp add: pack_key_def be_loop_be_fold kSdiPackedKeyLen_def)
  then show ?thesis by simp
qed

section \<open>The SDI store is a map\<close>

text \<open>What the store holds: the committed entries of its family under packed keys.\<close>

definition sdi_map :: "'e observer \<Rightarrow> nat \<Rightarrow> 'e \<Rightarrow> sdi_key \<Rightarrow> bytes option" where
  "sdi_map B cf e k = ob_db B e (cf, pack_key k)"

definition scan_laws :: "'e observer \<Rightarrow> (nat \<Rightarrow> nat \<Rightarrow> 'e \<Rightarrow> bytes list option) \<Rightarrow> bool" where
  "scan_laws B scan \<longleftrightarrow> (\<forall>t cf e ks. scan t cf e = Some ks \<longrightarrow>
     sorted_wrt (<) ks \<and> set ks = {k. ob_view B e t (cf, k) \<noteq> None})"

lemma sdi_put_db:
  assumes "engine_laws E B" "sdi_cf s = Some cf" "sdi_put E s k blob e = (ok, e')"
  shows "ob_db B e' = (if ok then (ob_db B e)((cf, pack_key k) := Some blob) else ob_db B e)"
proof -
  obtain rc t e1 where b: "txn_begin_with_isolation E (sdi_iso s) e = (rc, t, e1)" by (metis prod_cases3)
  obtain rc2 e2 where p: "txn_put E t cf (pack_key k) blob kSdiTtlNone e1 = (rc2, e2)" by fastforce
  obtain rc3 e3 where c: "txn_commit E t e2 = (rc3, e3)" by fastforce
  note L = law_begin [OF assms(1) b] law_put [OF assms(1) p] law_commit [OF assms(1) c] law_drop [OF assms(1)]
  show ?thesis using assms(2,3) b p c L
    by (auto simp: sdi_put_def apply_writes_upd split: if_splits)
qed

lemma sdi_del_db:
  assumes "engine_laws E B" "sdi_cf s = Some cf" "sdi_del E s k e = (ok, e')"
  shows "ob_db B e' = (if ok then (ob_db B e)((cf, pack_key k) := None) else ob_db B e)"
proof -
  obtain rc t e1 where b: "txn_begin_with_isolation E (sdi_iso s) e = (rc, t, e1)" by (metis prod_cases3)
  obtain rc2 e2 where p: "txn_delete E t cf (pack_key k) e1 = (rc2, e2)" by fastforce
  obtain rc3 e3 where c: "txn_commit E t e2 = (rc3, e3)" by fastforce
  note L = law_begin [OF assms(1) b] law_delete [OF assms(1) p] law_commit [OF assms(1) c] law_drop [OF assms(1)]
  consider "rc \<noteq> TDB_SUCCESS" | "rc = TDB_SUCCESS" "rc2 = TDB_SUCCESS" | "rc = TDB_SUCCESS" "rc2 = TDB_ERR_NOT_FOUND"
    | "rc = TDB_SUCCESS" "rc2 \<noteq> TDB_SUCCESS" "rc2 \<noteq> TDB_ERR_NOT_FOUND" by blast
  then show ?thesis
  proof cases
    case 3
    then have "ob_db B e (cf, pack_key k) = None" "ob_buf B e2 t = Map.empty" "ob_db B e2 = ob_db B e" using L by simp_all
    then show ?thesis using assms(2,3) b p c L(12-) 3 by (auto simp: sdi_del_def split: if_splits)
  qed (use assms(2,3) b p c L in \<open>auto simp: sdi_del_def apply_writes_upd split: if_splits\<close>)
qed

lemma sdi_get_result:
  assumes "engine_laws E B" "sdi_cf s = Some cf" "sdi_get E s k cap e = ((ok, len, data), e')"
  shows "ob_db B e' = ob_db B e \<and>
    (case sdi_map B cf e k of
       None \<Rightarrow> \<not> ok
     | Some v \<Rightarrow> ok \<longrightarrow> len = Some (length v) \<and> data = map_option (\<lambda>_. v) cap \<and> (\<forall>n. cap = Some n \<longrightarrow> length v \<le> n))"
proof -
  obtain rc t e1 where b: "txn_begin_with_isolation E (sdi_iso s) e = (rc, t, e1)" by (metis prod_cases3)
  obtain rc2 v e2 where g: "txn_get E t cf (pack_key k) e1 = (rc2, v, e2)" by (metis prod_cases3)
  note L = law_begin [OF assms(1) b] law_get [OF assms(1) g] law_drop [OF assms(1)]
  show ?thesis
  proof (cases "rc = TDB_SUCCESS \<and> rc2 = TDB_SUCCESS")
    case True
    then have "sdi_map B cf e k = Some v" using L by (simp add: sdi_map_def)
    then show ?thesis using True assms(2,3) b g L by (auto simp: sdi_get_def Let_def split: option.splits if_splits)
  next
    case False
    then show ?thesis using assms(2,3) b g L by (auto simp: sdi_get_def Let_def split: option.splits if_splits)
  qed
qed

lemma sdi_list_result:
  assumes "engine_laws E B" "scan_laws B scan" "sdi_cf s = Some cf" "sdi_list_keys E scan s e = (Some keys, e')"
  shows "ob_db B e' = ob_db B e \<and> sorted_wrt (<) keys \<and> set keys = {k. sdi_map B cf e k \<noteq> None}"
proof -
  obtain rc t e1 where b: "txn_begin_with_isolation E (sdi_iso s) e = (rc, t, e1)" by (metis prod_cases3)
  note L = law_begin [OF assms(1) b] law_drop [OF assms(1)]
  obtain ks where ks: "rc = TDB_SUCCESS" "scan t cf e1 = Some ks" "e' = txn_free E t (txn_rollback E t e1)"
    "keys = map unpack_key (filter (\<lambda>k. length k = kSdiPackedKeyLen) ks)"
    using assms(3,4) b by (auto simp: sdi_list_keys_def Let_def split: if_splits option.splits)
  have k: "sorted_wrt (<) ks" "set ks = {b. ob_db B e (cf, b) \<noteq> None}"
    using assms(2) ks(1,2) L by (auto simp: scan_laws_def)
  have "sorted_wrt (\<lambda>x y. unpack_key x < unpack_key y) (filter (\<lambda>k. length k = kSdiPackedKeyLen) ks)"
  proof (rule sorted_wrt_mono_rel [OF _ sorted_wrt_filter [OF k(1)]])
    fix x y assume "x \<in> set (filter (\<lambda>k. length k = kSdiPackedKeyLen) ks)" "y \<in> set (filter (\<lambda>k. length k = kSdiPackedKeyLen) ks)" "x < y"
    then show "unpack_key x < unpack_key y" using sdi_keys.ord_less [of "unpack_key x" "unpack_key y"] by (simp add: pack_unpack)
  qed
  then have "sorted_wrt (<) keys" by (simp add: ks(4) sorted_wrt_map)
  moreover have "set keys = {k. sdi_map B cf e k \<noteq> None}"
  proof (intro set_eqI iffI)
    fix x assume "x \<in> set keys"
    then obtain y where "y \<in> set ks" "length y = kSdiPackedKeyLen" "x = unpack_key y" using ks(4) by auto
    then show "x \<in> {k. sdi_map B cf e k \<noteq> None}" using k(2) by (simp add: sdi_map_def pack_unpack)
  next
    fix x assume "x \<in> {k. sdi_map B cf e k \<noteq> None}"
    then have "pack_key x \<in> set ks" using k(2) by (simp add: sdi_map_def)
    then show "x \<in> set keys" unfolding ks(4) by (auto intro!: image_eqI [of _ _ "pack_key x"] simp: unpack_pack)
  qed
  ultimately show ?thesis using ks(3) L by simp
qed

section \<open>Printed numbers\<close>

lemma of_char_digit: "n < 10 \<Longrightarrow> (of_char (char_of (48 + n) :: char) :: nat) = 48 + n"
  by (simp add: of_char_of)

lemma is_digit_char: "(n :: nat) < 10 \<Longrightarrow> is_digit (char_of (48 + n))"
  by (simp add: is_digit_def of_char_digit)

lemma to_string_digits: "list_all is_digit (to_string n)"
  by (induction n rule: to_string.induct) (subst to_string.simps, simp add: is_digit_char)

lemma to_string_value: "digits_value (to_string n) = n"
  by (induction n rule: to_string.induct) (subst to_string.simps, auto simp: digits_value_def of_char_digit)

lemma to_string_ne: "to_string n \<noteq> []"
  by (subst to_string.simps) simp

lemma digit_not_sign: "is_digit c \<Longrightarrow> \<not> is_space c \<and> c \<noteq> CHR ''-'' \<and> c \<noteq> CHR ''+''"
  by (auto simp: is_digit_def is_space_def)

lemma strtoull_to_string: "n < 2 ^ 64 \<Longrightarrow> strtoull (to_string n) = word_of_nat n"
proof -
  assume n: "n < 2 ^ 64"
  obtain c ds where c: "to_string n = c # ds" using to_string_ne by (cases "to_string n") auto
  then have "is_digit c" using to_string_digits [of n] by simp
  note nc = digit_not_sign [OF this]
  have "takeWhile is_digit (to_string n) = to_string n" using to_string_digits by (simp add: takeWhile_eq_all_conv list_all_iff)
  then show ?thesis using n nc c to_string_value [of n] by (simp add: strtoull_def Let_def)
qed

section \<open>Altering a table\<close>

text \<open>A run of in-place alterations: each new definition arrives without private data and is given the recomputed
  one.\<close>

fun alters :: "bridge_env \<Rightarrow> dd_table list \<Rightarrow> dd_table \<Rightarrow> dd_table" where
  "alters env [] d = d"
| "alters env (new # ns) d = alters env ns (new\<lparr>dd_se_private_data := recompute_se_private_data env (Some d) new\<rparr>)"

lemma alters_snoc:
  "alters env (ns @ [new]) d = new\<lparr>dd_se_private_data := recompute_se_private_data env (Some (alters env ns d)) new\<rparr>"
  by (induction ns arbitrary: d) simp_all

definition bound_to :: "string \<Rightarrow> string \<Rightarrow> nat \<Rightarrow> dd_table \<Rightarrow> bool" where
  "bound_to cf created version d \<longleftrightarrow>
     dd_se_private_data d ''cf_name'' = Some cf \<and> dd_se_private_data d ''atomic_ddl'' = Some ''1'' \<and>
     dd_se_private_data d ''created_at'' = Some created \<and>
     dd_se_private_data d ''schema_version'' = (if version = 0 then None else Some (to_string (version mod 2 ^ 64)))"

lemma recompute_bound:
  assumes "bound_to cf created v d" "dd_se_private_data new = Map.empty" "created \<noteq> []"
  shows "bound_to cf created (Suc v) (new\<lparr>dd_se_private_data := recompute_se_private_data env (Some d) new\<rparr>)"
proof -
  have r: "read_key (Some d) new = dd_se_private_data d" using assms(2) by (auto simp: read_key_def)
  have "unat ((case dd_se_private_data d ''schema_version'' of None \<Rightarrow> 0 | Some sv \<Rightarrow> strtoull sv) + 1) = Suc v mod 2 ^ 64"
    using assms(1) by (auto simp: bound_to_def strtoull_to_string unat_word_ariths unat_of_nat mod_simps)
  then show ?thesis using assms(1,3) by (simp add: bound_to_def recompute_se_private_data_def r Let_def)
qed

section \<open>Properties\<close>


text \<open>The in-memory engine with its keys in order as the scan.\<close>

definition mem_scan :: "nat \<Rightarrow> nat \<Rightarrow> mem_state \<Rightarrow> bytes list option" where
  "mem_scan t cf e = Some (sort (remdups (mem_candidates t cf [] e)))"

lemma mem_scan_laws: "scan_laws mem_observer mem_scan"
  by (auto simp: scan_laws_def mem_scan_def mem_observer_def mem_candidates_set strict_sorted_iff)

definition sample_sdi :: sdi_store where "sample_sdi = \<lparr>sdi_cf = Some 7, sdi_iso = TDB_ISOLATION_READ_COMMITTED\<rparr>"


text \<open>C31: a table stays bound to its column family. After it is created and however often it is altered in place, a
  strict open under the family it was created with succeeds and under any other name is refused; the creation
  time is kept, the version counts the alterations in 64 bits, and the fingerprint is that of the latest
  columns.\<close>

theorem binding_survives_alters:
  assumes "dd_se_private_data t = Map.empty" "\<forall>new\<in>set ns. dd_se_private_data new = Map.empty"
  shows "let d = alters env ns (prepare_create env t cf) in
    (validate_open True (Some d) name \<longleftrightarrow> name = cf) \<and>
    dd_se_private_data d ''created_at'' = Some (to_string (be_now env)) \<and>
    dd_se_private_data d ''schema_version'' = (if ns = [] then None else Some (to_string (length ns mod 2 ^ 64))) \<and>
    dd_se_private_data d ''fingerprint'' = Some (compute_schema_fingerprint (be_sha256 env) (last (t # ns)))"
proof -
  let ?d = "alters env ns (prepare_create env t cf)"
  have "bound_to cf (to_string (be_now env)) (length ns) ?d \<and>
      dd_se_private_data ?d ''fingerprint'' = Some (compute_schema_fingerprint (be_sha256 env) (last (t # ns)))"
    using assms(2)
  proof (induction ns rule: rev_induct)
    case Nil
    then show ?case using assms(1) by (simp add: bound_to_def prepare_create_def compute_schema_fingerprint_def)
  next
    case (snoc new ns)
    then have "bound_to cf (to_string (be_now env)) (length ns) (alters env ns (prepare_create env t cf))" by simp
    from recompute_bound [OF this, of new env] snoc.prems show ?case
      by (simp add: alters_snoc to_string_ne recompute_se_private_data_def Let_def compute_schema_fingerprint_def)
  qed
  then show ?thesis by (auto simp: bound_to_def validate_open_def Let_def)
qed

definition sample_env :: bridge_env where
  "sample_env = \<lparr>be_sha256 = take 32, be_options_checksum = (\<lambda>_. 7), be_now = 17\<rparr>"

definition sample_table :: dd_table where
  "sample_table = \<lparr>dd_id = 5, dd_columns = [\<lparr>col_name = str ''id'', col_type = 4, col_char_length = 11, col_nullable = False, col_collation_id = 63\<rparr>],
     dd_se_private_data = Map.empty\<rparr>"

theorem binding_survives_alters_witness:
  "validate_open True (Some (alters sample_env [sample_table, sample_table] (prepare_create sample_env sample_table ''d__t''))) ''d__t'' \<and>
   dd_se_private_data (alters sample_env [sample_table, sample_table] (prepare_create sample_env sample_table ''d__t'')) ''schema_version'' = Some ''2''"
proof -
  have e: "dd_se_private_data sample_table = Map.empty" by (simp add: sample_table_def)
  have l: "length [sample_table, sample_table] mod 2 ^ 64 = 2" "to_string 2 = ''2''" by simp code_simp
  have "\<forall>new\<in>set [sample_table, sample_table]. dd_se_private_data new = Map.empty" using e by simp
  note b = binding_survives_alters [OF e this, of sample_env "''d__t''" "''d__t''", unfolded Let_def l]
  then show ?thesis by (simp del: alters.simps)
qed

end
