(* ===== verification/Ddl.thy ===== *)
theory Ddl
  imports Trx Atomic_Ddl "HOL-Library.Char_ord"
begin

text \<open>DDL on column families (\<open>create\<close>, \<open>rename_table\<close>, \<open>delete_table\<close> and \<open>drop_database\<close> of
  \<open>ha_tidesdb.cc\<close>, the schema column family, and the reconciler of \<open>tidesdb_atomic_ddl.cc\<close>). The engine's
  column family calls are a record of functions over a registry state of any type, with laws about
  the families and their contents.\<close>

section \<open>Definitions\<close>

subsection \<open>The registry of column families\<close>

record 'c registry =
  get_column_family :: "string \<Rightarrow> 'c \<Rightarrow> bool"
  create_column_family :: "string \<Rightarrow> 'c \<Rightarrow> tdb_rc \<times> 'c"
  drop_column_family :: "string \<Rightarrow> 'c \<Rightarrow> tdb_rc \<times> 'c"
  rename_column_family :: "string \<Rightarrow> string \<Rightarrow> 'c \<Rightarrow> tdb_rc \<times> 'c"
  list_column_families :: "'c \<Rightarrow> tdb_rc \<times> string list"

text \<open>The families and their contents, observed. A created family is empty; a renamed one keeps its
  contents, and renaming onto a family that exists fails.\<close>

definition registry_laws :: "'c registry \<Rightarrow> ('c \<Rightarrow> string \<Rightarrow> 'd option) \<Rightarrow> 'd \<Rightarrow> bool" where
  "registry_laws R fam emp \<longleftrightarrow>
     (\<forall>n c. get_column_family R n c \<longleftrightarrow> fam c n \<noteq> None) \<and>
     (\<forall>n c rc c'. create_column_family R n c = (rc, c') \<longrightarrow>
        fam c' = (if rc = TDB_SUCCESS then (fam c)(n \<mapsto> emp) else fam c)) \<and>
     (\<forall>n c rc c'. drop_column_family R n c = (rc, c') \<longrightarrow>
        fam c' = (if rc = TDB_SUCCESS then (fam c)(n := None) else fam c) \<and>
        (rc = TDB_ERR_NOT_FOUND \<longrightarrow> fam c n = None)) \<and>
     (\<forall>a b c rc c'. rename_column_family R a b c = (rc, c') \<longrightarrow>
        (rc = TDB_SUCCESS \<longrightarrow> fam c a \<noteq> None \<and> fam c b = None \<and> fam c' = (fam c)(a := None, b := fam c a)) \<and>
        (rc \<noteq> TDB_SUCCESS \<longrightarrow> fam c' = fam c) \<and> (rc = TDB_ERR_NOT_FOUND \<longrightarrow> fam c a = None)) \<and>
     (\<forall>c names. list_column_families R c = (TDB_SUCCESS, names) \<longrightarrow> set names = {n. fam c n \<noteq> None})"

subsection \<open>The schema column family\<close>

text \<open>A table's definition file as the fallback reads it.\<close>

datatype frm_file = FrmMissing | FrmNoMemory | FrmImage bytes

definition schema_cf_store_frm ::
  "'e engine \<Rightarrow> isolation \<Rightarrow> nat option \<Rightarrow> (string \<Rightarrow> frm_file) \<Rightarrow> string \<Rightarrow> 'e \<Rightarrow> bool \<times> 'e" where
  "schema_cf_store_frm E lvl schema_cf frm path e =
     (case schema_cf of
        None \<Rightarrow> (True, e)
      | Some cf \<Rightarrow> (case frm path of
          FrmMissing \<Rightarrow> (True, e)
        | FrmNoMemory \<Rightarrow> (False, e)
        | FrmImage frm_data \<Rightarrow> (case txn_begin_with_isolation E lvl e of (rc, t, e1) \<Rightarrow>
            if rc \<noteq> TDB_SUCCESS then (False, e1)
            else (case txn_put E t cf (str (schema_cf_key_from_path path)) frm_data (- 1) e1 of (rc, e2) \<Rightarrow>
              if rc = TDB_SUCCESS then (case txn_commit E t e2 of (rc, e3) \<Rightarrow> (rc = TDB_SUCCESS, txn_free E t e3))
              else (False, txn_free E t (txn_rollback E t e2))))))"

definition schema_cf_delete :: "'e engine \<Rightarrow> isolation \<Rightarrow> nat option \<Rightarrow> string \<Rightarrow> 'e \<Rightarrow> 'e" where
  "schema_cf_delete E lvl schema_cf path e =
     (case schema_cf of
        None \<Rightarrow> e
      | Some cf \<Rightarrow> (case txn_begin_with_isolation E lvl e of (rc, t, e1) \<Rightarrow>
          if rc = TDB_SUCCESS
          then txn_free E t (snd (txn_commit E t (snd (txn_delete E t cf (str (schema_cf_key_from_path path)) e1))))
          else e1))"

fun delete_keys :: "'e engine \<Rightarrow> nat \<Rightarrow> nat \<Rightarrow> bytes list \<Rightarrow> 'e \<Rightarrow> 'e" where
  "delete_keys E t cf [] e = e"
| "delete_keys E t cf (k # ks) e = delete_keys E t cf ks (snd (txn_delete E t cf k e))"

text \<open>\<open>scan t cf k e\<close>: the keys an iterator yields from a seek on; None where it cannot be made.\<close>

definition schema_cf_delete_db ::
  "'e engine \<Rightarrow> (nat \<Rightarrow> nat \<Rightarrow> bytes \<Rightarrow> 'e \<Rightarrow> bytes list option) \<Rightarrow> isolation \<Rightarrow> nat option \<Rightarrow> string \<Rightarrow> 'e \<Rightarrow> 'e" where
  "schema_cf_delete_db E scan lvl schema_cf db_name e =
     (if schema_cf = None \<or> db_name = [] then e
      else let cf = the schema_cf; pre = str (db_name @ [SCHEMA_CF_KEY_SEP]) in
        (case txn_begin_with_isolation E lvl e of (rc, t, e1) \<Rightarrow>
           if rc \<noteq> TDB_SUCCESS then e1
           else (case scan t cf pre e1 of
               None \<Rightarrow> txn_free E t (txn_rollback E t e1)
             | Some ks \<Rightarrow>
                 let to_delete = takeWhile (\<lambda>k. take (length pre) k = pre) ks; e2 = delete_keys E t cf to_delete e1 in
                 txn_free E t (if to_delete \<noteq> [] then snd (txn_commit E t e2) else txn_rollback E t e2))))"

definition schema_cf_rename ::
  "'e engine \<Rightarrow> isolation \<Rightarrow> nat option \<Rightarrow> (string \<Rightarrow> frm_file) \<Rightarrow> string \<Rightarrow> string \<Rightarrow> 'e \<Rightarrow> 'e" where
  "schema_cf_rename E lvl schema_cf frm from_path to_path e =
     (case schema_cf of
        None \<Rightarrow> e
      | Some cf \<Rightarrow>
          let old_key = str (schema_cf_key_from_path from_path); new_key = str (schema_cf_key_from_path to_path) in
          (case txn_begin_with_isolation E lvl e of (rc, t, e1) \<Rightarrow>
             if rc \<noteq> TDB_SUCCESS then e1
             else (case txn_get E t cf old_key e1 of (rc, v, e2) \<Rightarrow>
               if rc = TDB_SUCCESS
               then txn_free E t (snd (txn_commit E t (snd (txn_delete E t cf old_key (snd (txn_put E t cf new_key v (- 1) e2))))))
               else txn_free E t (snd (schema_cf_store_frm E lvl schema_cf frm to_path (txn_rollback E t e2))))))"

subsection \<open>Creating, renaming and dropping tables\<close>

datatype ddl_result = DdlOk | DdlHa ha_err | DdlRaw tdb_rc

text \<open>What the handlers need besides the engine: the registry, the schema family, definition files, the
  SDI store and the dictionary bridge.\<close>

record ('c, 'e) ddl_env =
  de_reg :: "'c registry"
  de_eng :: "'e engine"
  de_iso :: isolation
  de_schema_cf :: "nat option"
  de_frm :: "string \<Rightarrow> frm_file"
  de_scan :: "nat \<Rightarrow> nat \<Rightarrow> bytes \<Rightarrow> 'e \<Rightarrow> bytes list option"
  de_sdi :: "sdi_store option"
  de_bridge :: bridge_env

fun create_missing :: "'c registry \<Rightarrow> string list \<Rightarrow> 'c \<Rightarrow> tdb_rc \<times> 'c" where
  "create_missing R [] c = (TDB_SUCCESS, c)"
| "create_missing R (n # ns) c =
     (if get_column_family R n c then create_missing R ns c
      else case create_column_family R n c of (rc, c') \<Rightarrow> if rc = TDB_SUCCESS then create_missing R ns c' else (rc, c'))"

text \<open>\<open>opts_ok\<close>: the table options of the statement parse; \<open>keys\<close>: the names of the secondary keys.\<close>

definition create :: "('c, 'e) ddl_env \<Rightarrow> bool \<Rightarrow> string \<Rightarrow> string list \<Rightarrow> dd_table option \<Rightarrow> 'c \<Rightarrow> 'e \<Rightarrow>
    ddl_result \<times> dd_table option \<times> 'c \<times> 'e" where
  "create D opts_ok name keys t c e =
     (if \<not> opts_ok then (DdlHa HA_WRONG_CREATE_OPTION, t, c, e)
      else let cf_name = path_to_cf_name name in
        (case create_missing (de_reg D) (cf_name # map (idx_cf_name cf_name) keys) c of (rc, c') \<Rightarrow>
           if rc \<noteq> TDB_SUCCESS then (DdlHa (tdb_rc_to_ha rc), t, c', e)
           else (DdlOk, map_option (\<lambda>d. prepare_create (de_bridge D) d cf_name) t, c',
                 snd (schema_cf_store_frm (de_eng D) (de_iso D) (de_schema_cf D) (de_frm D) name e))))"

definition renamed_index :: "string \<Rightarrow> string \<Rightarrow> string \<Rightarrow> string" where
  "renamed_index old_cf new_cf n = new_cf @ CF_INDEX_INFIX @ drop (length (old_cf @ CF_INDEX_INFIX)) n"

primrec rename_indexes :: "'c registry \<Rightarrow> string \<Rightarrow> string \<Rightarrow> string list \<Rightarrow> 'c \<Rightarrow> 'c" where
  "rename_indexes R old_cf new_cf [] c = c"
| "rename_indexes R old_cf new_cf (n # ns) c =
     (if take (length (old_cf @ CF_INDEX_INFIX)) n = old_cf @ CF_INDEX_INFIX
      then rename_indexes R old_cf new_cf ns
             (snd (rename_column_family R n (renamed_index old_cf new_cf n) (snd (drop_column_family R (renamed_index old_cf new_cf n) c))))
      else rename_indexes R old_cf new_cf ns c)"

definition rebind :: "string \<Rightarrow> dd_table \<Rightarrow> dd_table" where
  "rebind new_cf d = d\<lparr>dd_se_private_data :=
     (let p = (dd_se_private_data d)(''cf_name'' \<mapsto> new_cf) in
      if p ''atomic_ddl'' = None then p(''atomic_ddl'' \<mapsto> ''1'') else p)\<rparr>"

definition rename_table :: "('c, 'e) ddl_env \<Rightarrow> string \<Rightarrow> string \<Rightarrow> dd_table option \<Rightarrow> 'c \<Rightarrow> 'e conn \<Rightarrow>
    ddl_result \<times> dd_table option \<times> 'c \<times> 'e conn" where
  "rename_table D from_path to_path to_def c cn =
     (let R = de_reg D; cn1 = tidesdb_flush_engine_txn_before_cf_mutation (de_eng D) cn;
          old_cf = path_to_cf_name from_path; new_cf = path_to_cf_name to_path;
          def' = map_option (rebind new_cf) to_def
      in case rename_column_family R old_cf new_cf (snd (drop_column_family R new_cf c)) of (rc, c1) \<Rightarrow>
        if rc \<noteq> TDB_SUCCESS \<and> rc \<noteq> TDB_ERR_NOT_FOUND then (DdlHa (tdb_rc_to_ha rc), def', c1, cn1)
        else let c2 = (case list_column_families R c1 of (rc, names) \<Rightarrow>
                         if rc = TDB_SUCCESS then rename_indexes R old_cf new_cf names c1 else c1) in
             (DdlOk, def', c2, cn1\<lparr>cn_eng := schema_cf_rename (de_eng D) (de_iso D) (de_schema_cf D) (de_frm D) from_path to_path (cn_eng cn1)\<rparr>))"

fun drop_all :: "'c registry \<Rightarrow> string list \<Rightarrow> 'c \<Rightarrow> 'c" where
  "drop_all R [] c = c"
| "drop_all R (n # ns) c = drop_all R ns (snd (drop_column_family R n c))"

definition names_with_prefix :: "'c registry \<Rightarrow> string \<Rightarrow> 'c \<Rightarrow> string list" where
  "names_with_prefix R pre c =
     (case list_column_families R c of (rc, names) \<Rightarrow>
        if rc = TDB_SUCCESS then filter (\<lambda>n. take (length pre) n = pre) names else [])"

text \<open>The directories removed afterwards are those of families already dropped.\<close>

definition tidesdb_drop_table_impl :: "('c, 'e) ddl_env \<Rightarrow> string \<Rightarrow> 'c \<Rightarrow> 'e \<Rightarrow> ddl_result \<times> 'c \<times> 'e" where
  "tidesdb_drop_table_impl D path c e =
     (let R = de_reg D; cf_name = path_to_cf_name path; idx_cf_names = names_with_prefix R (cf_name @ CF_INDEX_INFIX) c in
      case drop_column_family R cf_name c of (rc, c1) \<Rightarrow>
        if rc \<noteq> TDB_SUCCESS \<and> rc \<noteq> TDB_ERR_NOT_FOUND then (DdlRaw rc, c1, e)
        else (DdlOk, drop_all R idx_cf_names c1, schema_cf_delete (de_eng D) (de_iso D) (de_schema_cf D) path e))"

definition delete_table :: "('c, 'e) ddl_env \<Rightarrow> string \<Rightarrow> dd_table option \<Rightarrow> 'c \<Rightarrow> 'e conn \<Rightarrow> ddl_result \<times> 'c \<times> 'e conn" where
  "delete_table D name t c cn =
     (let cn1 = tidesdb_flush_engine_txn_before_cf_mutation (de_eng D) cn in
      case prepare_drop (de_eng D) (de_sdi D) t (cn_eng cn1) of (ok, e1) \<Rightarrow>
        if \<not> ok then (DdlHa HA_ERR_GENERIC, c, cn1\<lparr>cn_eng := e1\<rparr>)
        else (case tidesdb_drop_table_impl D name c e1 of (r, c', e2) \<Rightarrow> (r, c', cn1\<lparr>cn_eng := e2\<rparr>)))"

definition tidesdb_hton_drop_database :: "('c, 'e) ddl_env \<Rightarrow> string \<Rightarrow> 'c \<Rightarrow> 'e \<Rightarrow> 'c \<times> 'e" where
  "tidesdb_hton_drop_database D path c e =
     (let db = tidesdb_path_to_db_name path in
      if db = [] then (c, e)
      else (drop_all (de_reg D) (names_with_prefix (de_reg D) (db @ CF_DB_TABLE_SEP) c) c,
            schema_cf_delete_db (de_eng D) (de_scan D) (de_iso D) (de_schema_cf D) db e))"

subsection \<open>The reconciler\<close>

datatype orphan_action = OrphanDrop | OrphanQuarantine | OrphanLogOnly

record reconcile_delta =
  orphan_cfs :: "string list"
  orphan_dd_tables :: "string list"

text \<open>Sets are sorted lists without duplicates: they are walked in order.\<close>

definition compute_delta_pure :: "string list \<Rightarrow> string list \<Rightarrow> reconcile_delta" where
  "compute_delta_pure expected_cfs actual_cfs =
     \<lparr>orphan_cfs = filter (\<lambda>a. take 2 a \<noteq> ''__'' \<and> a \<notin> set expected_cfs) actual_cfs,
      orphan_dd_tables = filter (\<lambda>e. e \<notin> set actual_cfs) expected_cfs\<rparr>"

definition c_toupper :: "char \<Rightarrow> char" where
  "c_toupper c = (if 97 \<le> (of_char c :: nat) \<and> (of_char c :: nat) \<le> 122 then char_of (of_char c - (32 :: nat)) else c)"

definition dd_engine_is_tidesdb :: "string \<Rightarrow> bool" where
  "dd_engine_is_tidesdb eng \<longleftrightarrow> length eng = 7 \<and> map c_toupper eng = ''TIDESDB''"

text \<open>The dictionary: per schema its tables with their engines, None where fetching them fails.\<close>

type_synonym dictionary = "(string \<times> (string \<times> string) list option) list"

definition expected_cfs :: "dictionary \<Rightarrow> string list" where
  "expected_cfs dd = concat (map (\<lambda>(sch, tables).
     case tables of
       None \<Rightarrow> []
     | Some ts \<Rightarrow> map (\<lambda>(t, _). sch @ ''__'' @ t) (filter (\<lambda>(_, eng). dd_engine_is_tidesdb eng) ts)) dd)"

definition compute_delta :: "'c registry \<Rightarrow> dictionary option \<Rightarrow> 'c \<Rightarrow> reconcile_delta" where
  "compute_delta R dc c =
     compute_delta_pure (case dc of None \<Rightarrow> [] | Some dd \<Rightarrow> sort (remdups (expected_cfs dd)))
       (case list_column_families R c of (rc, names) \<Rightarrow> if rc = TDB_SUCCESS then sort (remdups names) else [])"

text \<open>\<open>now\<close> is the clock, read once per family.\<close>

fun apply_orphans :: "'c registry \<Rightarrow> orphan_action \<Rightarrow> (string \<Rightarrow> nat) \<Rightarrow> string list \<Rightarrow> bool \<Rightarrow> 'c \<Rightarrow> bool \<times> 'c" where
  "apply_orphans R act now [] ok c = (ok, c)"
| "apply_orphans R act now (n # ns) ok c =
     (case act of
        OrphanDrop \<Rightarrow> (case drop_column_family R n c of (rc, c') \<Rightarrow> apply_orphans R act now ns (ok \<and> rc = TDB_SUCCESS) c')
      | OrphanQuarantine \<Rightarrow>
          (case rename_column_family R n (take 255 (''__orphan_'' @ to_string (now n) @ ''_'' @ take 200 n)) c of (rc, c') \<Rightarrow>
             apply_orphans R act now ns (ok \<and> rc = TDB_SUCCESS) c')
      | OrphanLogOnly \<Rightarrow> apply_orphans R act now ns ok c)"

definition apply_delta :: "'c registry \<Rightarrow> orphan_action \<Rightarrow> (string \<Rightarrow> nat) \<Rightarrow> reconcile_delta \<Rightarrow> 'c \<Rightarrow> bool \<times> 'c" where
  "apply_delta R act now d c = apply_orphans R act now (orphan_cfs d) True c"

section \<open>The registry's laws\<close>

text \<open>A registry that answers: what exists is dropped, what can be renamed is, and the listing succeeds.\<close>

definition registry_answers :: "'c registry \<Rightarrow> ('c \<Rightarrow> string \<Rightarrow> 'd option) \<Rightarrow> bool" where
  "registry_answers R fam \<longleftrightarrow>
     (\<forall>n c. fst (drop_column_family R n c) = (if fam c n = None then TDB_ERR_NOT_FOUND else TDB_SUCCESS)) \<and>
     (\<forall>a b c. fam c a \<noteq> None \<and> fam c b = None \<longrightarrow> fst (rename_column_family R a b c) = TDB_SUCCESS) \<and>
     (\<forall>c. fst (list_column_families R c) = TDB_SUCCESS \<and> distinct (snd (list_column_families R c)))"

lemma reg_drop:
  assumes "registry_laws R fam emp" "drop_column_family R n c = (rc, c')"
  shows "fam c' = (if rc = TDB_SUCCESS then (fam c)(n := None) else fam c)" "rc = TDB_ERR_NOT_FOUND \<Longrightarrow> fam c n = None"
  using assms unfolding registry_laws_def by blast+

lemma reg_rename:
  assumes "registry_laws R fam emp" "rename_column_family R a b c = (rc, c')"
  shows "rc = TDB_SUCCESS \<Longrightarrow> fam c a \<noteq> None" "rc = TDB_SUCCESS \<Longrightarrow> fam c b = None"
    "rc = TDB_SUCCESS \<Longrightarrow> fam c' = (fam c)(a := None, b := fam c a)" "rc \<noteq> TDB_SUCCESS \<Longrightarrow> fam c' = fam c"
    "rc = TDB_ERR_NOT_FOUND \<Longrightarrow> fam c a = None"
  using assms unfolding registry_laws_def by blast+

lemma reg_list:
  assumes "registry_laws R fam emp" "list_column_families R c = (TDB_SUCCESS, names)"
  shows "set names = {n. fam c n \<noteq> None}"
  using assms unfolding registry_laws_def by blast

lemma answersD:
  assumes "registry_answers R fam"
  shows "fst (drop_column_family R n c) = (if fam c n = None then TDB_ERR_NOT_FOUND else TDB_SUCCESS)"
    "fam c a \<noteq> None \<Longrightarrow> fam c b = None \<Longrightarrow> fst (rename_column_family R a b c) = TDB_SUCCESS"
    "fst (list_column_families R c) = TDB_SUCCESS" "distinct (snd (list_column_families R c))"
  using assms unfolding registry_answers_def by blast+

lemma drop_answers:
  assumes "registry_laws R fam emp" "registry_answers R fam"
  shows "fam (snd (drop_column_family R n c)) = (fam c)(n := None)"
proof -
  obtain rc c' where d: "drop_column_family R n c = (rc, c')" by fastforce
  moreover have "rc = (if fam c n = None then TDB_ERR_NOT_FOUND else TDB_SUCCESS)"
    using answersD(1) [OF assms(2), of n c] d by simp
  ultimately show ?thesis using reg_drop(1) [OF assms(1) d] by (cases "fam c n") (simp_all add: fun_upd_idem)
qed

lemma rename_answers:
  assumes "registry_laws R fam emp" "registry_answers R fam" "fam c a \<noteq> None" "fam c b = None"
  shows "fst (rename_column_family R a b c) = TDB_SUCCESS"
    "fam (snd (rename_column_family R a b c)) = (fam c)(a := None, b := fam c a)"
proof -
  obtain rc c' where d: "rename_column_family R a b c = (rc, c')" by fastforce
  have "rc = TDB_SUCCESS" using answersD(2) [of R fam c a b] assms(2-4) d by simp
  then show "fst (rename_column_family R a b c) = TDB_SUCCESS"
    "fam (snd (rename_column_family R a b c)) = (fam c)(a := None, b := fam c a)"
    using d reg_rename(3) [OF assms(1) d] by simp_all
qed

lemma drop_all_answers:
  assumes "registry_laws R fam emp" "registry_answers R fam"
  shows "fam (drop_all R ns c) = (\<lambda>n. if n \<in> set ns then None else fam c n)"
  by (induction ns arbitrary: c) (auto simp: drop_answers [OF assms])

lemma take_prefix: "take (length p) n = p \<longleftrightarrow> prefix p n"
  by (metis append_eq_conv_conj prefix_def take_is_prefix)

lemma names_with_prefix_answers:
  assumes "registry_laws R fam emp" "registry_answers R fam"
  shows "set (names_with_prefix R pre c) = {n. prefix pre n \<and> fam c n \<noteq> None}"
proof -
  obtain names where l: "list_column_families R c = (TDB_SUCCESS, names)"
    using answersD(3) [OF assms(2), of c] by (cases "list_column_families R c") simp
  then show ?thesis using reg_list [OF assms(1) l] by (auto simp: names_with_prefix_def take_prefix)
qed

section \<open>Dropping\<close>

lemma drop_table_families:
  assumes "registry_laws (de_reg D) fam emp" "registry_answers (de_reg D) fam"
    and "tidesdb_drop_table_impl D path c e = (r, c', e')"
  defines "cf \<equiv> path_to_cf_name path"
  shows "r = DdlOk" "fam c' = (\<lambda>n. if n = cf \<or> prefix (cf @ CF_INDEX_INFIX) n then None else fam c n)"
proof -
  let ?R = "de_reg D"
  obtain rc c1 where d: "drop_column_family ?R cf c = (rc, c1)" by fastforce
  have rc: "rc = (if fam c cf = None then TDB_ERR_NOT_FOUND else TDB_SUCCESS)"
    using answersD(1) [OF assms(2), of cf c] d by simp
  have f1: "fam c1 = (fam c)(cf := None)" using drop_answers [OF assms(1,2), of cf c] d by simp
  have "c' = drop_all ?R (names_with_prefix ?R (cf @ CF_INDEX_INFIX) c) c1" and r: "r = DdlOk"
    using assms(3) d rc by (auto simp: tidesdb_drop_table_impl_def Let_def cf_def split: if_splits)
  then show "fam c' = (\<lambda>n. if n = cf \<or> prefix (cf @ CF_INDEX_INFIX) n then None else fam c n)"
    by (auto simp: drop_all_answers [OF assms(1,2)] names_with_prefix_answers [OF assms(1,2)] f1 fun_eq_iff)
  show "r = DdlOk" by (rule r)
qed

lemma delete_table_families:
  assumes "registry_laws (de_reg D) fam emp" "registry_answers (de_reg D) fam" "delete_table D path def c cn = (r, c', cn')"
  shows "r = DdlOk" "fam c' = (\<lambda>n. if n = path_to_cf_name path \<or> prefix (path_to_cf_name path @ CF_INDEX_INFIX) n then None else fam c n)"
proof -
  obtain ok e1 where d: "prepare_drop (de_eng D) (de_sdi D) def (cn_eng (tidesdb_flush_engine_txn_before_cf_mutation (de_eng D) cn)) = (ok, e1)"
    by fastforce
  obtain r2 c2 e2 where i: "tidesdb_drop_table_impl D path c e1 = (r2, c2, e2)" by (metis prod_cases3)
  have ok using d by (auto simp: prepare_drop_def split: option.splits prod.splits)
  then have "r = r2" "c' = c2" using assms(3) d i unfolding delete_table_def Let_def by simp_all
  then show "r = DdlOk" "fam c' = (\<lambda>n. if n = path_to_cf_name path \<or> prefix (path_to_cf_name path @ CF_INDEX_INFIX) n then None else fam c n)"
    using drop_table_families [OF assms(1,2) i] by simp_all
qed

lemma drop_database_families:
  assumes "registry_laws (de_reg D) fam emp" "registry_answers (de_reg D) fam" "tidesdb_path_to_db_name path \<noteq> []"
  shows "fam (fst (tidesdb_hton_drop_database D path c e)) =
    (\<lambda>n. if prefix (tidesdb_path_to_db_name path @ CF_DB_TABLE_SEP) n then None else fam c n)"
  using assms(3)
  by (auto simp: tidesdb_hton_drop_database_def Let_def drop_all_answers [OF assms(1,2)]
      names_with_prefix_answers [OF assms(1,2)] fun_eq_iff)

section \<open>Renaming\<close>

lemma rename_indexes_families:
  assumes "registry_laws R fam emp" "registry_answers R fam"
    and "\<And>x. prefix (old @ CF_INDEX_INFIX) x \<Longrightarrow> \<not> prefix (new @ CF_INDEX_INFIX) x"
    and "distinct ns" "\<forall>n\<in>set ns. prefix (old @ CF_INDEX_INFIX) n \<longrightarrow> fam c n \<noteq> None"
  shows "fam (rename_indexes R old new ns c) x =
    (if prefix (old @ CF_INDEX_INFIX) x \<and> x \<in> set ns then None
     else if prefix (new @ CF_INDEX_INFIX) x \<and> idx_cf_name old (drop (length (new @ CF_INDEX_INFIX)) x) \<in> set ns
     then fam c (idx_cf_name old (drop (length (new @ CF_INDEX_INFIX)) x)) else fam c x)"
  using assms(4,5)
proof (induction ns arbitrary: c)
  case (Cons n ns)
  let ?O = "old @ CF_INDEX_INFIX" and ?N = "new @ CF_INDEX_INFIX"
  show ?case
  proof (cases "prefix ?O n")
    case False
    then have "idx_cf_name old z \<noteq> n" for z by (auto simp: idx_cf_name_def prefix_def)
    then show ?thesis using Cons False by (auto simp: take_prefix simp del: length_append)
  next
    case True
    then obtain k where n: "n = idx_cf_name old k" by (auto simp: prefix_def idx_cf_name_def)
    let ?m = "idx_cf_name new k"
    have m: "renamed_index old new n = ?m" by (simp add: renamed_index_def n idx_cf_name_def)
    have p1: "prefix ?N ?m" by (simp add: idx_cf_name_def)
    have pm: "prefix ?N ?m" "\<not> prefix ?O ?m" using p1 assms(3) [of ?m] by blast+
    then have nm: "n \<noteq> ?m" using True by auto
    define c1 where "c1 = snd (drop_column_family R ?m c)"
    have f1: "fam c1 = (fam c)(?m := None)" by (simp add: c1_def drop_answers [OF assms(1,2)])
    have en: "fam c n \<noteq> None" using Cons.prems True by simp
    define c2 where "c2 = snd (rename_column_family R n ?m c1)"
    have f2: "fam c2 = (fam c1)(n := None, ?m := fam c1 n)"
      unfolding c2_def using f1 en nm by (intro rename_answers(2) [OF assms(1,2)]) simp_all
    have step: "rename_indexes R old new (n # ns) c = rename_indexes R old new ns c2"
      using True by (simp add: take_prefix c2_def c1_def m del: length_append)
    have "\<forall>n'\<in>set ns. prefix ?O n' \<longrightarrow> fam c2 n' \<noteq> None" using Cons.prems pm f1 f2 by auto
    note IH = Cons.IH [OF distinct.simps(2) [THEN iffD1, THEN conjunct2, OF Cons.prems(1)] this]
    show ?thesis
    proof (cases "prefix ?N x")
      case True
      then obtain z where x: "x = idx_cf_name new z" by (auto simp: prefix_def idx_cf_name_def)
      have "\<not> prefix ?O x" using True assms(3) by blast
      moreover have "drop (length ?N) x = z" by (simp add: x idx_cf_name_def)
      moreover have "x = ?m \<longleftrightarrow> z = k" "idx_cf_name old z = n \<longleftrightarrow> z = k" by (auto simp: x n idx_cf_name_def)
      moreover have "prefix ?O (idx_cf_name old z)" by (simp add: idx_cf_name_def)
      then have "idx_cf_name old z \<noteq> ?m" using pm(2) by auto
      moreover have "x \<noteq> n" using \<open>\<not> prefix ?O x\<close> \<open>prefix ?O n\<close> by auto
      ultimately show ?thesis using Cons.prems(1) True f1 f2 nm
        by (auto simp: step IH simp del: length_append rename_indexes.simps)
    next
      case False
      then have "x \<noteq> ?m" using pm by auto
      then show ?thesis using Cons.prems(1) False f1 f2 True
        by (auto simp: step IH simp del: length_append rename_indexes.simps)
    qed
  qed
qed simp

text \<open>Where a family of a table goes when the table is renamed.\<close>

definition moved :: "(string \<Rightarrow> 'd option) \<Rightarrow> string \<Rightarrow> string \<Rightarrow> string \<Rightarrow> 'd option" where
  "moved f old new x =
     (if x = new then f old
      else if x = old \<or> prefix (old @ CF_INDEX_INFIX) x then None
      else if prefix (new @ CF_INDEX_INFIX) x \<and> f (idx_cf_name old (drop (length (new @ CF_INDEX_INFIX)) x)) \<noteq> None
      then f (idx_cf_name old (drop (length (new @ CF_INDEX_INFIX)) x))
      else f x)"

lemma rename_families:
  assumes "registry_laws R fam emp" "registry_answers R fam" "old \<noteq> new" "fam c old \<noteq> None"
    and "\<And>x. prefix (old @ CF_INDEX_INFIX) x \<Longrightarrow> \<not> prefix (new @ CF_INDEX_INFIX) x"
    and "\<not> prefix (old @ CF_INDEX_INFIX) new" "\<not> prefix (new @ CF_INDEX_INFIX) old"
  shows "\<exists>c1. rename_column_family R old new (snd (drop_column_family R new c)) = (TDB_SUCCESS, c1) \<and>
    fam (case list_column_families R c1 of (rc, names) \<Rightarrow> if rc = TDB_SUCCESS then rename_indexes R old new names c1 else c1) =
      moved (fam c) old new"
proof -
  define c0 where "c0 = snd (drop_column_family R new c)"
  have f0: "fam c0 = (fam c)(new := None)" by (simp add: c0_def drop_answers [OF assms(1,2)])
  have e0: "fam c0 old \<noteq> None" "fam c0 new = None" using f0 assms(3,4) by simp_all
  obtain c1 where r: "rename_column_family R old new c0 = (TDB_SUCCESS, c1)"
    using rename_answers(1) [OF assms(1,2) e0] by (cases "rename_column_family R old new c0") simp
  have f1: "fam c1 = (fam c)(old := None, new := fam c old)"
    using rename_answers(2) [OF assms(1,2) e0] r f0 assms(3) by (auto simp: fun_upd_twist)
  obtain names where l: "list_column_families R c1 = (TDB_SUCCESS, names)" "distinct names"
    using answersD(3,4) [OF assms(2), of c1] by (cases "list_column_families R c1") simp
  have nm: "set names = {n. fam c1 n \<noteq> None}" by (rule reg_list [OF assms(1) l(1)])
  have no: "\<not> prefix (old @ CF_INDEX_INFIX) old" "\<not> prefix (new @ CF_INDEX_INFIX) new"
    by (auto dest: prefix_length_le simp: CF_INDEX_INFIX_def)
  have i: "idx_cf_name old z \<noteq> old" "idx_cf_name old z \<noteq> new" for z
    using no(1) assms(6) by (auto simp: idx_cf_name_def prefix_def)
  have "fam (rename_indexes R old new names c1) x = moved (fam c) old new x" for x
  proof -
    let ?z = "idx_cf_name old (drop (length (new @ CF_INDEX_INFIX)) x)"
    have "fam (rename_indexes R old new names c1) x =
        (if prefix (old @ CF_INDEX_INFIX) x \<and> x \<in> set names then None
         else if prefix (new @ CF_INDEX_INFIX) x \<and> ?z \<in> set names then fam c1 ?z else fam c1 x)"
      by (rule rename_indexes_families [OF assms(1,2) _ l(2)]) (use assms(5) nm in auto)
    moreover have "?z \<noteq> old" "?z \<noteq> new" by (rule i)+
    ultimately show ?thesis using f1 nm no assms(3,6,7) assms(5) [of x] by (auto simp: moved_def simp del: length_append)
  qed
  then show ?thesis using r l(1) by (auto simp: c0_def)
qed

section \<open>Reconciling\<close>

definition hidden :: "string \<Rightarrow> bool" where "hidden n \<longleftrightarrow> take 2 n = ''__''"

definition quarantine_name :: "(string \<Rightarrow> nat) \<Rightarrow> string \<Rightarrow> string" where
  "quarantine_name now n = take 255 (''__orphan_'' @ to_string (now n) @ ''_'' @ take 200 n)"

lemma hidden_quarantine: "hidden (quarantine_name now n)"
  by (simp add: hidden_def quarantine_name_def)

text \<open>A sweep that reports success has moved every orphan out of sight with its contents, and changed nothing else.\<close>

lemma quarantine_families:
  assumes "registry_laws R fam emp"
  shows "apply_orphans R OrphanQuarantine now ns ok c = (True, c') \<Longrightarrow> \<forall>n\<in>set ns. \<not> hidden n \<Longrightarrow> distinct ns \<Longrightarrow>
    ok \<and> (\<forall>n\<in>set ns. fam c' n = None \<and> (\<exists>q. hidden q \<and> fam c' q = fam c n \<and> fam c n \<noteq> None)) \<and>
    (\<forall>x. x \<notin> set ns \<longrightarrow> (\<not> hidden x \<or> fam c x \<noteq> None) \<longrightarrow> fam c' x = fam c x)"
proof (induction ns arbitrary: ok c)
  case (Cons n ns)
  let ?q = "quarantine_name now n"
  obtain rc c1 where r: "rename_column_family R n ?q c = (rc, c1)" by fastforce
  have "apply_orphans R OrphanQuarantine now ns (ok \<and> rc = TDB_SUCCESS) c1 = (True, c')"
    using Cons.prems(1) r by (simp add: quarantine_name_def)
  note IH = Cons.IH [OF this]
  then have ok: "ok" "rc = TDB_SUCCESS" using Cons.prems(2,3) by auto
  note L = reg_rename(1-3) [OF assms r ok(2)]
  have h: "\<not> hidden n" "hidden ?q" "n \<notin> set ns" using Cons.prems(2,3) hidden_quarantine by auto
  then have "?q \<noteq> n" "?q \<notin> set ns" using Cons.prems(2) by auto
  then have q: "fam c1 ?q = fam c n" "fam c1 n = None" "\<And>x. x \<noteq> n \<Longrightarrow> x \<noteq> ?q \<Longrightarrow> fam c1 x = fam c x" using L(3) by auto
  have c': "fam c' ?q = fam c n" "fam c' n = None" using IH h q \<open>?q \<notin> set ns\<close> Cons.prems(2,3) L(1) by auto
  have "fam c m = fam c1 m" if "m \<in> set ns" for m using that h q(3) Cons.prems(2) by (metis list.set_intros(2))
  then have "\<forall>m\<in>set ns. fam c' m = None \<and> (\<exists>q. hidden q \<and> fam c' q = fam c m \<and> fam c m \<noteq> None)"
    using IH Cons.prems(2,3) by auto
  moreover have "fam c' x = fam c x" if "x \<notin> set (n # ns)" "\<not> hidden x \<or> fam c x \<noteq> None" for x
  proof -
    have "x \<noteq> n" "x \<noteq> ?q" using that L(2) h(2) by auto
    then show ?thesis using IH Cons.prems(2,3) that q(3) by auto
  qed
  ultimately show ?case using ok c' h(2) L(1) by auto
qed simp

lemma delta_orphans:
  assumes "registry_laws R fam emp" "registry_answers R fam"
  shows "set (orphan_cfs (compute_delta R (Some dd) c)) = {n. fam c n \<noteq> None \<and> \<not> hidden n \<and> n \<notin> set (expected_cfs dd)}"
    "set (orphan_dd_tables (compute_delta R (Some dd) c)) = {n. n \<in> set (expected_cfs dd) \<and> fam c n = None}"
    "distinct (orphan_cfs (compute_delta R (Some dd) c))"
proof -
  obtain names where l: "list_column_families R c = (TDB_SUCCESS, names)"
    using answersD(3) [OF assms(2), of c] by (cases "list_column_families R c") simp
  then have "set names = {n. fam c n \<noteq> None}" by (rule reg_list [OF assms(1)])
  then show "set (orphan_cfs (compute_delta R (Some dd) c)) = {n. fam c n \<noteq> None \<and> \<not> hidden n \<and> n \<notin> set (expected_cfs dd)}"
    "set (orphan_dd_tables (compute_delta R (Some dd) c)) = {n. n \<in> set (expected_cfs dd) \<and> fam c n = None}"
    using l by (auto simp: compute_delta_def compute_delta_pure_def hidden_def)
  show "distinct (orphan_cfs (compute_delta R (Some dd) c))"
    using l by (simp add: compute_delta_def compute_delta_pure_def)
qed

section \<open>A registry that meets the laws\<close>

definition mem_reg :: "((string \<times> nat) list) registry" where
  "mem_reg = \<lparr>get_column_family = (\<lambda>n c. map_of c n \<noteq> None),
     create_column_family = (\<lambda>n c. (TDB_SUCCESS, (n, 0) # filter (\<lambda>p. fst p \<noteq> n) c)),
     drop_column_family = (\<lambda>n c. if map_of c n = None then (TDB_ERR_NOT_FOUND, c) else (TDB_SUCCESS, filter (\<lambda>p. fst p \<noteq> n) c)),
     rename_column_family = (\<lambda>a b c. case map_of c a of
        None \<Rightarrow> (TDB_ERR_NOT_FOUND, c)
      | Some d \<Rightarrow> if map_of c b \<noteq> None then (TDB_ERR_EXISTS, c) else (TDB_SUCCESS, (b, d) # filter (\<lambda>p. fst p \<noteq> a) c)),
     list_column_families = (\<lambda>c. (TDB_SUCCESS, remdups (map fst c)))\<rparr>"

lemma map_of_filter_neq: "map_of (filter (\<lambda>p. fst p \<noteq> n) c) = (map_of c)(n := None)"
  by (induction c) (auto simp: fun_eq_iff)

lemma mem_reg_laws: "registry_laws mem_reg map_of 0"
  by (auto simp: registry_laws_def mem_reg_def map_of_filter_neq fun_upd_twist map_of_eq_None_iff image_iff split: option.splits)
     (force simp: map_of_eq_None_iff dest: map_of_SomeD)+

lemma mem_reg_answers: "registry_answers mem_reg map_of"
  by (auto simp: registry_answers_def mem_reg_def split: option.splits)

section \<open>Findings\<close>

definition sample_ddl :: "((string \<times> nat) list, mem_state) ddl_env" where
  "sample_ddl = \<lparr>de_reg = mem_reg, de_eng = mem_engine, de_iso = TDB_ISOLATION_READ_COMMITTED, de_schema_cf = None, de_frm = (\<lambda>_. FrmMissing),
     de_scan = (\<lambda>_ _ _ _. Some []), de_sdi = None, de_bridge = sample_env\<rparr>"

definition idle_conn :: "mem_state conn" where "idle_conn = \<lparr>cn_trx = None, cn_eng = mem_init\<rparr>"

text \<open>The reconciler knows only the families of tables: it takes the index family of a table that is in the dictionary
  for an orphan, and drops it where it is told to drop.\<close>

theorem reconciler_drops_index:
  "case create sample_ddl True ''./d/t'' [''k''] None [] mem_init of (r, _, c, _) \<Rightarrow>
     r = DdlOk \<and> orphan_cfs (compute_delta mem_reg (Some [(''d'', Some [(''t'', ''TidesDB'')])]) c) = [''d__t__idx_k''] \<and>
     snd (apply_delta mem_reg OrphanDrop (\<lambda>_. 0) (compute_delta mem_reg (Some [(''d'', Some [(''t'', ''TidesDB'')])]) c) c) = [(''d__t'', 0)]"
  by code_simp

text \<open>Renaming a table to \<open>c\<close> in the database \<open>a__b\<close> destroys the table \<open>b__c\<close> of the database \<open>a\<close>, and dropping
  the database \<open>a\<close> the tables of \<open>a__b\<close>.\<close>

theorem rename_destroys_namesake:
  "(case rename_table sample_ddl ''./x/y'' ''./a__b/c'' None [(''x__y'', 1), (path_to_cf_name ''./a/b__c'', 2)] idle_conn of (r, _, c, _) \<Rightarrow>
      r = DdlOk \<and> map_of c (path_to_cf_name ''./a/b__c'') = Some 1) \<and>
   fst (tidesdb_hton_drop_database sample_ddl ''./a/'' [(path_to_cf_name ''./a__b/c'', 3)] mem_init) = []"
  by code_simp

section \<open>Properties\<close>

text \<open>C23: renaming moves a table and nothing else. For two tables with unambiguous names, of which the first
  exists, a rename succeeds and gives the new name the old family's contents and each of its indexes, leaves
  nothing under the old name, and changes no other family; the dictionary entry is bound to the new family, so a
  strict open of it succeeds.\<close>

theorem rename_moves_table:
  assumes "registry_laws (de_reg D) fam emp" "registry_answers (de_reg D) fam"
    and "plain_name db" "plain_name db'" "plain_name t" "plain_name t'" "(db, t) \<noteq> (db', t')"
    and "sep_free CF_DB_TABLE_SEP db" "sep_free CF_DB_TABLE_SEP db'" "sep_free CF_INDEX_INFIX t" "sep_free CF_INDEX_INFIX t'"
    and "fam c (table_cf db t) \<noteq> None"
    and "rename_table D (dir @ ''/'' @ db @ ''/'' @ t) (dir' @ ''/'' @ db' @ ''/'' @ t') to_def c cn = (r, def', c', cn')"
  shows "r = DdlOk \<and> fam c' = moved (fam c) (table_cf db t) (table_cf db' t') \<and>
    def' = map_option (rebind (table_cf db' t')) to_def \<and> validate_open True def' (table_cf db' t')"
proof -
  let ?old = "table_cf db t" and ?new = "table_cf db' t'"
  have p: "path_to_cf_name (dir @ ''/'' @ db @ ''/'' @ t) = ?old" "path_to_cf_name (dir' @ ''/'' @ db' @ ''/'' @ t') = ?new"
    using assms(3-6) by (simp_all only: cf_name_of_path table_cf_def)
  have ne: "?old \<noteq> ?new" using table_cf_inject [OF assms(8,9)] assms(7) by simp
  have dj: "\<not> prefix (?new @ CF_INDEX_INFIX) x" if "prefix (?old @ CF_INDEX_INFIX) x" for x
    using index_prefix_disjoint [OF assms(8-11) that] assms(7) by blast
  obtain c1 where c1: "rename_column_family (de_reg D) ?old ?new (snd (drop_column_family (de_reg D) ?new c)) = (TDB_SUCCESS, c1)"
    "fam (case list_column_families (de_reg D) c1 of (rc, names) \<Rightarrow>
        if rc = TDB_SUCCESS then rename_indexes (de_reg D) ?old ?new names c1 else c1) = moved (fam c) ?old ?new"
    using rename_families [OF assms(1,2) ne assms(12) dj index_prefix_table [OF assms(8,9,11)] index_prefix_table [OF assms(9,8,10)]] by blast
  have e: "r = DdlOk" "def' = map_option (rebind ?new) to_def"
    "c' = (case list_column_families (de_reg D) c1 of (rc, names) \<Rightarrow>
        if rc = TDB_SUCCESS then rename_indexes (de_reg D) ?old ?new names c1 else c1)"
    using assms(13) unfolding rename_table_def p Let_def c1(1) by simp_all
  moreover have "validate_open True def' ?new" unfolding e(2) by (cases to_def) (auto simp: validate_open_def rebind_def Let_def)
  ultimately show ?thesis using c1(2) by simp
qed

theorem rename_moves_table_witness:
  "case rename_table sample_ddl ''./d/t'' ''./d/u'' (Some sample_table) [(''d__t'', 1), (''d__t__idx_k'', 2)] idle_conn of
     (r, def', c', cn') \<Rightarrow> r = DdlOk \<and> map_of c' ''d__u__idx_k'' = Some 2 \<and> validate_open True def' ''d__u''"
proof -
  obtain r def' c' cn' where r: "rename_table sample_ddl ''./d/t'' ''./d/u'' (Some sample_table) [(''d__t'', 1), (''d__t__idx_k'', 2)] idle_conn = (r, def', c', cn')"
    by (metis prod_cases4)
  have n: "plain_name ''d''" "plain_name ''t''" "plain_name ''u''" "sep_free CF_DB_TABLE_SEP ''d''" "sep_free CF_INDEX_INFIX ''t''" "sep_free CF_INDEX_INFIX ''u''"
    by code_simp+
  have s: "registry_laws (de_reg sample_ddl) map_of 0" "registry_answers (de_reg sample_ddl) map_of"
    using mem_reg_laws mem_reg_answers by (simp_all add: sample_ddl_def)
  have cf: "table_cf ''d'' ''t'' = ''d__t''" "table_cf ''d'' ''u'' = ''d__u''" by code_simp+
  have r': "rename_table sample_ddl (''.'' @ ''/'' @ ''d'' @ ''/'' @ ''t'') (''.'' @ ''/'' @ ''d'' @ ''/'' @ ''u'') (Some sample_table)
      [(''d__t'', 1), (''d__t__idx_k'', 2)] idle_conn = (r, def', c', cn')" using r by simp
  have f: "map_of [(''d__t'', 1), (''d__t__idx_k'', 2)] (table_cf ''d'' ''t'') \<noteq> None" by (simp add: cf)
  have "(''d'', ''t'') \<noteq> (''d'', ''u'')" by simp
  from rename_moves_table [OF s n(1) n(1) n(2) n(3) this n(4) n(4) n(5) n(6) f r']
  have "r = DdlOk" "map_of c' = moved (map_of [(''d__t'', 1), (''d__t__idx_k'', 2)]) ''d__t'' ''d__u''" "validate_open True def' ''d__u''"
    unfolding cf by blast+
  moreover have "moved (map_of [(''d__t'', 1), (''d__t__idx_k'', 2)]) ''d__t'' ''d__u'' ''d__u__idx_k'' = Some (2 :: nat)" by code_simp
  ultimately show ?thesis unfolding r by simp
qed


definition sample_fams :: "(string \<times> nat) list" where
  "sample_fams = [(''d__t'', 1), (''d__t__idx_k'', 2), (''d__u'', 3)]"


text \<open>C29: a quarantine loses nothing and is done once. When a sweep reports success, every family that was not hidden and
  not expected by the dictionary has its contents under a hidden name, everything else is untouched, and the next
  sweep finds no orphan families.\<close>

theorem quarantine_keeps_data:
  assumes "registry_laws R fam emp" "registry_answers R fam"
    and "apply_delta R OrphanQuarantine now (compute_delta R (Some dd) c) c = (True, c')"
  shows "(\<forall>n. fam c n \<noteq> None \<and> \<not> hidden n \<and> n \<notin> set (expected_cfs dd) \<longrightarrow> (\<exists>q. hidden q \<and> fam c' q = fam c n)) \<and>
    (\<forall>n. fam c n \<noteq> None \<and> (hidden n \<or> n \<in> set (expected_cfs dd)) \<longrightarrow> fam c' n = fam c n) \<and>
    orphan_cfs (compute_delta R (Some dd) c') = []"
proof -
  note o1 = delta_orphans [OF assms(1,2), where dd = dd and c = c]
  have q: "(\<forall>n\<in>set (orphan_cfs (compute_delta R (Some dd) c)). fam c' n = None \<and> (\<exists>q. hidden q \<and> fam c' q = fam c n \<and> fam c n \<noteq> None)) \<and>
      (\<forall>x. x \<notin> set (orphan_cfs (compute_delta R (Some dd) c)) \<longrightarrow> (\<not> hidden x \<or> fam c x \<noteq> None) \<longrightarrow> fam c' x = fam c x)"
    using quarantine_families [OF assms(1) assms(3) [unfolded apply_delta_def] _ o1(3)] o1(1) by blast
  have "set (orphan_cfs (compute_delta R (Some dd) c')) = {}"
    unfolding delta_orphans(1) [OF assms(1,2)] using q unfolding o1(1) by force
  then show ?thesis using q unfolding o1(1) by auto
qed

theorem quarantine_keeps_data_witness:
  "case apply_delta mem_reg OrphanQuarantine (\<lambda>_. 5) (compute_delta mem_reg (Some [(''d'', Some [(''t'', ''TidesDB'')])]) sample_fams) sample_fams of
     (ok, c') \<Rightarrow> ok \<and> map_of c' ''d__t'' = Some 1 \<and> orphan_cfs (compute_delta mem_reg (Some [(''d'', Some [(''t'', ''TidesDB'')])]) c') = []"
proof -
  let ?dd = "[(''d'', Some [(''t'', ''TidesDB'')])]"
  obtain ok c' where a: "apply_delta mem_reg OrphanQuarantine (\<lambda>_. 5) (compute_delta mem_reg (Some ?dd) sample_fams) sample_fams = (ok, c')" by fastforce
  have "fst (apply_delta mem_reg OrphanQuarantine (\<lambda>_. 5) (compute_delta mem_reg (Some ?dd) sample_fams) sample_fams)" by code_simp
  then have ok using a by simp
  have "map_of sample_fams ''d__t'' = Some 1" "''d__t'' \<in> set (expected_cfs ?dd)" by code_simp+
  then show ?thesis
    using quarantine_keeps_data [OF mem_reg_laws mem_reg_answers, of "\<lambda>_. 5" ?dd sample_fams c'] a \<open>ok\<close> by simp
qed

end
