(* ===== verification/Backup.thy ===== *)
theory Backup
  imports Trx Cf_Names
begin

text \<open>Backups (\<open>tidesdb_backup_dir_check\<close> and \<open>tidesdb_checkpoint_dir_check\<close> of \<open>ha_tidesdb.cc\<close>): setting the
  variable checks the destination, ends the calling connection's transaction and makes the backup. The
  file system and the engine's backup call are parameters.\<close>

section \<open>Definitions\<close>

text \<open>An accepted empty value clears the variable.\<close>

datatype backup_verdict = BackupRejected | BackupCleared | BackupDone string

definition drop_own_txn :: "'e engine \<Rightarrow> 'e conn \<Rightarrow> 'e conn" where
  "drop_own_txn E cn =
     (case cn_trx cn of
        None \<Rightarrow> cn
      | Some tr \<Rightarrow> (case tx_txn tr of
            None \<Rightarrow> cn
          | Some t \<Rightarrow> cn\<lparr>cn_trx := Some (tr\<lparr>tx_txn := None, tx_dirty := False, tx_generation := tx_generation tr + 1\<rparr>),
                         cn_eng := txn_free E t (txn_rollback E t (cn_eng cn))\<rparr>))"

text \<open>\<open>entries\<close> are the names in the destination, None where it cannot be opened; \<open>backup\<close> is the engine's
  answer.\<close>

definition tidesdb_backup_dir_check ::
  "'e engine \<Rightarrow> (string \<Rightarrow> string option) \<Rightarrow> string \<Rightarrow> bool \<Rightarrow> bool \<Rightarrow> (string \<Rightarrow> string list option) \<Rightarrow> (string \<Rightarrow> bool) \<Rightarrow> string \<Rightarrow>
   'e conn \<Rightarrow> backup_verdict \<times> 'e conn" where
  "tidesdb_backup_dir_check E realpath allowed_root killed engine_open entries backup new_dir cn =
     (if new_dir = [] \<or> hd new_dir = CHR 0x00 then (BackupCleared, cn)
      else if \<not> tdb_path_is_safe new_dir then (BackupRejected, cn)
      else if \<not> tdb_path_is_under_allowed_root realpath allowed_root new_dir then (BackupRejected, cn)
      else if killed then (BackupRejected, cn)
      else if \<not> engine_open then (BackupRejected, cn)
      else let cn1 = drop_own_txn E cn in
        if (case entries new_dir of None \<Rightarrow> False | Some names \<Rightarrow> list_ex (\<lambda>n. n \<noteq> ''.'' \<and> n \<noteq> ''..'') names) then (BackupRejected, cn1)
        else if \<not> backup new_dir then (BackupRejected, cn1)
        else (BackupDone new_dir, cn1))"

definition tidesdb_checkpoint_dir_check :: "string \<Rightarrow> backup_verdict" where
  "tidesdb_checkpoint_dir_check new_dir = (if new_dir = [] \<or> hd new_dir = CHR 0x00 then BackupCleared else BackupRejected)"

section \<open>Findings\<close>

text \<open>A destination refused because it holds files has already cost the connection its transaction: the handle is
  gone, the writes with it, and the row locks stay held.\<close>

theorem refused_backup_loses_writes:
  "case tidesdb_backup_dir_check mem_engine Some [] False True (\<lambda>_. Some [''old'']) (\<lambda>_. True) ''/backups'' dirty_conn of (v, cn') \<Rightarrow>
     v = BackupRejected \<and> map_option tx_txn (cn_trx cn') = Some None \<and> map_option tx_locks (cn_trx cn') = map_option tx_locks (cn_trx dirty_conn) \<and>
     map_option tx_txn (cn_trx dirty_conn) \<noteq> Some None"
  by code_simp

section \<open>Properties\<close>



end
