(* ===== verification/Cursor.thy ===== *)
theory Cursor
  imports Engine
begin

text \<open>Iterators of the engine library, as the handler uses them: an iterator is made for a
  transaction and a column family and keeps the contents it was made with; the handler moves it and
  reads the entry under it. The calls are a record of functions, their documented behaviour laws
  over the sorted contents and the position of an iterator. The second part gives the calls on the
  in-memory engine.\<close>

section \<open>Definitions\<close>

text \<open>The moves return the engine's result code; the handler drops it everywhere.\<close>

record ('e, 'i) cursor =
  it_new :: "nat \<Rightarrow> nat \<Rightarrow> 'e \<Rightarrow> tdb_rc \<times> 'i \<times> 'e"
  it_seek :: "bytes \<Rightarrow> 'i \<Rightarrow> tdb_rc \<times> 'i"
  it_seek_for_prev :: "bytes \<Rightarrow> 'i \<Rightarrow> tdb_rc \<times> 'i"
  it_seek_to_first :: "'i \<Rightarrow> tdb_rc \<times> 'i"
  it_seek_to_last :: "'i \<Rightarrow> tdb_rc \<times> 'i"
  it_next :: "'i \<Rightarrow> tdb_rc \<times> 'i"
  it_prev :: "'i \<Rightarrow> tdb_rc \<times> 'i"
  it_valid :: "'i \<Rightarrow> bool"
  it_key_value :: "'i \<Rightarrow> tdb_rc \<times> bytes \<times> bytes"

type_synonym entry = "bytes \<times> bytes"

record 'i cursor_view =
  cv_seq :: "'i \<Rightarrow> entry list"
  cv_pos :: "'i \<Rightarrow> nat option"

text \<open>Positions in a sorted list of entries.\<close>

definition at_index :: "entry list \<Rightarrow> nat \<Rightarrow> nat option" where
  "at_index xs i = (if i < length xs then Some i else None)"

definition pos_ge :: "bytes \<Rightarrow> entry list \<Rightarrow> nat option" where
  "pos_ge k xs = at_index xs (length (takeWhile (\<lambda>p. fst p < k) xs))"

definition pos_le :: "bytes \<Rightarrow> entry list \<Rightarrow> nat option" where
  "pos_le k xs = (case length (takeWhile (\<lambda>p. fst p \<le> k) xs) of 0 \<Rightarrow> None | Suc i \<Rightarrow> Some i)"

definition pos_last :: "entry list \<Rightarrow> nat option" where
  "pos_last xs = (case length xs of 0 \<Rightarrow> None | Suc i \<Rightarrow> Some i)"

definition pos_next :: "entry list \<Rightarrow> nat \<Rightarrow> nat option" where
  "pos_next xs i = at_index xs (Suc i)"

definition pos_prev :: "nat \<Rightarrow> nat option" where
  "pos_prev i = (case i of 0 \<Rightarrow> None | Suc j \<Rightarrow> Some j)"

definition contents :: "entry list \<Rightarrow> (bytes \<Rightarrow> bytes option) \<Rightarrow> bool" where
  "contents xs f \<longleftrightarrow> sorted_wrt (<) (map fst xs) \<and> map_of xs = f"

section \<open>Laws\<close>

text \<open>A new iterator holds what the transaction reads in the column family at that moment, and making
  it changes nothing that can be observed. Moving it keeps what it holds.\<close>

definition cursor_new_law :: "'e engine \<Rightarrow> 'e observer \<Rightarrow> ('e, 'i) cursor \<Rightarrow> 'i cursor_view \<Rightarrow> bool" where
  "cursor_new_law E B C V \<longleftrightarrow>
     (\<forall>t cf e rc it e'. it_new C t cf e = (rc, it, e') \<longrightarrow>
        ob_db B e' = ob_db B e \<and> txn_state_of E t e' = txn_state_of E t e \<and> ob_saved B e' t = ob_saved B e t \<and>
        ob_buf B e' t = ob_buf B e t \<and> ob_view B e' t = ob_view B e t \<and>
        (rc = TDB_SUCCESS \<longrightarrow> contents (cv_seq V it) (\<lambda>k. ob_view B e t (cf, k))))"

definition moves :: "'i cursor_view \<Rightarrow> 'i \<Rightarrow> tdb_rc \<times> 'i \<Rightarrow> nat option \<Rightarrow> bool" where
  "moves V it r p \<longleftrightarrow> cv_seq V (snd r) = cv_seq V it \<and> (fst r = TDB_SUCCESS \<longrightarrow> cv_pos V (snd r) = p)"

definition cursor_move_law :: "('e, 'i) cursor \<Rightarrow> 'i cursor_view \<Rightarrow> bool" where
  "cursor_move_law C V \<longleftrightarrow>
     (\<forall>k it. moves V it (it_seek C k it) (pos_ge k (cv_seq V it))) \<and>
     (\<forall>k it. moves V it (it_seek_for_prev C k it) (pos_le k (cv_seq V it))) \<and>
     (\<forall>it. moves V it (it_seek_to_first C it) (at_index (cv_seq V it) 0)) \<and>
     (\<forall>it. moves V it (it_seek_to_last C it) (pos_last (cv_seq V it))) \<and>
     (\<forall>it i. cv_pos V it = Some i \<longrightarrow> moves V it (it_next C it) (pos_next (cv_seq V it) i)) \<and>
     (\<forall>it i. cv_pos V it = Some i \<longrightarrow> moves V it (it_prev C it) (pos_prev i))"

definition cursor_read_law :: "('e, 'i) cursor \<Rightarrow> 'i cursor_view \<Rightarrow> bool" where
  "cursor_read_law C V \<longleftrightarrow>
     (\<forall>it. it_valid C it \<longleftrightarrow> cv_pos V it \<noteq> None) \<and>
     (\<forall>it i. cv_pos V it = Some i \<longrightarrow> i < length (cv_seq V it)) \<and>
     (\<forall>it i rc k v. cv_pos V it = Some i \<and> it_key_value C it = (rc, k, v) \<and> rc = TDB_SUCCESS \<longrightarrow>
        (k, v) = cv_seq V it ! i)"

definition cursor_laws :: "'e engine \<Rightarrow> 'e observer \<Rightarrow> ('e, 'i) cursor \<Rightarrow> 'i cursor_view \<Rightarrow> bool" where
  "cursor_laws E B C V \<longleftrightarrow> cursor_new_law E B C V \<and> cursor_move_law C V \<and> cursor_read_law C V"

text \<open>No call on an iterator fails.\<close>

definition cursor_total :: "('e, 'i) cursor \<Rightarrow> bool" where
  "cursor_total C \<longleftrightarrow>
     (\<forall>k it. fst (it_seek C k it) = TDB_SUCCESS \<and> fst (it_seek_for_prev C k it) = TDB_SUCCESS) \<and>
     (\<forall>it. fst (it_seek_to_first C it) = TDB_SUCCESS \<and> fst (it_seek_to_last C it) = TDB_SUCCESS \<and>
        fst (it_next C it) = TDB_SUCCESS \<and> fst (it_prev C it) = TDB_SUCCESS \<and>
        fst (it_key_value C it) = TDB_SUCCESS)"

lemma law_it_new:
  assumes "cursor_laws E B C V" "it_new C t cf e = (rc, it, e')"
  shows "ob_db B e' = ob_db B e" "txn_state_of E t e' = txn_state_of E t e" "ob_saved B e' t = ob_saved B e t"
    "ob_buf B e' t = ob_buf B e t" "ob_view B e' t = ob_view B e t"
    "rc = TDB_SUCCESS \<Longrightarrow> contents (cv_seq V it) (\<lambda>k. ob_view B e t (cf, k))"
  using assms unfolding cursor_laws_def cursor_new_law_def by blast+

lemma law_moves:
  assumes "cursor_laws E B C V"
  shows "moves V it (it_seek C k it) (pos_ge k (cv_seq V it))"
    "moves V it (it_seek_for_prev C k it) (pos_le k (cv_seq V it))"
    "moves V it (it_seek_to_first C it) (at_index (cv_seq V it) 0)"
    "moves V it (it_seek_to_last C it) (pos_last (cv_seq V it))"
    "cv_pos V it = Some i \<Longrightarrow> moves V it (it_next C it) (pos_next (cv_seq V it) i)"
    "cv_pos V it = Some i \<Longrightarrow> moves V it (it_prev C it) (pos_prev i)"
  using assms unfolding cursor_laws_def cursor_move_law_def by blast+

lemma law_it_read:
  assumes "cursor_laws E B C V"
  shows "it_valid C it \<longleftrightarrow> cv_pos V it \<noteq> None" "cv_pos V it = Some i \<Longrightarrow> i < length (cv_seq V it)"
    "cv_pos V it = Some i \<Longrightarrow> it_key_value C it = (rc, k, v) \<Longrightarrow> rc = TDB_SUCCESS \<Longrightarrow> cv_seq V it ! i = (k, v)"
  using assms unfolding cursor_laws_def cursor_read_law_def by metis+

text \<open>With calls that do not fail, the moves and the reads are functions of contents and position.\<close>

lemma cursor_seq:
  assumes "cursor_laws E B C V"
  shows "cv_seq V (snd (it_seek C k it)) = cv_seq V it" "cv_seq V (snd (it_seek_for_prev C k it)) = cv_seq V it"
    "cv_seq V (snd (it_seek_to_first C it)) = cv_seq V it" "cv_seq V (snd (it_seek_to_last C it)) = cv_seq V it"
    "cv_pos V it = Some i \<Longrightarrow> cv_seq V (snd (it_next C it)) = cv_seq V it"
    "cv_pos V it = Some i \<Longrightarrow> cv_seq V (snd (it_prev C it)) = cv_seq V it"
  using law_moves [OF assms] by (auto simp: moves_def)

lemma cursor_pos:
  assumes "cursor_laws E B C V" "cursor_total C"
  shows "cv_pos V (snd (it_seek C k it)) = pos_ge k (cv_seq V it)"
    "cv_pos V (snd (it_seek_for_prev C k it)) = pos_le k (cv_seq V it)"
    "cv_pos V (snd (it_seek_to_first C it)) = at_index (cv_seq V it) 0"
    "cv_pos V (snd (it_seek_to_last C it)) = pos_last (cv_seq V it)"
    "cv_pos V it = Some i \<Longrightarrow> cv_pos V (snd (it_next C it)) = pos_next (cv_seq V it) i"
    "cv_pos V it = Some i \<Longrightarrow> cv_pos V (snd (it_prev C it)) = pos_prev i"
  using law_moves [OF assms(1)] assms(2) by (auto simp: moves_def cursor_total_def)

lemma cursor_entry:
  assumes "cursor_laws E B C V" "cursor_total C" "cv_pos V it = Some i"
  shows "it_key_value C it = (TDB_SUCCESS, cv_seq V it ! i)" "i < length (cv_seq V it)" "it_valid C it"
proof -
  obtain rc k v where r: "it_key_value C it = (rc, k, v)" by (rule prod_cases3)
  then have "rc = TDB_SUCCESS" using assms(2) unfolding cursor_total_def by (metis fst_conv)
  then show "it_key_value C it = (TDB_SUCCESS, cv_seq V it ! i)"
    using law_it_read(3) [OF assms(1,3) r] r by simp
  show "i < length (cv_seq V it)" "it_valid C it" using law_it_read(1,2) [OF assms(1)] assms(3) by auto
qed

section \<open>Sorted contents\<close>

lemma contents_sorted:
  assumes "contents xs f" "i < j" "j < length xs"
  shows "fst (xs ! i) < fst (xs ! j)"
  using assms sorted_wrt_nth_less [of "(<)" "map fst xs" i j] by (simp add: contents_def)

lemma contents_distinct: "contents xs f \<Longrightarrow> distinct (map fst xs)"
  unfolding contents_def by (metis strict_sorted_iff)

lemma contents_nth:
  assumes "contents xs f" "i < length xs"
  shows "f (fst (xs ! i)) = Some (snd (xs ! i))"
proof -
  have "map_of xs (fst (xs ! i)) = Some (snd (xs ! i))"
    by (rule map_of_is_SomeI) (use assms contents_distinct in auto)
  then show ?thesis using assms(1) by (simp add: contents_def)
qed

lemma contents_index:
  assumes "contents xs f" "f k = Some v"
  obtains i where "i < length xs" "xs ! i = (k, v)"
proof -
  have "(k, v) \<in> set xs" using assms by (auto simp: contents_def dest: map_of_SomeD)
  then show ?thesis using that by (metis in_set_conv_nth)
qed

text \<open>What a seek finds.\<close>

lemma pos_ge_Some:
  assumes "pos_ge k xs = Some i"
  shows "i < length xs" "k \<le> fst (xs ! i)" "j < i \<Longrightarrow> fst (xs ! j) < k"
proof -
  have i: "i = length (takeWhile (\<lambda>p. fst p < k) xs)" "i < length xs"
    using assms by (auto simp: pos_ge_def at_index_def split: if_splits)
  then show "i < length xs" "k \<le> fst (xs ! i)" using nth_length_takeWhile [of "\<lambda>p. fst p < k" xs] by auto
  show "j < i \<Longrightarrow> fst (xs ! j) < k" unfolding i(1) by (metis nth_mem set_takeWhileD takeWhile_nth)
qed

lemma pos_ge_None:
  assumes "pos_ge k xs = None" "i < length xs"
  shows "fst (xs ! i) < k"
proof -
  have "length (takeWhile (\<lambda>p. fst p < k) xs) = length xs"
    using assms(1) length_takeWhile_le [of "\<lambda>p. fst p < k" xs] by (auto simp: pos_ge_def at_index_def split: if_splits)
  then have "takeWhile (\<lambda>p. fst p < k) xs = xs" by (metis length_takeWhile_le takeWhile_eq_take take_all_iff)
  then show ?thesis using assms(2) by (metis nth_mem set_takeWhileD)
qed

section \<open>Iterators of the in-memory engine\<close>

type_synonym mem_iter = "entry list \<times> nat option"

definition mem_entries :: "nat \<Rightarrow> nat \<Rightarrow> mem_state \<Rightarrow> entry list" where
  "mem_entries t cf e =
     map (\<lambda>k. (k, the (mem_view e t (cf, k)))) (sorted_list_of_set (set (mem_candidates t cf [] e)))"

definition mem_cursor :: "(mem_state, mem_iter) cursor" where
  "mem_cursor = \<lparr>
     it_new = (\<lambda>t cf e. (TDB_SUCCESS, (mem_entries t cf e, None), e)),
     it_seek = (\<lambda>k it. (TDB_SUCCESS, (fst it, pos_ge k (fst it)))),
     it_seek_for_prev = (\<lambda>k it. (TDB_SUCCESS, (fst it, pos_le k (fst it)))),
     it_seek_to_first = (\<lambda>it. (TDB_SUCCESS, (fst it, at_index (fst it) 0))),
     it_seek_to_last = (\<lambda>it. (TDB_SUCCESS, (fst it, pos_last (fst it)))),
     it_next = (\<lambda>it. (TDB_SUCCESS, (fst it, case snd it of None \<Rightarrow> None | Some i \<Rightarrow> pos_next (fst it) i))),
     it_prev = (\<lambda>it. (TDB_SUCCESS, (fst it, case snd it of None \<Rightarrow> None | Some i \<Rightarrow> pos_prev i))),
     it_valid = (\<lambda>it. case snd it of None \<Rightarrow> False | Some i \<Rightarrow> i < length (fst it)),
     it_key_value = (\<lambda>it. (TDB_SUCCESS,
        case snd it of None \<Rightarrow> ([], []) | Some i \<Rightarrow> if i < length (fst it) then fst it ! i else ([], [])))\<rparr>"

fun mem_pos :: "mem_iter \<Rightarrow> nat option" where
  "mem_pos (xs, p) = case_option None (at_index xs) p"

definition mem_cursor_view :: "mem_iter cursor_view" where
  "mem_cursor_view = \<lparr>cv_seq = fst, cv_pos = mem_pos\<rparr>"

lemma mem_entries_contents: "contents (mem_entries t cf e) (\<lambda>k. mem_view e t (cf, k))"
proof -
  let ?S = "set (mem_candidates t cf [] e)"
  have S: "?S = {k. mem_view e t (cf, k) \<noteq> None}" using mem_candidates_set [of t cf "[]" e] by simp
  have "map_of (mem_entries t cf e) k = mem_view e t (cf, k)" for k
  proof -
    have "map_of (mem_entries t cf e) k = (if k \<in> ?S then Some (the (mem_view e t (cf, k))) else None)"
      by (simp add: mem_entries_def map_of_map_restrict restrict_map_def)
    then show ?thesis unfolding S by auto
  qed
  then show ?thesis by (auto simp: contents_def mem_entries_def comp_def)
qed

lemma mem_cursor_total: "cursor_total mem_cursor"
  by (simp add: cursor_total_def mem_cursor_def)

lemma pos_bounds [simp]:
  "case_option None (at_index xs) (at_index xs i) = at_index xs i"
  "case_option None (at_index xs) (pos_ge k xs) = pos_ge k xs"
  "case_option None (at_index xs) (pos_next xs i) = pos_next xs i"
  "case_option None (at_index xs) (pos_last xs) = pos_last xs"
  "case_option None (at_index xs) (pos_le k xs) = pos_le k xs"
  "i < length xs \<Longrightarrow> case_option None (at_index xs) (pos_prev i) = pos_prev i"
proof -
  show "case_option None (at_index xs) (pos_le k xs) = pos_le k xs"
    using length_takeWhile_le [of "\<lambda>p. fst p \<le> k" xs] by (simp add: pos_le_def at_index_def split: nat.split)
qed (simp_all add: at_index_def pos_ge_def pos_next_def pos_last_def pos_prev_def split: nat.split)

lemma mem_cursor_laws: "cursor_laws mem_engine mem_observer mem_cursor mem_cursor_view"
proof -
  have "cursor_new_law mem_engine mem_observer mem_cursor mem_cursor_view"
    using mem_entries_contents by (auto simp: cursor_new_law_def mem_cursor_def mem_cursor_view_def mem_observer_def)
  moreover have "cursor_move_law mem_cursor mem_cursor_view"
    unfolding cursor_move_law_def
  proof (intro conjI allI impI)
    fix it i
    assume "cv_pos mem_cursor_view it = Some i"
    then have "snd it = Some i" "i < length (fst it)"
      by (cases it; simp add: mem_cursor_view_def at_index_def split: option.split_asm if_split_asm)+
    then show "moves mem_cursor_view it (it_next mem_cursor it) (pos_next (cv_seq mem_cursor_view it) i)"
      "moves mem_cursor_view it (it_prev mem_cursor it) (pos_prev i)"
      by (simp_all add: moves_def mem_cursor_def mem_cursor_view_def)
  qed (simp_all add: moves_def mem_cursor_def mem_cursor_view_def)
  moreover have "cursor_read_law mem_cursor mem_cursor_view"
    by (auto simp: cursor_read_law_def mem_cursor_def mem_cursor_view_def at_index_def split: option.splits if_splits)
  ultimately show ?thesis by (simp add: cursor_laws_def)
qed

end
