(* ===== verification/Handler.thy ===== *)
theory Handler
  imports Cursor Trx Key_Codec Row_Codec Fts Spatial
begin

text \<open>The state a handler object (\<open>class ha_tidesdb\<close>) keeps for a statement, and the operations every
  read and write goes through: statement begin and end (\<open>external_lock\<close>, \<open>ensure_stmt_txn\<close>), the
  cached iterators, the fetch of a row by its key or under an iterator, and the counters of the
  share (auto-increment and hidden row ids). What the handler reads of the server's table object and
  session is a record of parameters.\<close>

section \<open>Definitions\<close>

subsection \<open>Table and session\<close>

record key_def =
  kd_info :: key_info
  kd_nosame :: bool
  kd_fts :: bool

abbreviation kd_parts :: "key_def \<Rightarrow> key_part list" where "kd_parts kd \<equiv> ki_parts (kd_info kd)"
abbreviation kd_spatial :: "key_def \<Rightarrow> bool" where "kd_spatial kd \<equiv> ki_rtree (kd_info kd)"

text \<open>\<open>te_pk\<close> is \<open>pk_index\<close> of a table with a user-defined primary key, \<open>te_idx_cfs\<close> the column families
  of its keys (NULL for the primary key). Parameters from the server: the methods of \<open>Field\<close>, the
  value of the TTL column, the texts and the geometry of a row under a key, the number of the
  AUTO_INCREMENT column, and \<open>handler::update_auto_increment\<close>, which draws a number from the counter
  of the share and stores it in the row. \<open>te_mid\<close> is the double \<open>(a + b) / 2\<close>, \<open>te_out\<close> what an
  uninitialised key buffer holds, \<open>te_row_lock\<close> what \<open>row_lock_acquire\<close> (theory \<open>Row_Lock\<close>) answers
  for a key.\<close>

record table_env =
  te_ops :: field_ops
  te_out :: "nat \<Rightarrow> byte"
  te_pack :: pack_ops
  te_enc :: enc_env
  te_tb :: table_def
  te_keys :: "key_def list"
  te_pk :: "nat option"
  te_cf :: nat
  te_idx_cfs :: "nat option list"
  te_ttl_col :: "bytes \<Rightarrow> int option"
  te_has_ttl :: bool
  te_default_ttl :: u64
  te_fts_vals :: "key_info \<Rightarrow> bytes \<Rightarrow> bytes option list"
  te_cs :: cs_ops
  te_fts_cfg :: fts_cfg
  te_geom :: "key_info \<Rightarrow> bytes \<Rightarrow> bytes"
  te_mid :: "dbl \<Rightarrow> dbl \<Rightarrow> dbl"
  te_ai_val :: "(bytes \<Rightarrow> u64) option"
  te_update_ai :: "bytes \<Rightarrow> u64 \<Rightarrow> ha_err \<times> bytes \<times> u64"
  te_isolation :: isolation
  te_pessimistic :: bool
  te_row_lock :: "bytes \<Rightarrow> ha_err"

datatype sql_command =
  SQLCOM_ALTER_TABLE | SQLCOM_CREATE_INDEX | SQLCOM_DROP_INDEX | SQLCOM_TRUNCATE | SQLCOM_OPTIMIZE
| SQLCOM_CREATE_TABLE | SQLCOM_DROP_TABLE | SQLCOM_OTHER

record sess_vars =
  sv_skip_unique_check :: bool
  sv_ttl :: u64
  sv_single_delete_primary :: bool
  sv_compact_min_rows :: nat

text \<open>The session: the running command, whether OPTION_NOT_AUTOCOMMIT or OPTION_BEGIN is set, the
  isolation level, its variables and the kill flag.\<close>

record thd =
  th_command :: sql_command
  th_multi_stmt :: bool
  th_iso :: sql_iso
  th_vars :: sess_vars
  th_killed :: bool

datatype scan_dir = DIR_NONE | DIR_FORWARD | DIR_BACKWARD
datatype lock_type = F_RDLCK | F_WRLCK | F_UNLCK

text \<open>An iterator the handler keeps, with the column family, transaction and transaction generation it
  was made for.\<close>

record 'i kept_iter =
  kp_iter :: 'i
  kp_cf :: nat
  kp_txn :: nat
  kp_gen :: u64

text \<open>The handler. \<open>h_cached_trx\<close> says that \<open>cached_trx_\<close> points to the transaction of the connection
  \<open>h_conn\<close>; \<open>h_recs\<close> are the record buffers of the table, \<open>h_spatial\<close> the mode, the query
  rectangle and the ranges still to read of an active spatial scan; the last two fields are the
  counters of the share.\<close>

record ('e, 'i) handler =
  h_conn :: "'e conn"
  h_cached_trx :: bool
  h_stmt_txn :: "nat option"
  h_stmt_dirty :: bool
  h_write_lock :: bool
  h_shape :: "(sql_command \<times> bool) option"
  h_vars_valid :: bool
  h_vars :: sess_vars
  h_enc :: enc_ctx
  h_mk :: mk_state
  h_recs :: rec_store
  h_current_pk :: bytes
  h_scan_txn :: "nat option"
  h_scan_cf :: "nat option"
  h_scan_iter :: "'i kept_iter option"
  h_scan_err :: "(ha_err \<times> nat option \<times> nat option) option"
  h_scan_dir :: scan_dir
  h_active_index :: "nat option"
  h_is_pk :: bool
  h_pk_exact_done :: bool
  h_search :: bytes
  h_spatial :: "(mbr_mode \<times> tdb_mbr \<times> (u64 \<times> u64) list) option"
  h_dup_iter :: "nat \<Rightarrow> 'i kept_iter option"
  h_dup_key :: "nat option"
  h_dup_ref :: bytes
  h_can_replace :: bool
  h_bulk_insert :: bool
  h_bulk_update :: bool
  h_bulk_delete :: bool
  h_bulk_ops :: nat
  h_fts_docs :: "nat \<Rightarrow> int"
  h_fts_words :: "nat \<Rightarrow> int"
  h_del_rows :: nat
  h_del_min :: bytes
  h_del_max :: bytes
  h_auto_inc :: u64
  h_next_row_id :: u64

abbreviation h_eng :: "('e, 'i) handler \<Rightarrow> 'e" where "h_eng h \<equiv> cn_eng (h_conn h)"

definition set_eng :: "'e \<Rightarrow> ('e, 'i) handler \<Rightarrow> ('e, 'i) handler" where
  "set_eng e h = h\<lparr>h_conn := (h_conn h)\<lparr>cn_eng := e\<rparr>\<rparr>"

text \<open>\<open>cached_trx_ ? cached_trx_->txn_generation : 0\<close>.\<close>

definition cur_gen :: "('e, 'i) handler \<Rightarrow> u64" where
  "cur_gen h = (if h_cached_trx h then case cn_trx (h_conn h) of Some tr \<Rightarrow> tx_generation tr | None \<Rightarrow> 0 else 0)"

text \<open>The primary key of the table and the key parts it has; key bytes. Where the key builder would
  overrun its buffer the key is taken to be empty.\<close>

definition pk_info :: "table_env \<Rightarrow> key_info option" where
  "pk_info te = map_option (\<lambda>i. kd_info (te_keys te ! i)) (te_pk te)"

definition built :: "bytes option \<Rightarrow> bytes" where
  "built k = (case k of None \<Rightarrow> [] | Some b \<Rightarrow> b)"

definition num_secondary_indexes :: "table_env \<Rightarrow> nat" where
  "num_secondary_indexes te = length (filter (\<lambda>c. c \<noteq> None) (te_idx_cfs te))"

text \<open>The keys a write loop visits: not the primary key, and only those with a column family.\<close>

definition sec_keys :: "table_env \<Rightarrow> (nat \<times> key_def \<times> nat) list" where
  "sec_keys te =
     List.map_filter
       (\<lambda>i. if te_pk te = Some i \<or> length (te_idx_cfs te) \<le> i then None
            else map_option (\<lambda>cf. (i, te_keys te ! i, cf)) (te_idx_cfs te ! i))
       [0..<length (te_keys te)]"

subsection \<open>Statement begin and end\<close>

definition is_ddl :: "sql_command \<Rightarrow> bool" where "is_ddl c = (c \<noteq> SQLCOM_OTHER)"

definition ensure_stmt_txn :: "'e engine \<Rightarrow> table_env \<Rightarrow> thd \<Rightarrow> ('e, 'i) handler \<Rightarrow> ha_err \<times> ('e, 'i) handler" where
  "ensure_stmt_txn E te th h =
     (if h_stmt_txn h \<noteq> None then (HA_OK, h)
      else let (sql_cmd, is_autocommit) =
                 (case h_shape h of Some s \<Rightarrow> s | None \<Rightarrow> (th_command th, \<not> th_multi_stmt th));
               effective_iso = (if is_ddl sql_cmd \<or> is_autocommit then TDB_ISOLATION_READ_COMMITTED
                 else if te_pessimistic te then TDB_ISOLATION_READ_COMMITTED
                 else resolve_effective_isolation (te_pessimistic te) (th_iso th) (te_isolation te))
           in (case get_or_create_trx E effective_iso (h_conn h) of (ok, c) \<Rightarrow>
                 if \<not> ok then (HA_ERR_OUT_OF_MEM, h\<lparr>h_conn := c\<rparr>)
                 else (HA_OK, h\<lparr>h_conn := c, h_stmt_txn := map_option snd (live_txn c)\<rparr>)))"

definition free_iters :: "('e, 'i) handler \<Rightarrow> ('e, 'i) handler" where
  "free_iters h = h\<lparr>h_scan_iter := None, h_dup_iter := Map.empty\<rparr>"

definition external_lock ::
  "'e engine \<Rightarrow> table_env \<Rightarrow> thd \<Rightarrow> lock_type \<Rightarrow> ('e, 'i) handler \<Rightarrow> ha_err \<times> ('e, 'i) handler" where
  "external_lock E te th lk h =
     (if lk \<noteq> F_UNLCK
      then let sql_cmd = th_command th;
               is_autocommit = (\<not> th_multi_stmt th);
               h1 = h\<lparr>h_shape := Some (sql_cmd, is_autocommit)\<rparr>;
               effective_iso = (if is_ddl sql_cmd \<or> is_autocommit then TDB_ISOLATION_READ_COMMITTED
                 else resolve_effective_isolation (te_pessimistic te) (th_iso th) (te_isolation te))
           in (case get_or_create_trx E effective_iso (h_conn h1) of (ok, c) \<Rightarrow>
                 if \<not> ok then (HA_ERR_OUT_OF_MEM, h1\<lparr>h_conn := c\<rparr>)
                 else (HA_OK, h1\<lparr>h_conn := c, h_stmt_txn := map_option snd (live_txn c), h_stmt_dirty := False,
                                 h_write_lock := h_write_lock h1 \<or> lk = F_WRLCK, h_cached_trx := True\<rparr>))
      else let in_multi_stmt = (case h_shape h of Some (_, ac) \<Rightarrow> \<not> ac | None \<Rightarrow> th_multi_stmt th);
               frozen_view = (h_cached_trx h \<and> (case cn_trx (h_conn h) of
                  Some tr \<Rightarrow> iso_rank TDB_ISOLATION_REPEATABLE_READ \<le> iso_rank (tx_isolation_level tr) | None \<Rightarrow> False));
               h1 = (if \<not> in_multi_stmt \<or> h_stmt_dirty h \<or> \<not> frozen_view then free_iters h else h)
           in (HA_OK, h1\<lparr>h_enc := (h_enc h1)\<lparr>enc_key_ver_valid := False\<rparr>, h_vars_valid := False,
                         h_stmt_txn := None, h_stmt_dirty := False, h_write_lock := False,
                         h_cached_trx := False, h_shape := None\<rparr>))"

text \<open>What every write does first: it marks the transaction as having written.\<close>

definition mark_stmt_dirty :: "('e, 'i) handler \<Rightarrow> ('e, 'i) handler" where
  "mark_stmt_dirty h = h\<lparr>h_stmt_dirty := True, h_conn := (if h_cached_trx h then mark_dirty (h_conn h) else h_conn h)\<rparr>"

subsection \<open>Reading rows\<close>

text \<open>The two ways of filling a record buffer from a stored value are the same function of the value;
  they differ in which copy of the value BLOB pointers refer to.\<close>

definition load_row :: "table_env \<Rightarrow> rec_id \<Rightarrow> bytes \<Rightarrow> ('e, 'i) handler \<Rightarrow> ('e, 'i) handler" where
  "load_row te b row h =
     (case deserialize_stored (te_pack te) (te_enc te) (te_tb te) (h_enc h) (h_mk h) (h_recs h b) row of
        (buf, s) \<Rightarrow> h\<lparr>h_recs := (h_recs h)(b := buf), h_mk := s\<rparr>)"

definition fetch_row_by_pk ::
  "'e engine \<Rightarrow> table_env \<Rightarrow> nat \<Rightarrow> bytes \<Rightarrow> rec_id \<Rightarrow> ('e, 'i) handler \<Rightarrow> ha_err \<times> ('e, 'i) handler" where
  "fetch_row_by_pk E te txn pk b h =
     (case txn_get E txn (te_cf te) (build_data_key pk) (h_eng h) of (rc, row, e) \<Rightarrow>
        if rc = TDB_ERR_NOT_FOUND then (HA_ERR_KEY_NOT_FOUND, set_eng e h)
        else if rc \<noteq> TDB_SUCCESS then (tdb_rc_to_ha rc, set_eng e h)
        else (HA_OK, (load_row te b row (set_eng e h))\<lparr>h_current_pk := pk\<rparr>))"

text \<open>\<open>iter_read_current\<close>: entries outside the data namespace are skipped. The loop ends when the
  iterator does (lemma \<open>read_current_at\<close>); a loop that does not end is the value None.\<close>

definition set_iter :: "'i \<Rightarrow> ('e, 'i) handler \<Rightarrow> ('e, 'i) handler" where
  "set_iter it h = h\<lparr>h_scan_iter := map_option (\<lambda>kp. kp\<lparr>kp_iter := it\<rparr>) (h_scan_iter h)\<rparr>"

partial_function (option) iter_read_current ::
  "('e, 'i) cursor \<Rightarrow> table_env \<Rightarrow> rec_id \<Rightarrow> ('e, 'i) handler \<Rightarrow> (ha_err \<times> ('e, 'i) handler) option" where
  "iter_read_current C te b h =
     (case h_scan_iter h of
        None \<Rightarrow> Some (HA_ERR_END_OF_FILE, h)
      | Some kp \<Rightarrow>
          if \<not> it_valid C (kp_iter kp) then Some (HA_ERR_END_OF_FILE, h)
          else (case it_key_value C (kp_iter kp) of (rc, key, row) \<Rightarrow>
            if rc \<noteq> TDB_SUCCESS then Some (HA_ERR_END_OF_FILE, h)
            else if \<not> is_data_key key
            then iter_read_current C te b (set_iter (snd (it_next C (kp_iter kp))) h)
            else Some (HA_OK, load_row te b row (h\<lparr>h_current_pk := drop 1 key\<rparr>))))"

definition make_scan_iter ::
  "('e, 'i) cursor \<Rightarrow> ('e, 'i) handler \<Rightarrow> ha_err \<times> ('e, 'i) handler" where
  "make_scan_iter C h =
     (case (h_scan_txn h, h_scan_cf h) of
        (Some txn, Some cf) \<Rightarrow>
          (case it_new C txn cf (h_eng h) of (rc, it, e) \<Rightarrow>
             if rc = TDB_SUCCESS
             then (HA_OK, (set_eng e h)\<lparr>h_scan_iter := Some \<lparr>kp_iter = it, kp_cf = cf, kp_txn = txn, kp_gen = cur_gen h\<rparr>,
                                         h_scan_err := None\<rparr>)
             else (tdb_rc_to_ha rc, (set_eng e h)\<lparr>h_scan_err := Some (tdb_rc_to_ha rc, Some cf, Some txn)\<rparr>))
      | _ \<Rightarrow> (HA_ERR_INTERNAL_ERROR, h\<lparr>h_scan_err := Some (HA_ERR_INTERNAL_ERROR, h_scan_cf h, h_scan_txn h)\<rparr>))"

definition ensure_scan_iter ::
  "('e, 'i) cursor \<Rightarrow> ('e, 'i) handler \<Rightarrow> ha_err \<times> ('e, 'i) handler" where
  "ensure_scan_iter C h =
     (if h_scan_iter h \<noteq> None then (HA_OK, h)
      else (case h_scan_err h of
              Some (err, cf, txn) \<Rightarrow>
                if cf = h_scan_cf h \<and> txn = h_scan_txn h then (err, h) else make_scan_iter C h
            | None \<Rightarrow> make_scan_iter C h))"

text \<open>A kept scan iterator is dropped when the column family, the transaction or its generation is
  another.\<close>

definition drop_stale_iter :: "nat \<Rightarrow> ('e, 'i) handler \<Rightarrow> ('e, 'i) handler" where
  "drop_stale_iter cf h =
     (case h_scan_iter h of
        Some kp \<Rightarrow>
          if kp_cf kp \<noteq> cf \<or> Some (kp_txn kp) \<noteq> h_scan_txn h \<or> kp_gen kp \<noteq> cur_gen h then h\<lparr>h_scan_iter := None\<rparr> else h
      | None \<Rightarrow> h)"

subsection \<open>Counters of the share\<close>

definition HIDDEN_PK_SIZE :: nat where "HIDDEN_PK_SIZE = 8"
definition HIDDEN_PK_FIRST_ROW_ID :: u64 where "HIDDEN_PK_FIRST_ROW_ID = 1"

text \<open>\<open>get_auto_increment\<close> is a load of the counter and a loop of compare-and-swap. The threads that
  run it are a transition system: a thread loads the counter, then swaps it for \<open>cur + nb\<close>, or finds
  another value there (or fails spuriously) and tries again with the value it found. Raising the
  counter to an explicit value (\<open>write_row\<close>) is the same loop with another new value.\<close>

datatype ai_request = Reserve u64 | Raise u64

datatype ai_pc = AiIdle | AiLoaded ai_request u64

datatype ai_event = Granted u64 u64 | Explicit u64

record ai_state =
  ai_counter :: u64
  ai_pc :: "nat \<Rightarrow> ai_pc"
  ai_log :: "ai_event list"

fun ai_next :: "ai_request \<Rightarrow> u64 \<Rightarrow> u64" where
  "ai_next (Reserve nb) cur = cur + nb"
| "ai_next (Raise val) cur = val"

text \<open>\<open>Raise\<close> leaves the loop when the counter is not behind.\<close>

fun ai_wants :: "ai_request \<Rightarrow> u64 \<Rightarrow> bool" where
  "ai_wants (Reserve nb) cur = True"
| "ai_wants (Raise val) cur = (cur < val)"

fun ai_done :: "ai_request \<Rightarrow> u64 \<Rightarrow> ai_event" where
  "ai_done (Reserve nb) cur = Granted (cur + 1) nb"
| "ai_done (Raise val) cur = Explicit val"

inductive ai_step :: "ai_state \<Rightarrow> ai_state \<Rightarrow> bool" where
  load: "ai_pc s t = AiIdle \<Longrightarrow> ai_step s (s\<lparr>ai_pc := (ai_pc s)(t := AiLoaded r (ai_counter s))\<rparr>)"
| swap: "ai_pc s t = AiLoaded r cur \<Longrightarrow> ai_wants r cur \<Longrightarrow> ai_counter s = cur \<Longrightarrow>
    ai_step s \<lparr>ai_counter = ai_next r cur, ai_pc = (ai_pc s)(t := AiIdle), ai_log = ai_done r cur # ai_log s\<rparr>"
| retry: "ai_pc s t = AiLoaded r cur \<Longrightarrow> ai_wants r cur \<Longrightarrow>
    ai_step s (s\<lparr>ai_pc := (ai_pc s)(t := AiLoaded r (ai_counter s))\<rparr>)"
| leave: "ai_pc s t = AiLoaded r cur \<Longrightarrow> \<not> ai_wants r cur \<Longrightarrow>
    ai_step s (s\<lparr>ai_pc := (ai_pc s)(t := AiIdle), ai_log := ai_done r cur # ai_log s\<rparr>)"

definition ai_init :: "u64 \<Rightarrow> ai_state \<Rightarrow> bool" where
  "ai_init c s \<longleftrightarrow> s = \<lparr>ai_counter = c, ai_pc = (\<lambda>_. AiIdle), ai_log = []\<rparr>"

text \<open>The same calls run by one thread.\<close>

definition get_auto_increment :: "u64 \<Rightarrow> u64 \<Rightarrow> (u64 \<times> u64) \<times> u64" where
  "get_auto_increment nb_desired_values auto_inc_val =
     ((auto_inc_val + 1, nb_desired_values), auto_inc_val + nb_desired_values)"

definition raise_auto_inc :: "u64 \<Rightarrow> u64 \<Rightarrow> u64" where
  "raise_auto_inc val cur = (if cur < val then val else cur)"

definition reset_auto_increment :: "u64 \<Rightarrow> ('e, 'i) handler \<Rightarrow> ('e, 'i) handler" where
  "reset_auto_increment val h =
     h\<lparr>h_auto_inc := (if 0 < val then val - 1 else 0),
       h_next_row_id := (if 0 < val then val else HIDDEN_PK_FIRST_ROW_ID)\<rparr>"

text \<open>\<open>recover_counters\<close>: the last entry of the data family gives the next row id, or the row whose
  AUTO_INCREMENT column seeds the counter. \<open>found\<close> reads \<open>found_next_number_field\<close> in \<open>record[1]\<close>.\<close>

definition recover_from :: "('e, 'i) cursor \<Rightarrow> table_env \<Rightarrow> (bytes \<Rightarrow> u64) option \<Rightarrow> 'i \<Rightarrow> ('e, 'i) handler \<Rightarrow> ('e, 'i) handler" where
  "recover_from C te found it h =
     (if \<not> it_valid C it then h
      else case it_key_value C it of (rc, key, row) \<Rightarrow>
        if rc \<noteq> TDB_SUCCESS \<or> \<not> is_data_key key then h
        else let h1 = (if te_pk te = None \<and> length key = 1 + HIDDEN_PK_SIZE
                       then h\<lparr>h_next_row_id := decode_be64 (drop 1 key) + 1\<rparr> else h)
             in (case (te_pk te, found) of
                   (Some _, Some number) \<Rightarrow>
                     let h2 = load_row te Rec1 row h1 in h2\<lparr>h_auto_inc := number (h_recs h2 Rec1)\<rparr>
                 | _ \<Rightarrow> h1))"

definition recover_counters ::
  "'e engine \<Rightarrow> ('e, 'i) cursor \<Rightarrow> table_env \<Rightarrow> (bytes \<Rightarrow> u64) option \<Rightarrow> isolation \<Rightarrow> ('e, 'i) handler \<Rightarrow> ('e, 'i) handler" where
  "recover_counters E C te found default_iso h =
     (case txn_begin_with_isolation E default_iso (h_eng h) of (rc, t, e) \<Rightarrow>
        if rc \<noteq> TDB_SUCCESS then set_eng e h
        else (case it_new C t (te_cf te) e of (irc, it, e1) \<Rightarrow>
          let h1 = set_eng e1 h;
              h2 = (if irc = TDB_SUCCESS then recover_from C te found (snd (it_seek_to_last C it)) h1 else h1);
              h3 = (if te_pk te = None \<and> h_next_row_id h2 = 0 then h2\<lparr>h_next_row_id := HIDDEN_PK_FIRST_ROW_ID\<rparr> else h2)
          in set_eng (txn_free E t (txn_rollback E t (h_eng h3))) h3))"

section \<open>Auto-increment under concurrency\<close>

text \<open>The largest number an event of the log stands for, and the steps in which the counter does not
  wrap around.\<close>

fun ai_top :: "ai_event \<Rightarrow> nat" where
  "ai_top (Granted f n) = unat f + unat n - 1"
| "ai_top (Explicit v) = unat v"

fun ai_fresh :: "ai_event list \<Rightarrow> bool" where
  "ai_fresh [] = True"
| "ai_fresh (Granted f n # es) = ((n \<noteq> 0 \<longrightarrow> (\<forall>ev\<in>set es. ai_top ev < unat f)) \<and> ai_fresh es)"
| "ai_fresh (Explicit v # es) = ai_fresh es"

definition ai_rises :: "ai_state \<Rightarrow> ai_state \<Rightarrow> bool" where
  "ai_rises s s' \<longleftrightarrow> ai_step s s' \<and> ai_counter s \<le> ai_counter s'"

definition ai_inv :: "ai_state \<Rightarrow> bool" where
  "ai_inv s \<longleftrightarrow> (\<forall>t r cur. ai_pc s t = AiLoaded r cur \<longrightarrow> cur \<le> ai_counter s) \<and>
     (\<forall>ev\<in>set (ai_log s). ai_top ev \<le> unat (ai_counter s)) \<and> ai_fresh (ai_log s)"

lemma reserve_no_wrap:
  fixes cur nb :: u64
  assumes "cur \<le> cur + nb"
  shows "unat (cur + nb) = unat cur + unat nb" "nb \<noteq> 0 \<Longrightarrow> unat (cur + 1) = unat cur + 1"
proof -
  show s: "unat (cur + nb) = unat cur + unat nb" using assms by (simp add: unat_plus_simple)
  assume "nb \<noteq> 0"
  then have "0 < unat nb" by (simp add: unat_gt_0)
  then have "unat cur + 1 < 2 ^ LENGTH(64)" using s unsigned_less [of "cur + nb", where ?'a = nat] by simp
  then show "unat (cur + 1) = unat cur + 1" by (simp add: unat_word_ariths)
qed

lemma ai_swap_inv:
  assumes "ai_inv s" "cur = ai_counter s" "cur \<le> ai_next r cur" "ai_wants r cur"
  shows "(\<forall>ev\<in>set (ai_done r cur # ai_log s). ai_top ev \<le> unat (ai_next r cur)) \<and> ai_fresh (ai_done r cur # ai_log s)"
proof -
  have old: "ai_top ev \<le> unat cur" if "ev \<in> set (ai_log s)" for ev using that assms(1,2) by (auto simp: ai_inv_def)
  have "unat cur \<le> unat (ai_next r cur)" using assms(3) by (simp add: word_le_nat_alt)
  with old have up: "ai_top ev \<le> unat (ai_next r cur)" if "ev \<in> set (ai_log s)" for ev using that le_trans by blast
  show ?thesis
  proof (cases r)
    case (Reserve nb)
    note w = reserve_no_wrap [of cur nb] assms(3) [unfolded Reserve, simplified]
    have "ai_top (Granted (cur + 1) nb) \<le> unat (cur + nb)"
      using w by (cases "nb = 0") (auto simp: unat_word_ariths)
    moreover have "ai_top ev < unat (cur + 1)" if "ev \<in> set (ai_log s)" "nb \<noteq> 0" for ev
      using w old [OF that(1)] that(2) by simp
    ultimately show ?thesis using assms(1) up Reserve by (auto simp: ai_inv_def)
  next
    case (Raise v)
    then show ?thesis using assms(1) up by (auto simp: ai_inv_def)
  qed
qed

lemma ai_step_inv:
  assumes "ai_inv s" "ai_rises s s'"
  shows "ai_inv s'"
  using assms(2) [unfolded ai_rises_def, THEN conjunct1]
proof (cases rule: ai_step.cases)
  case (swap t r cur)
  have le: "cur \<le> ai_next r cur" using assms(2) swap by (simp add: ai_rises_def)
  have "c \<le> ai_next r cur" if "ai_pc s u = AiLoaded r' c" for u r' c
    using that assms(1) swap(4) le by (auto simp: ai_inv_def intro: order_trans)
  then show ?thesis using ai_swap_inv [OF assms(1) swap(4) [symmetric] le swap(3)] swap(1)
    by (auto simp: ai_inv_def)
next
  case (leave t r cur)
  then obtain v where r: "r = Raise v" "v \<le> cur" by (cases r) auto
  moreover have "cur \<le> ai_counter s" using assms(1) leave by (auto simp: ai_inv_def)
  ultimately have "unat v \<le> unat (ai_counter s)" by (simp add: word_le_nat_alt)
  then show ?thesis using assms(1) leave(1) r(1) by (auto simp: ai_inv_def)
qed (use assms(1) in \<open>auto simp: ai_inv_def\<close>)

interpretation ai_system: transition_system "ai_init c" ai_rises ai_inv
  by unfold_locales (simp add: ai_init_def ai_inv_def, rule ai_step_inv)

lemma ai_fresh_suffix: "ai_fresh (xs @ ys) \<Longrightarrow> ai_fresh ys"
  by (induction xs rule: ai_fresh.induct) auto

text \<open>C25: numbers drawn from the counter are new. However the threads that reserve numbers and the ones
  that store explicit values interleave, as long as the counter does not wrap around, every number of
  a reserved range is larger than every number reserved or stored explicitly before it, and the
  counter has reached it.\<close>

theorem auto_increment_fresh:
  assumes "reachable (ai_init c) ai_rises s" "ai_log s = newer @ Granted f n # older" "n \<noteq> 0"
  shows "(\<forall>ev\<in>set older. ai_top ev < unat f) \<and> unat f + unat n - 1 \<le> unat (ai_counter s)"
proof -
  have "ai_inv s" using assms(1) by (rule ai_system.reachable_inv)
  then have log: "ai_fresh (ai_log s)" and top: "ai_top (Granted f n) \<le> unat (ai_counter s)"
    using assms(2) by (auto simp: ai_inv_def)
  have "ai_fresh (Granted f n # older)" using log unfolding assms(2) by (rule ai_fresh_suffix)
  with top show ?thesis using assms(3) by simp
qed

lemma ai_run_swap:
  assumes "reachable (ai_init c) ai_rises s" "ai_pc s t = AiIdle" "ai_wants r (ai_counter s)"
    "ai_counter s \<le> ai_next r (ai_counter s)"
  shows "reachable (ai_init c) ai_rises
    \<lparr>ai_counter = ai_next r (ai_counter s), ai_pc = (ai_pc s)(t := AiIdle), ai_log = ai_done r (ai_counter s) # ai_log s\<rparr>"
proof -
  let ?s = "s\<lparr>ai_pc := (ai_pc s)(t := AiLoaded r (ai_counter s))\<rparr>"
  have "reachable (ai_init c) ai_rises ?s"
    by (rule reachable_step [OF assms(1)]) (simp add: ai_rises_def ai_step.load assms(2))
  moreover have "ai_step ?s \<lparr>ai_counter = ai_next r (ai_counter s), ai_pc = (ai_pc ?s)(t := AiIdle),
      ai_log = ai_done r (ai_counter s) # ai_log ?s\<rparr>"
    by (rule ai_step.swap) (use assms in auto)
  ultimately show ?thesis using assms(4) by (elim reachable_step) (simp add: ai_rises_def)
qed

theorem auto_increment_fresh_witness:
  "\<exists>s. reachable (ai_init 0) ai_rises s \<and> ai_log s = [Granted 11 2, Explicit 10, Granted 1 1] \<and>
     (\<forall>ev\<in>{Explicit 10, Granted 1 1}. ai_top ev < unat (11 :: u64)) \<and> 12 \<le> unat (ai_counter s)"
proof -
  have "reachable (ai_init 0) ai_rises \<lparr>ai_counter = 0, ai_pc = (\<lambda>_. AiIdle), ai_log = []\<rparr>"
    by (rule reachable_init) (simp add: ai_init_def)
  from ai_run_swap [OF this, of 0 "Reserve 1"]
  have "reachable (ai_init 0) ai_rises \<lparr>ai_counter = 1, ai_pc = (\<lambda>_. AiIdle), ai_log = [Granted 1 1]\<rparr>"
    by (simp add: fun_upd_idem)
  from ai_run_swap [OF this, of 1 "Raise 10"]
  have "reachable (ai_init 0) ai_rises \<lparr>ai_counter = 10, ai_pc = (\<lambda>_. AiIdle), ai_log = [Explicit 10, Granted 1 1]\<rparr>"
    by (simp add: fun_upd_idem)
  from ai_run_swap [OF this, of 0 "Reserve 2"]
  have r: "reachable (ai_init 0) ai_rises
      \<lparr>ai_counter = 12, ai_pc = (\<lambda>_. AiIdle), ai_log = [Granted 11 2, Explicit 10, Granted 1 1]\<rparr>" (is "reachable _ _ ?s")
    by (simp add: fun_upd_idem)
  show ?thesis using auto_increment_fresh [OF r, of "[]" 11 2 "[Explicit 10, Granted 1 1]"] r by (intro exI [of _ ?s]) simp
qed

end
