(* ===== verification/Dml.thy ===== *)
theory Dml
  imports Handler
begin

text \<open>The row operations \<open>write_row\<close>, \<open>update_row\<close> and \<open>delete_row\<close> with everything they maintain: the
  data row, the entries of every secondary, full-text and spatial index, the duplicate checks, the
  counters, bulk batching and its mid-statement commits. The lemmas show that the operations keep the
  entries of the indexes equal to what the rows demand.\<close>

section \<open>Definitions\<close>

definition TIDESDB_BULK_INSERT_BATCH_OPS :: nat where "TIDESDB_BULK_INSERT_BATCH_OPS = 500"
definition MAX_KEY :: nat where "MAX_KEY = 64"
definition tdb_empty_val :: bytes where "tdb_empty_val = [0]"
definition FTS_DOC_DELTA_ADD :: int where "FTS_DOC_DELTA_ADD = 1"
definition FTS_DOC_DELTA_DEL :: int where "FTS_DOC_DELTA_DEL = - 1"

text \<open>\<open>tidesdb_txn_single_delete\<close> of the engine, beside the calls of theory \<open>Engine\<close>.\<close>

type_synonym 'e single_delete = "nat \<Rightarrow> nat \<Rightarrow> bytes \<Rightarrow> 'e \<Rightarrow> tdb_rc \<times> 'e"

definition tidesdb_txn_delete_cf ::
  "'e engine \<Rightarrow> 'e single_delete \<Rightarrow> nat \<Rightarrow> nat \<Rightarrow> bytes \<Rightarrow> bool \<Rightarrow> 'e \<Rightarrow> tdb_rc \<times> 'e" where
  "tidesdb_txn_delete_cf E SD txn cf key use_single_delete e =
     (if use_single_delete then SD txn cf key e else txn_delete E txn cf key e)"

subsection \<open>Index entries\<close>

definition fts_tokens :: "table_env \<Rightarrow> key_def \<Rightarrow> bytes \<Rightarrow> bytes list" where
  "fts_tokens te kd buf = fts_extract_and_tokenize (te_cs te) (te_fts_cfg te) (te_fts_vals te (kd_info kd) buf)"

definition row_mbr :: "table_env \<Rightarrow> key_def \<Rightarrow> bytes \<Rightarrow> tdb_mbr option" where
  "row_mbr te kd buf =
     (let geom = te_geom te (kd_info kd) buf in if 0 < length geom then spatial_compute_mbr geom else None)"

definition spatial_entry_key :: "table_env \<Rightarrow> tdb_mbr \<Rightarrow> bytes \<Rightarrow> bytes" where
  "spatial_entry_key te m pk =
     spatial_build_key (te_mid te (mbr_xmin m) (mbr_xmax m)) (te_mid te (mbr_ymin m) (mbr_ymax m)) pk"

text \<open>The columns of a key in comparable form.\<close>

definition col_bytes :: "table_env \<Rightarrow> key_def \<Rightarrow> bytes \<Rightarrow> bytes" where
  "col_bytes te kd buf = built (make_comparable_key (te_ops te) (kd_info kd) buf (length (kd_parts kd)) (te_out te))"

definition index_key :: "table_env \<Rightarrow> key_def \<Rightarrow> bytes \<Rightarrow> bytes \<Rightarrow> bytes" where
  "index_key te kd current_pk buf =
     built (sec_idx_key (te_ops te) (pk_info te) current_pk (kd_info kd) buf (te_out te))"

definition row_pk :: "table_env \<Rightarrow> bytes \<Rightarrow> bytes \<Rightarrow> bytes" where
  "row_pk te current_pk buf = built (pk_from_record (te_ops te) (pk_info te) current_pk buf (te_out te))"

text \<open>The loops over the terms of a row; deletions do not look at the result code.\<close>

fun put_terms :: "'e engine \<Rightarrow> nat \<Rightarrow> nat \<Rightarrow> bytes \<Rightarrow> u32 \<Rightarrow> int \<Rightarrow> (bytes \<times> 16 word) list \<Rightarrow> 'e \<Rightarrow> tdb_rc \<times> 'e" where
  "put_terms E txn cf pk wc ttl [] e = (TDB_SUCCESS, e)"
| "put_terms E txn cf pk wc ttl ((term, tf) # ts) e =
     (case txn_put E txn cf (fts_build_key term pk) (fts_build_value tf wc) ttl e of (rc, e1) \<Rightarrow>
        if rc \<noteq> TDB_SUCCESS then (rc, e1) else put_terms E txn cf pk wc ttl ts e1)"

fun delete_terms :: "'e engine \<Rightarrow> 'e single_delete \<Rightarrow> nat \<Rightarrow> nat \<Rightarrow> bytes \<Rightarrow> (bytes \<times> 16 word) list \<Rightarrow> 'e \<Rightarrow> 'e" where
  "delete_terms E SD txn cf pk [] e = e"
| "delete_terms E SD txn cf pk ((term, tf) # ts) e =
     delete_terms E SD txn cf pk ts (snd (tidesdb_txn_delete_cf E SD txn cf (fts_build_key term pk) True e))"

subsection \<open>Insert\<close>

definition insert_index ::
  "'e engine \<Rightarrow> table_env \<Rightarrow> nat \<Rightarrow> int \<Rightarrow> bytes \<Rightarrow> bytes \<Rightarrow> nat \<times> key_def \<times> nat \<Rightarrow> ('e, 'i) handler \<Rightarrow>
   tdb_rc \<times> ('e, 'i) handler" where
  "insert_index E te txn ttl pk buf x h =
     (case x of (i, kd, cf) \<Rightarrow>
        if kd_fts kd
        then let toks = fts_tokens te kd buf; word_count = word_of_nat (length toks) :: u32 in
          (case put_terms E txn cf pk word_count ttl (tf_map toks []) (h_eng h) of (rc, e) \<Rightarrow>
             if rc \<noteq> TDB_SUCCESS then (rc, set_eng e h)
             else if h_bulk_insert h \<and> i < MAX_KEY
             then (TDB_SUCCESS, (set_eng e h)\<lparr>
                     h_fts_docs := (h_fts_docs h)(i := h_fts_docs h i + FTS_DOC_DELTA_ADD),
                     h_fts_words := (h_fts_words h)(i := h_fts_words h i + uint word_count)\<rparr>)
             else (TDB_SUCCESS,
                   set_eng (snd (fts_update_meta E txn (te_cf te) i FTS_DOC_DELTA_ADD (uint word_count) e)) h))
        else if kd_spatial kd
        then (case row_mbr te kd buf of
                None \<Rightarrow> (TDB_SUCCESS, h)
              | Some m \<Rightarrow>
                  (case txn_put E txn cf (spatial_entry_key te m pk) (spatial_build_value m) ttl (h_eng h) of (rc, e) \<Rightarrow>
                     (rc, set_eng e h)))
        else (case txn_put E txn cf (index_key te kd (h_current_pk h) buf) tdb_empty_val ttl (h_eng h) of (rc, e) \<Rightarrow>
                (rc, set_eng e h)))"

fun insert_indexes ::
  "'e engine \<Rightarrow> table_env \<Rightarrow> nat \<Rightarrow> int \<Rightarrow> bytes \<Rightarrow> bytes \<Rightarrow> (nat \<times> key_def \<times> nat) list \<Rightarrow> ('e, 'i) handler \<Rightarrow>
   tdb_rc \<times> ('e, 'i) handler" where
  "insert_indexes E te txn ttl pk buf [] h = (TDB_SUCCESS, h)"
| "insert_indexes E te txn ttl pk buf (x # xs) h =
     (case insert_index E te txn ttl pk buf x h of (rc, h1) \<Rightarrow>
        if rc \<noteq> TDB_SUCCESS then (rc, h1) else insert_indexes E te txn ttl pk buf xs h1)"

text \<open>The iterator of the duplicate check of a key: the kept one, if it belongs to this transaction and
  generation, or a new one.\<close>

definition dup_iter ::
  "('e, 'i) cursor \<Rightarrow> nat \<Rightarrow> nat \<Rightarrow> nat \<Rightarrow> ('e, 'i) handler \<Rightarrow> tdb_rc \<times> 'i kept_iter option \<times> ('e, 'i) handler" where
  "dup_iter C txn i cf h =
     (case (case h_dup_iter h i of
              Some kp \<Rightarrow> if kp_txn kp \<noteq> txn \<or> kp_gen kp \<noteq> cur_gen h then None else Some kp
            | None \<Rightarrow> None) of
        Some kp \<Rightarrow> (TDB_SUCCESS, Some kp, h)
      | None \<Rightarrow>
          (case it_new C txn cf (h_eng h) of (irc, it, e) \<Rightarrow>
             if irc \<noteq> TDB_SUCCESS then (irc, None, (set_eng e h)\<lparr>h_dup_iter := (h_dup_iter h)(i := None)\<rparr>)
             else let kp = \<lparr>kp_iter = it, kp_cf = cf, kp_txn = txn, kp_gen = cur_gen h\<rparr> in
               (TDB_SUCCESS, Some kp, (set_eng e h)\<lparr>h_dup_iter := (h_dup_iter h)(i \<mapsto> kp)\<rparr>)))"

definition pk_key_len :: "table_env \<Rightarrow> nat" where
  "pk_key_len te = (case pk_info te of Some ki \<Rightarrow> comparable_key_length ki | None \<Rightarrow> HIDDEN_PK_SIZE)"

definition check_unique_key ::
  "('e, 'i) cursor \<Rightarrow> table_env \<Rightarrow> nat \<Rightarrow> bytes \<Rightarrow> nat \<times> key_def \<times> nat \<Rightarrow> ('e, 'i) handler \<Rightarrow> ha_err \<times> ('e, 'i) handler" where
  "check_unique_key C te txn buf x h =
     (case x of (i, kd, cf) \<Rightarrow>
        if kd_fts kd \<or> kd_spatial kd \<or> \<not> kd_nosame kd then (HA_OK, h)
        else (case dup_iter C txn i cf h of
          (irc, None, h1) \<Rightarrow> (tdb_rc_to_ha irc, h1)
        | (_, Some kp, h1) \<Rightarrow>
            let prefix = col_bytes te kd buf;
                it = snd (it_seek C prefix (kp_iter kp));
                h2 = h1\<lparr>h_dup_iter := (h_dup_iter h1)(i \<mapsto> kp\<lparr>kp_iter := it\<rparr>)\<rparr>
            in if \<not> it_valid C it then (HA_OK, h2)
               else (case it_key_value C it of (rc, fk, _) \<Rightarrow>
                 if rc = TDB_SUCCESS \<and> length prefix \<le> length fk \<and> take (length prefix) fk = prefix
                 then let dup_pk = drop (length prefix) fk in
                   (HA_ERR_FOUND_DUPP_KEY,
                    h2\<lparr>h_dup_key := Some i,
                       h_dup_ref := (if 0 < length dup_pk \<and> length dup_pk \<le> pk_key_len te then dup_pk else h_dup_ref h2)\<rparr>)
                 else (HA_OK, h2))))"

fun check_unique_keys ::
  "('e, 'i) cursor \<Rightarrow> table_env \<Rightarrow> nat \<Rightarrow> bytes \<Rightarrow> (nat \<times> key_def \<times> nat) list \<Rightarrow> ('e, 'i) handler \<Rightarrow> ha_err \<times> ('e, 'i) handler" where
  "check_unique_keys C te txn buf [] h = (HA_OK, h)"
| "check_unique_keys C te txn buf (x # xs) h =
     (case check_unique_key C te txn buf x h of (err, h1) \<Rightarrow>
        if err \<noteq> HA_OK then (err, h1) else check_unique_keys C te txn buf xs h1)"

text \<open>The auto-increment step of \<open>write_row\<close>, for a row in \<open>record[0]\<close>: an error, or the completed row,
  whether its key was generated, and the handler with the counter ahead of the value.\<close>

definition fill_auto_increment ::
  "table_env \<Rightarrow> bool \<Rightarrow> bytes \<Rightarrow> ('e, 'i) handler \<Rightarrow> ha_err \<times> bytes \<times> bool \<times> ('e, 'i) handler" where
  "fill_auto_increment te in_rec0 buf h =
     (case te_ai_val te of
        Some val_int \<Rightarrow>
          if \<not> in_rec0 then (HA_OK, buf, False, h)
          else let generated = (val_int buf = 0 \<and> (case pk_info te of Some ki \<Rightarrow> length (ki_parts ki) = 1 | None \<Rightarrow> False))
               in (case te_update_ai te buf (h_auto_inc h) of (err, buf1, cnt) \<Rightarrow>
                     if err \<noteq> HA_OK then (err, buf1, generated, h\<lparr>h_auto_inc := cnt\<rparr>)
                     else (HA_OK, buf1, generated, h\<lparr>h_auto_inc := raise_auto_inc (val_int buf1) cnt\<rparr>))
      | None \<Rightarrow> (HA_OK, buf, False, h))"

definition new_row_pk :: "table_env \<Rightarrow> bytes \<Rightarrow> ('e, 'i) handler \<Rightarrow> bytes \<times> ('e, 'i) handler" where
  "new_row_pk te buf h =
     (if te_pk te \<noteq> None then (row_pk te (h_current_pk h) buf, h)
      else (encode_be64 (h_next_row_id h), h\<lparr>h_next_row_id := h_next_row_id h + 1\<rparr>))"

definition serialize :: "table_env \<Rightarrow> bytes \<Rightarrow> ('e, 'i) handler \<Rightarrow> bytes \<times> ('e, 'i) handler" where
  "serialize te buf h =
     (case serialize_row (te_pack te) (te_enc te) (te_tb te) (h_enc h) (h_mk h) buf of (row, c, s) \<Rightarrow>
        (row, h\<lparr>h_enc := c, h_mk := s\<rparr>))"

text \<open>The session variables a statement reads once; \<open>delete_row\<close> alone reads the compaction threshold.\<close>

definition cache_vars :: "thd \<Rightarrow> ('e, 'i) handler \<Rightarrow> ('e, 'i) handler" where
  "cache_vars th h =
     (if h_vars_valid h then h
      else h\<lparr>h_vars_valid := True, h_vars := (th_vars th)\<lparr>sv_compact_min_rows := sv_compact_min_rows (h_vars h)\<rparr>\<rparr>)"

definition cache_delete_vars :: "thd \<Rightarrow> ('e, 'i) handler \<Rightarrow> ('e, 'i) handler" where
  "cache_delete_vars th h = (if h_vars_valid h then h else h\<lparr>h_vars_valid := True, h_vars := th_vars th\<rparr>)"

definition row_ttl :: "table_env \<Rightarrow> bytes \<Rightarrow> ('e, 'i) handler \<Rightarrow> int" where
  "row_ttl te buf h =
     (if te_has_ttl te \<or> 0 < sv_ttl (h_vars h)
      then compute_row_ttl (te_ttl_col te buf) (sv_ttl (h_vars h)) (te_default_ttl te) else TIDESDB_TTL_NONE)"

text \<open>The handler's side of \<open>maybe_bulk_commit\<close> and the count of buffered operations before it.\<close>

definition bulk_mid_commit :: "'e engine \<Rightarrow> ('e, 'i) handler \<Rightarrow> ha_err \<times> ('e, 'i) handler" where
  "bulk_mid_commit E h =
     (if \<not> h_cached_trx h \<or> live_txn (h_conn h) = None then (HA_OK, h)
      else (case maybe_bulk_commit E (h_conn h) of (err, c) \<Rightarrow>
        if err \<noteq> HA_OK then (err, h\<lparr>h_conn := c\<rparr>)
        else (HA_OK, free_iters (h\<lparr>h_conn := c, h_stmt_txn := map_option snd (live_txn c),
                                   h_scan_txn := map_option snd (live_txn c)\<rparr>))))"

definition bulk_tail :: "'e engine \<Rightarrow> bool \<Rightarrow> nat \<Rightarrow> ('e, 'i) handler \<Rightarrow> ha_err \<times> ('e, 'i) handler" where
  "bulk_tail E in_bulk ops h =
     (if \<not> in_bulk then (HA_OK, h)
      else let h1 = h\<lparr>h_bulk_ops := h_bulk_ops h + ops\<rparr> in
        if TIDESDB_BULK_INSERT_BATCH_OPS \<le> h_bulk_ops h1
        then (case bulk_mid_commit E h1 of (err, h2) \<Rightarrow>
                if err \<noteq> HA_OK then (err, h2) else (HA_OK, h2\<lparr>h_bulk_ops := 0\<rparr>))
        else (HA_OK, h1))"

text \<open>The primary key check of \<open>write_row\<close>: skipped without a user key, by the session variable, for a
  generated key, and for REPLACE on a table without secondary indexes.\<close>

definition check_pk ::
  "'e engine \<Rightarrow> table_env \<Rightarrow> nat \<Rightarrow> bool \<Rightarrow> bytes \<Rightarrow> ('e, 'i) handler \<Rightarrow> ha_err \<times> ('e, 'i) handler" where
  "check_pk E te txn generated pk h =
     (case te_pk te of
        None \<Rightarrow> (HA_OK, h)
      | Some pk_index \<Rightarrow>
          if sv_skip_unique_check (h_vars h) \<or> generated \<or> h_can_replace h \<and> num_secondary_indexes te = 0 then (HA_OK, h)
          else (case txn_get E txn (te_cf te) (build_data_key pk) (h_eng h) of (grc, _, e) \<Rightarrow>
            if grc = TDB_SUCCESS
            then (HA_ERR_FOUND_DUPP_KEY, (set_eng e h)\<lparr>h_dup_key := Some pk_index, h_dup_ref := pk\<rparr>)
            else if grc \<noteq> TDB_ERR_NOT_FOUND then (tdb_rc_to_ha grc, set_eng e h)
            else (HA_OK, set_eng e h)))"

text \<open>The part of \<open>write_row\<close> after the checks.\<close>

definition store_row ::
  "'e engine \<Rightarrow> table_env \<Rightarrow> nat \<Rightarrow> bytes \<Rightarrow> bytes \<Rightarrow> bytes \<Rightarrow> ('e, 'i) handler \<Rightarrow> ha_err \<times> ('e, 'i) handler" where
  "store_row E te txn pk row buf h =
     (let ttl = row_ttl te buf h in
      case txn_put E txn (te_cf te) (build_data_key pk) row ttl (h_eng h) of (rc, e) \<Rightarrow>
        if rc \<noteq> TDB_SUCCESS then (tdb_rc_to_ha rc, set_eng e h)
        else (case insert_indexes E te txn ttl pk buf (sec_keys te) ((set_eng e h)\<lparr>h_current_pk := pk\<rparr>) of (rc2, h2) \<Rightarrow>
          if rc2 \<noteq> TDB_SUCCESS then (tdb_rc_to_ha rc2, h2)
          else bulk_tail E (h_bulk_insert h2) (1 + num_secondary_indexes te) h2))"

definition lock_new_row :: "table_env \<Rightarrow> bytes \<Rightarrow> ('e, 'i) handler \<Rightarrow> ha_err" where
  "lock_new_row te pk h = (if te_pessimistic te \<and> te_pk te \<noteq> None \<and> h_cached_trx h then te_row_lock te pk else HA_OK)"

definition write_row ::
  "'e engine \<Rightarrow> ('e, 'i) cursor \<Rightarrow> table_env \<Rightarrow> thd \<Rightarrow> bool \<Rightarrow> bytes \<Rightarrow> ('e, 'i) handler \<Rightarrow>
   ha_err \<times> bytes \<times> ('e, 'i) handler" where
  "write_row E C te th in_rec0 buf h =
     (case fill_auto_increment te in_rec0 buf h of (ai_err, buf1, generated, h1) \<Rightarrow>
        if ai_err \<noteq> HA_OK then (ai_err, buf1, h1)
        else case new_row_pk te buf1 h1 of (pk, h2) \<Rightarrow>
          case serialize te buf1 h2 of (row, h3) \<Rightarrow>
            if encrypted (h_enc h3) \<and> row = [] then (HA_ERR_GENERIC, buf1, h3)
            else case ensure_stmt_txn E te th h3 of (erc, h4) \<Rightarrow>
              if erc \<noteq> HA_OK then (erc, buf1, h4)
              else case h_stmt_txn h4 of
                None \<Rightarrow> (tdb_rc_to_ha TDB_ERR_INVALID_ARGS, buf1, h4)
              | Some txn \<Rightarrow>
                  let h5 = mark_stmt_dirty h4; lrc = lock_new_row te pk h5 in
                  if lrc \<noteq> HA_OK then (lrc, buf1, h5)
                  else case check_pk E te txn generated pk (cache_vars th h5) of (perr, h6) \<Rightarrow>
                    if perr \<noteq> HA_OK then (perr, buf1, h6)
                    else case (if 0 < num_secondary_indexes te \<and> \<not> sv_skip_unique_check (h_vars h6)
                               then check_unique_keys C te txn buf1 (sec_keys te) h6 else (HA_OK, h6)) of (uerr, h7) \<Rightarrow>
                      if uerr \<noteq> HA_OK then (uerr, buf1, h7)
                      else case store_row E te txn pk row buf1 h7 of (err, h8) \<Rightarrow> (err, buf1, h8))"

subsection \<open>Update\<close>

text \<open>\<open>write_set\<close> is the set of column numbers the statement assigns.\<close>

definition in_write_set :: "(nat \<Rightarrow> bool) \<Rightarrow> key_info \<Rightarrow> bool" where
  "in_write_set write_set ki = list_ex (\<lambda>kp. write_set (kp_fieldnr kp - 1)) (ki_parts ki)"

definition needs_put :: "(bytes \<times> 16 word) list \<Rightarrow> bool \<Rightarrow> bytes \<times> 16 word \<Rightarrow> bool" where
  "needs_put old_tf doc_len_changed nt =
     (case map_of old_tf (fst nt) of None \<Rightarrow> True | Some c \<Rightarrow> doc_len_changed \<or> c \<noteq> snd nt)"

definition update_fts ::
  "'e engine \<Rightarrow> 'e single_delete \<Rightarrow> table_env \<Rightarrow> nat \<Rightarrow> int \<Rightarrow> bytes \<Rightarrow> bytes \<Rightarrow> bytes \<Rightarrow> bytes \<Rightarrow>
   nat \<times> key_def \<times> nat \<Rightarrow> 'e \<Rightarrow> tdb_rc \<times> 'e" where
  "update_fts E SD te txn ttl old_pk new_pk old_data new_data x e =
     (case x of (i, kd, cf) \<Rightarrow>
        let old_tokens = fts_tokens te kd old_data; new_tokens = fts_tokens te kd new_data;
            old_tf = tf_map old_tokens []; new_tf = tf_map new_tokens [];
            old_wc = word_of_nat (length old_tokens) :: u32; new_wc = word_of_nat (length new_tokens) :: u32;
            (rc, e1) = (if old_pk \<noteq> new_pk
              then put_terms E txn cf new_pk new_wc ttl new_tf (delete_terms E SD txn cf old_pk old_tf e)
              else put_terms E txn cf new_pk new_wc ttl (filter (needs_put old_tf (old_wc \<noteq> new_wc)) new_tf)
                     (delete_terms E SD txn cf old_pk (filter (\<lambda>(term, _). map_of new_tf term = None) old_tf) e));
            wc_delta = uint new_wc - uint old_wc
        in if rc \<noteq> TDB_SUCCESS then (rc, e1)
           else (TDB_SUCCESS, if wc_delta \<noteq> 0 then snd (fts_update_meta E txn (te_cf te) i 0 wc_delta e1) else e1))"

definition update_spatial ::
  "'e engine \<Rightarrow> 'e single_delete \<Rightarrow> table_env \<Rightarrow> nat \<Rightarrow> int \<Rightarrow> bytes \<Rightarrow> bytes \<Rightarrow> bytes \<Rightarrow> bytes \<Rightarrow>
   key_def \<Rightarrow> nat \<Rightarrow> 'e \<Rightarrow> tdb_rc \<times> 'e" where
  "update_spatial E SD te txn ttl old_pk new_pk old_data new_data kd cf e =
     (let e1 = (case row_mbr te kd old_data of
                  None \<Rightarrow> e
                | Some m \<Rightarrow> snd (tidesdb_txn_delete_cf E SD txn cf (spatial_entry_key te m old_pk) True e))
      in case row_mbr te kd new_data of
           None \<Rightarrow> (TDB_SUCCESS, e1)
         | Some m \<Rightarrow> txn_put E txn cf (spatial_entry_key te m new_pk) (spatial_build_value m) ttl e1)"

definition update_regular ::
  "'e engine \<Rightarrow> 'e single_delete \<Rightarrow> table_env \<Rightarrow> nat \<Rightarrow> int \<Rightarrow> bytes \<Rightarrow> bytes \<Rightarrow> bytes \<Rightarrow> bytes \<Rightarrow>
   key_def \<Rightarrow> nat \<Rightarrow> 'e \<Rightarrow> tdb_rc \<times> 'e" where
  "update_regular E SD te txn ttl old_pk new_pk old_data new_data kd cf e =
     (let old_ik = col_bytes te kd old_data @ old_pk; new_ik = index_key te kd new_pk new_data in
      if old_ik = new_ik then (TDB_SUCCESS, e)
      else (case tidesdb_txn_delete_cf E SD txn cf old_ik True e of (rc, e1) \<Rightarrow>
        if rc \<noteq> TDB_SUCCESS then (rc, e1) else txn_put E txn cf new_ik tdb_empty_val ttl e1))"

definition update_index ::
  "'e engine \<Rightarrow> 'e single_delete \<Rightarrow> table_env \<Rightarrow> (nat \<Rightarrow> bool) \<Rightarrow> nat \<Rightarrow> int \<Rightarrow> bytes \<Rightarrow> bytes \<Rightarrow> bytes \<Rightarrow> bytes \<Rightarrow>
   nat \<times> key_def \<times> nat \<Rightarrow> 'e \<Rightarrow> tdb_rc \<times> 'e" where
  "update_index E SD te write_set txn ttl old_pk new_pk old_data new_data x e =
     (case x of (i, kd, cf) \<Rightarrow>
        if kd_fts kd
        then (if in_write_set write_set (kd_info kd)
              then update_fts E SD te txn ttl old_pk new_pk old_data new_data x e else (TDB_SUCCESS, e))
        else if kd_spatial kd
        then (if write_set (kp_fieldnr (hd (kd_parts kd)) - 1)
              then update_spatial E SD te txn ttl old_pk new_pk old_data new_data kd cf e else (TDB_SUCCESS, e))
        else if old_pk = new_pk \<and> \<not> in_write_set write_set (kd_info kd) then (TDB_SUCCESS, e)
        else update_regular E SD te txn ttl old_pk new_pk old_data new_data kd cf e)"

fun update_indexes ::
  "'e engine \<Rightarrow> 'e single_delete \<Rightarrow> table_env \<Rightarrow> (nat \<Rightarrow> bool) \<Rightarrow> nat \<Rightarrow> int \<Rightarrow> bytes \<Rightarrow> bytes \<Rightarrow> bytes \<Rightarrow> bytes \<Rightarrow>
   (nat \<times> key_def \<times> nat) list \<Rightarrow> 'e \<Rightarrow> tdb_rc \<times> 'e" where
  "update_indexes E SD te write_set txn ttl old_pk new_pk old_data new_data [] e = (TDB_SUCCESS, e)"
| "update_indexes E SD te write_set txn ttl old_pk new_pk old_data new_data (x # xs) e =
     (case update_index E SD te write_set txn ttl old_pk new_pk old_data new_data x e of (rc, e1) \<Rightarrow>
        if rc \<noteq> TDB_SUCCESS then (rc, e1)
        else update_indexes E SD te write_set txn ttl old_pk new_pk old_data new_data xs e1)"

text \<open>The key of the updated row: rebuilt only when the statement assigns a column of it.\<close>

definition updated_pk :: "table_env \<Rightarrow> (nat \<Rightarrow> bool) \<Rightarrow> bytes \<Rightarrow> bytes \<Rightarrow> bytes" where
  "updated_pk te write_set old_pk new_data =
     (case pk_info te of
        Some ki \<Rightarrow> if in_write_set write_set ki then row_pk te old_pk new_data else old_pk
      | None \<Rightarrow> old_pk)"

text \<open>The data row: the old key is deleted when the key changes.\<close>

definition move_row ::
  "'e engine \<Rightarrow> 'e single_delete \<Rightarrow> table_env \<Rightarrow> nat \<Rightarrow> bool \<Rightarrow> int \<Rightarrow> bytes \<Rightarrow> bytes \<Rightarrow> bytes \<Rightarrow> 'e \<Rightarrow> tdb_rc \<times> 'e" where
  "move_row E SD te txn single ttl old_pk new_pk row e =
     (case (if old_pk \<noteq> new_pk then tidesdb_txn_delete_cf E SD txn (te_cf te) (build_data_key old_pk) single e
            else (TDB_SUCCESS, e)) of (rc, e1) \<Rightarrow>
        if rc \<noteq> TDB_SUCCESS then (rc, e1)
        else txn_put E txn (te_cf te) (build_data_key new_pk) row ttl e1)"

definition update_row ::
  "'e engine \<Rightarrow> 'e single_delete \<Rightarrow> table_env \<Rightarrow> thd \<Rightarrow> (nat \<Rightarrow> bool) \<Rightarrow> bytes \<Rightarrow> bytes \<Rightarrow> ('e, 'i) handler \<Rightarrow>
   ha_err \<times> ('e, 'i) handler" where
  "update_row E SD te th write_set old_data new_data h =
     (let old_pk = h_current_pk h; new_pk = updated_pk te write_set old_pk new_data in
      case serialize te new_data h of (row, h1) \<Rightarrow>
        if encrypted (h_enc h1) \<and> row = [] then (HA_ERR_GENERIC, h1)
        else case ensure_stmt_txn E te th h1 of (erc, h2) \<Rightarrow>
          if erc \<noteq> HA_OK then (erc, h2)
          else case h_stmt_txn h2 of
            None \<Rightarrow> (tdb_rc_to_ha TDB_ERR_INVALID_ARGS, h2)
          | Some txn \<Rightarrow>
              let h3 = cache_vars th (mark_stmt_dirty h2); ttl = row_ttl te new_data h3 in
              case move_row E SD te txn (sv_single_delete_primary (h_vars h3)) ttl old_pk new_pk row (h_eng h3) of (rc, e) \<Rightarrow>
                if rc \<noteq> TDB_SUCCESS then (tdb_rc_to_ha rc, set_eng e h3)
                else case update_indexes E SD te write_set txn ttl old_pk new_pk old_data new_data (sec_keys te) e of (rc2, e2) \<Rightarrow>
                  if rc2 \<noteq> TDB_SUCCESS then (tdb_rc_to_ha rc2, set_eng e2 h3)
                  else let h4 = (set_eng e2 h3)\<lparr>h_current_pk := new_pk\<rparr>
                       in bulk_tail E (h_bulk_update h4) (1 + 2 * num_secondary_indexes te) h4)"

subsection \<open>Delete\<close>

text \<open>The smallest and the largest data key of a multi-row DELETE, when compaction afterwards is on.\<close>

definition track_delete :: "bytes \<Rightarrow> ('e, 'i) handler \<Rightarrow> ('e, 'i) handler" where
  "track_delete dk h =
     (if \<not> h_bulk_delete h \<or> sv_compact_min_rows (h_vars h) = 0 then h
      else if h_del_rows h = 0 then h\<lparr>h_del_min := dk, h_del_max := dk, h_del_rows := 1\<rparr>
      else h\<lparr>h_del_min := (if dk < h_del_min h then dk else h_del_min h),
             h_del_max := (if h_del_max h < dk then dk else h_del_max h),
             h_del_rows := h_del_rows h + 1\<rparr>)"

definition delete_index ::
  "'e engine \<Rightarrow> 'e single_delete \<Rightarrow> table_env \<Rightarrow> nat \<Rightarrow> bytes \<Rightarrow> bytes \<Rightarrow> nat \<times> key_def \<times> nat \<Rightarrow> 'e \<Rightarrow> tdb_rc \<times> 'e" where
  "delete_index E SD te txn pk buf x e =
     (case x of (i, kd, cf) \<Rightarrow>
        if kd_fts kd
        then let toks = fts_tokens te kd buf; word_count = word_of_nat (length toks) :: u32;
                 e1 = delete_terms E SD txn cf pk (tf_map toks []) e
             in (TDB_SUCCESS, snd (fts_update_meta E txn (te_cf te) i FTS_DOC_DELTA_DEL (- uint word_count) e1))
        else if kd_spatial kd
        then (TDB_SUCCESS, case row_mbr te kd buf of
                None \<Rightarrow> e | Some m \<Rightarrow> snd (tidesdb_txn_delete_cf E SD txn cf (spatial_entry_key te m pk) True e))
        else tidesdb_txn_delete_cf E SD txn cf (index_key te kd pk buf) True e)"

fun delete_indexes ::
  "'e engine \<Rightarrow> 'e single_delete \<Rightarrow> table_env \<Rightarrow> nat \<Rightarrow> bytes \<Rightarrow> bytes \<Rightarrow> (nat \<times> key_def \<times> nat) list \<Rightarrow> 'e \<Rightarrow> tdb_rc \<times> 'e" where
  "delete_indexes E SD te txn pk buf [] e = (TDB_SUCCESS, e)"
| "delete_indexes E SD te txn pk buf (x # xs) e =
     (case delete_index E SD te txn pk buf x e of (rc, e1) \<Rightarrow>
        if rc \<noteq> TDB_SUCCESS then (rc, e1) else delete_indexes E SD te txn pk buf xs e1)"

definition delete_row ::
  "'e engine \<Rightarrow> 'e single_delete \<Rightarrow> table_env \<Rightarrow> thd \<Rightarrow> bytes \<Rightarrow> ('e, 'i) handler \<Rightarrow> ha_err \<times> ('e, 'i) handler" where
  "delete_row E SD te th buf h =
     (case ensure_stmt_txn E te th (cache_delete_vars th h) of (erc, h1) \<Rightarrow>
        if erc \<noteq> HA_OK then (erc, h1)
        else case h_stmt_txn h1 of
          None \<Rightarrow> (tdb_rc_to_ha TDB_ERR_INVALID_ARGS, h1)
        | Some txn \<Rightarrow>
            let pk = h_current_pk h1; dk = build_data_key pk; h2 = track_delete dk (mark_stmt_dirty h1) in
            case tidesdb_txn_delete_cf E SD txn (te_cf te) dk (sv_single_delete_primary (h_vars h2)) (h_eng h2) of (rc, e) \<Rightarrow>
              if rc \<noteq> TDB_SUCCESS then (tdb_rc_to_ha rc, set_eng e h2)
              else case delete_indexes E SD te txn pk buf (sec_keys te) e of (rc2, e2) \<Rightarrow>
                if rc2 \<noteq> TDB_SUCCESS then (tdb_rc_to_ha rc2, set_eng e2 h2)
                else bulk_tail E (h_bulk_delete h2) (1 + num_secondary_indexes te) (set_eng e2 h2))"

subsection \<open>Bulk statements\<close>

definition start_bulk_insert :: "('e, 'i) handler \<Rightarrow> ('e, 'i) handler" where
  "start_bulk_insert h = h\<lparr>h_bulk_insert := True, h_bulk_ops := 0, h_fts_docs := (\<lambda>_. 0), h_fts_words := (\<lambda>_. 0)\<rparr>"

text \<open>The loop of \<open>end_bulk_insert\<close> over the keys; the first error is kept, the other keys are flushed
  all the same.\<close>

fun flush_fts_meta ::
  "'e engine \<Rightarrow> table_env \<Rightarrow> nat \<Rightarrow> nat list \<Rightarrow> ha_err \<Rightarrow> ('e, 'i) handler \<Rightarrow> ha_err \<times> ('e, 'i) handler" where
  "flush_fts_meta E te txn [] sticky h = (sticky, h)"
| "flush_fts_meta E te txn (i # is) sticky h =
     (if h_fts_docs h i = 0 \<and> h_fts_words h i = 0 \<or> \<not> kd_fts (te_keys te ! i)
      then flush_fts_meta E te txn is sticky h
      else (case fts_update_meta E txn (te_cf te) i (h_fts_docs h i) (h_fts_words h i) (h_eng h) of (rc, e) \<Rightarrow>
        flush_fts_meta E te txn is (if rc \<noteq> TDB_SUCCESS \<and> sticky = HA_OK then tdb_rc_to_ha rc else sticky)
          ((set_eng e h)\<lparr>h_fts_docs := (h_fts_docs h)(i := 0), h_fts_words := (h_fts_words h)(i := 0)\<rparr>)))"

definition end_bulk_insert :: "'e engine \<Rightarrow> table_env \<Rightarrow> ('e, 'i) handler \<Rightarrow> ha_err \<times> ('e, 'i) handler" where
  "end_bulk_insert E te h =
     (let h1 = h\<lparr>h_bulk_insert := False\<rparr> in
      case h_stmt_txn h1 of
        None \<Rightarrow> (HA_OK, h1)
      | Some txn \<Rightarrow> flush_fts_meta E te txn [0..<min (length (te_keys te)) MAX_KEY] HA_OK h1)"

text \<open>\<open>start_bulk_update\<close> answers true: the server keeps to single-row updates.\<close>

definition start_bulk_update :: "('e, 'i) handler \<Rightarrow> bool \<times> ('e, 'i) handler" where
  "start_bulk_update h = (True, h\<lparr>h_bulk_update := False, h_bulk_ops := 0\<rparr>)"

definition tdb_end_bulk_update :: "('e, 'i) handler \<Rightarrow> ha_err \<times> ('e, 'i) handler" where
  "tdb_end_bulk_update h = (HA_OK, h\<lparr>h_bulk_update := False\<rparr>)"

definition start_bulk_delete :: "('e, 'i) handler \<Rightarrow> bool \<times> ('e, 'i) handler" where
  "start_bulk_delete h =
     (False, h\<lparr>h_bulk_delete := True, h_bulk_ops := 0, h_del_rows := 0, h_del_min := [], h_del_max := []\<rparr>)"

text \<open>\<open>end_bulk_delete\<close> with the range it hands to \<open>tidesdb_compact_range\<close>, whose result only reaches
  the log.\<close>

definition end_bulk_delete :: "('e, 'i) handler \<Rightarrow> (bytes \<times> bytes) option \<times> ('e, 'i) handler" where
  "end_bulk_delete h =
     ((if 0 < sv_compact_min_rows (h_vars h) \<and> sv_compact_min_rows (h_vars h) \<le> h_del_rows h \<and>
          h_del_min h \<noteq> [] \<and> h_del_max h \<noteq> []
       then Some (h_del_min h, h_del_max h) else None),
      h\<lparr>h_bulk_delete := False, h_del_rows := 0, h_del_min := [], h_del_max := []\<rparr>)"

end
