(* ===== verification/Scan.thy ===== *)
theory Scan
  imports Dml
begin

text \<open>Reading rows (\<open>ha_tidesdb.cc\<close>): table scans, positioned reads, index lookups and index scans in both
  directions, with index condition pushdown, covering reads and spatial queries. What the server
  holds for a scan (the pushed condition, the read set, \<open>key_restore\<close>) is a record of parameters. A
  call whose loop does not end is the value None.\<close>

section \<open>Definitions\<close>

subsection \<open>What the server asks for\<close>

datatype ha_rkey =
  HA_READ_KEY_EXACT | HA_READ_KEY_OR_NEXT | HA_READ_KEY_OR_PREV | HA_READ_AFTER_KEY | HA_READ_BEFORE_KEY
| HA_READ_PREFIX | HA_READ_PREFIX_LAST | HA_READ_PREFIX_LAST_OR_PREV | HA_READ_MBR mbr_mode

text \<open>\<open>se_pushed\<close> is \<open>pushed_idx_cond_keyno\<close> while a condition is pushed, \<open>se_range_pushed\<close> is
  \<open>in_range_check_pushed_down\<close>, \<open>se_range\<close> and \<open>se_cond\<close> the comparison with the end of the range and the
  condition, both on the record buffers, \<open>se_keyread\<close> is \<open>keyread_only_\<close>.\<close>

record scan_env =
  se_pushed :: "nat option"
  se_range_pushed :: bool
  se_range :: "(rec_store \<Rightarrow> int) option"
  se_cond :: "rec_store \<Rightarrow> bool"
  se_keyread :: bool
  se_read_set :: "nat list"
  se_restore :: "bytes \<Rightarrow> bytes \<Rightarrow> key_info \<Rightarrow> nat \<Rightarrow> bytes"
  se_scratch :: bytes

definition KEY_INF_HI_BYTE :: byte where "KEY_INF_HI_BYTE = 0xFF"
definition HILBERT_RANGE_FULL_LO :: u64 where "HILBERT_RANGE_FULL_LO = 0"
definition HILBERT_RANGE_FULL_HI :: u64 where "HILBERT_RANGE_FULL_HI = - 1"
definition SPATIAL_MBR_VALUE_LEN :: nat where "SPATIAL_MBR_VALUE_LEN = 32"

definition idx_comp_key_len :: "table_env \<Rightarrow> nat \<Rightarrow> nat" where
  "idx_comp_key_len te i = comparable_key_length (kd_info (te_keys te ! i))"

subsection \<open>The scan iterator\<close>

text \<open>Every move drops its result code. \<open>key_at\<close> is \<open>tidesdb_iter_valid\<close> followed by reading the entry.\<close>

definition move_iter :: "('i \<Rightarrow> tdb_rc \<times> 'i) \<Rightarrow> ('e, 'i) handler \<Rightarrow> ('e, 'i) handler" where
  "move_iter f h = (case h_scan_iter h of None \<Rightarrow> h | Some kp \<Rightarrow> set_iter (snd (f (kp_iter kp))) h)"

definition key_at :: "('e, 'i) cursor \<Rightarrow> ('e, 'i) handler \<Rightarrow> (tdb_rc \<times> bytes \<times> bytes) option" where
  "key_at C h =
     (case h_scan_iter h of
        None \<Rightarrow> None
      | Some kp \<Rightarrow> if it_valid C (kp_iter kp) then Some (it_key_value C (kp_iter kp)) else None)"

definition starts_with :: "bytes \<Rightarrow> bytes \<Rightarrow> bool" where
  "starts_with ik p \<longleftrightarrow> length p \<le> length ik \<and> take (length p) ik = p"

subsection \<open>Table scans\<close>

definition rnd_init ::
  "'e engine \<Rightarrow> ('e, 'i) cursor \<Rightarrow> table_env \<Rightarrow> thd \<Rightarrow> ('e, 'i) handler \<Rightarrow> ha_err \<times> ('e, 'i) handler" where
  "rnd_init E C te th h =
     (case ensure_stmt_txn E te th (h\<lparr>h_current_pk := [], h_scan_dir := DIR_NONE\<rparr>) of (erc, h1) \<Rightarrow>
        if erc \<noteq> HA_OK then (erc, h1)
        else let h2 = drop_stale_iter (te_cf te) (h1\<lparr>h_scan_txn := h_stmt_txn h1\<rparr>) in
          case (if h_scan_iter h2 \<noteq> None then (TDB_SUCCESS, h2)
                else case h_scan_txn h2 of
                  None \<Rightarrow> (TDB_ERR_INVALID_ARGS, h2)
                | Some txn \<Rightarrow>
                    (case it_new C txn (te_cf te) (h_eng h2) of (rc, it, e) \<Rightarrow>
                       if rc \<noteq> TDB_SUCCESS then (rc, set_eng e h2)
                       else (rc, (set_eng e h2)\<lparr>h_scan_iter := Some \<lparr>kp_iter = it, kp_cf = te_cf te, kp_txn = txn, kp_gen = cur_gen h2\<rparr>\<rparr>)))
          of (rc, h3) \<Rightarrow>
            if rc \<noteq> TDB_SUCCESS then (tdb_rc_to_ha rc, h3\<lparr>h_scan_txn := None\<rparr>)
            else (HA_OK, move_iter (it_seek C [KEY_NS_DATA]) h3))"

definition rnd_end :: "('e, 'i) handler \<Rightarrow> ('e, 'i) handler" where
  "rnd_end h = h\<lparr>h_scan_txn := None\<rparr>"

definition rnd_next ::
  "('e, 'i) cursor \<Rightarrow> table_env \<Rightarrow> thd \<Rightarrow> rec_id \<Rightarrow> ('e, 'i) handler \<Rightarrow> (ha_err \<times> ('e, 'i) handler) option" where
  "rnd_next C te th b h =
     (if th_killed th then Some (HA_ERR_ABORTED_BY_USER, h)
      else map_option (\<lambda>(err, h1). (err, if err = HA_OK then h1\<lparr>h_scan_dir := DIR_FORWARD\<rparr> else h1))
        (iter_read_current C te b (if h_scan_dir h \<noteq> DIR_NONE then move_iter (it_next C) h else h)))"

definition position :: "('e, 'i) handler \<Rightarrow> bytes" where
  "position h = h_current_pk h"

definition rnd_pos ::
  "'e engine \<Rightarrow> table_env \<Rightarrow> thd \<Rightarrow> rec_id \<Rightarrow> bytes \<Rightarrow> ('e, 'i) handler \<Rightarrow> ha_err \<times> ('e, 'i) handler" where
  "rnd_pos E te th b pos h =
     (case ensure_stmt_txn E te th h of (erc, h1) \<Rightarrow>
        if erc \<noteq> HA_OK then (erc, h1)
        else case h_stmt_txn h1 of
          None \<Rightarrow> (tdb_rc_to_ha TDB_ERR_INVALID_ARGS, h1)
        | Some txn \<Rightarrow> fetch_row_by_pk E te txn pos b h1)"

subsection \<open>Opening and closing an index scan\<close>

text \<open>A condition pushed for another index, or a range check left behind without its condition, is
  cancelled.\<close>

definition cancel_pushed_idx_cond :: "scan_env \<Rightarrow> scan_env" where
  "cancel_pushed_idx_cond sc = sc\<lparr>se_pushed := None, se_range_pushed := False\<rparr>"

definition index_init ::
  "'e engine \<Rightarrow> table_env \<Rightarrow> thd \<Rightarrow> nat \<Rightarrow> scan_env \<Rightarrow> ('e, 'i) handler \<Rightarrow> ha_err \<times> scan_env \<times> ('e, 'i) handler" where
  "index_init E te th idx sc h =
     (let h0 = h\<lparr>h_active_index := Some idx, h_pk_exact_done := False, h_scan_dir := DIR_NONE, h_spatial := None,
                h_is_pk := (te_pk te = Some idx)\<rparr>;
          sc' = (if (case se_pushed sc of Some k \<Rightarrow> k \<noteq> idx | None \<Rightarrow> se_range_pushed sc)
                 then cancel_pushed_idx_cond sc else sc)
      in case ensure_stmt_txn E te th h0 of (erc, h1) \<Rightarrow>
        if erc \<noteq> HA_OK then (erc, sc', h1)
        else let h2 = h1\<lparr>h_scan_txn := h_stmt_txn h1\<rparr> in
          case (if te_pk te = Some idx then Some (te_cf te)
                else if idx < length (te_idx_cfs te) then te_idx_cfs te ! idx else None) of
            None \<Rightarrow> (HA_ERR_GENERIC, sc', h2\<lparr>h_scan_txn := None, h_scan_cf := None\<rparr>)
          | Some cf \<Rightarrow> (HA_OK, sc', drop_stale_iter cf (h2\<lparr>h_scan_cf := Some cf\<rparr>)))"

definition index_end :: "('e, 'i) handler \<Rightarrow> ('e, 'i) handler" where
  "index_end h = h\<lparr>h_scan_txn := None, h_active_index := None, h_spatial := None\<rparr>"

subsection \<open>Entries of a secondary index\<close>

definition fetch_scan ::
  "'e engine \<Rightarrow> table_env \<Rightarrow> bytes \<Rightarrow> rec_id \<Rightarrow> ('e, 'i) handler \<Rightarrow> ha_err \<times> ('e, 'i) handler" where
  "fetch_scan E te pk b h =
     (case h_scan_txn h of
        None \<Rightarrow> (tdb_rc_to_ha TDB_ERR_INVALID_ARGS, h)
      | Some txn \<Rightarrow> fetch_row_by_pk E te txn pk b h)"

text \<open>\<open>icp_check_secondary\<close> on the handler: the columns of the index and of the primary key are decoded from
  the entry, or the row is fetched where that is not possible.\<close>

definition icp_check ::
  "'e engine \<Rightarrow> table_env \<Rightarrow> scan_env \<Rightarrow> thd \<Rightarrow> nat \<Rightarrow> rec_id \<Rightarrow> bytes \<Rightarrow> ('e, 'i) handler \<Rightarrow> check_result \<times> ('e, 'i) handler" where
  "icp_check E te sc th i b ik h =
     (if se_pushed sc \<noteq> Some i then (CHECK_POS, h)
      else
        let col_len = idx_comp_key_len te i;
            (ok1, st1) = decode_key_parts b (\<lambda>_. True) (ki_parts (kd_info (te_keys te ! i))) ik (h_recs h);
            (ok2, st2) = (case pk_info te of
               Some pk_key \<Rightarrow>
                 if ok1 then decode_key_parts b (\<lambda>_. True) (ki_parts pk_key) (drop col_len ik) st1 else (False, st1)
             | None \<Rightarrow> (ok1, st1));
            h2 = h\<lparr>h_recs := st2\<rparr>
        in if ok2 then (icp_evaluate (th_killed th) (se_range sc) (se_cond sc) st2, h2)
           else if col_len < length ik
           then (case fetch_scan E te (drop col_len ik) b h2 of (err, h3) \<Rightarrow>
                   if err \<noteq> HA_OK then (CHECK_POS, h3)
                   else (icp_evaluate (th_killed th) (se_range sc) (se_cond sc) (h_recs h3), h3))
           else (CHECK_POS, h2))"

text \<open>The row of an entry: decoded from the entry when the read set is covered, fetched otherwise.\<close>

definition read_entry ::
  "'e engine \<Rightarrow> table_env \<Rightarrow> scan_env \<Rightarrow> nat \<Rightarrow> rec_id \<Rightarrow> bytes \<Rightarrow> ('e, 'i) handler \<Rightarrow> ha_err \<times> ('e, 'i) handler" where
  "read_entry E te sc i b ik h =
     (let col_len = idx_comp_key_len te i;
          cover = idx_cover (length (tb_fields (te_tb te))) (pk_info te) (te_pk te = Some i) (kd_info (te_keys te ! i))
      in if se_keyread sc
         then (case try_keyread_from_index (pk_info te) col_len cover (se_read_set sc) (kd_info (te_keys te ! i)) b ik
                      (h_current_pk h) (h_recs h) of
                 (True, st, cur) \<Rightarrow> (HA_OK, h\<lparr>h_recs := st, h_current_pk := cur\<rparr>)
               | (False, st, _) \<Rightarrow> fetch_scan E te (drop col_len ik) b (h\<lparr>h_recs := st\<rparr>))
         else fetch_scan E te (drop col_len ik) b h)"

text \<open>The loop over the entries that four operations have: \<open>back\<close> is its direction, \<open>same\<close> the search key
  an entry must start with, \<open>miss\<close> the answer where it stops without a row, and \<open>fin\<close> what the
  operation does to the handler after it has read a row.\<close>

partial_function (option) icp_loop ::
  "'e engine \<Rightarrow> ('e, 'i) cursor \<Rightarrow> table_env \<Rightarrow> scan_env \<Rightarrow> thd \<Rightarrow> nat \<Rightarrow> rec_id \<Rightarrow> bool \<Rightarrow> bytes option \<Rightarrow> ha_err \<Rightarrow>
   (ha_err \<Rightarrow> ('e, 'i) handler \<Rightarrow> ('e, 'i) handler) \<Rightarrow> ('e, 'i) handler \<Rightarrow> (ha_err \<times> ('e, 'i) handler) option" where
  "icp_loop E C te sc th i b back same miss fin h =
     (case key_at C h of
        None \<Rightarrow> Some (miss, h)
      | Some (rc, ik, _) \<Rightarrow>
          if rc \<noteq> TDB_SUCCESS then Some (miss, h)
          else if (case same of Some p \<Rightarrow> \<not> starts_with ik p | None \<Rightarrow> False) then Some (miss, h)
          else if length ik \<le> idx_comp_key_len te i then Some (miss, h)
          else (case icp_check E te sc th i b ik h of (r, h1) \<Rightarrow>
            if r = CHECK_NEG
            then icp_loop E C te sc th i b back same miss fin (move_iter (if back then it_prev C else it_next C) h1)
            else if r = CHECK_OUT_OF_RANGE then Some (HA_ERR_END_OF_FILE, h1)
            else (case read_entry E te sc i b ik h1 of (err, h2) \<Rightarrow> Some (err, fin err h2))))"

definition set_dir :: "scan_dir \<Rightarrow> ha_err \<Rightarrow> ('e, 'i) handler \<Rightarrow> ('e, 'i) handler" where
  "set_dir d err h = (if err = HA_OK then h\<lparr>h_scan_dir := d\<rparr> else h)"

subsection \<open>Spatial scans\<close>

definition next_range :: "('e, 'i) cursor \<Rightarrow> mbr_mode \<Rightarrow> tdb_mbr \<Rightarrow> (u64 \<times> u64) list \<Rightarrow> ('e, 'i) handler \<Rightarrow> ('e, 'i) handler" where
  "next_range C mode q rs h =
     (let h1 = h\<lparr>h_spatial := Some (mode, q, rs)\<rparr> in
      case rs of [] \<Rightarrow> h1 | (lo, _) # _ \<Rightarrow> move_iter (it_seek C (encode_hilbert_be lo)) h1)"

partial_function (option) spatial_scan_next ::
  "'e engine \<Rightarrow> ('e, 'i) cursor \<Rightarrow> table_env \<Rightarrow> thd \<Rightarrow> rec_id \<Rightarrow> ('e, 'i) handler \<Rightarrow> (ha_err \<times> ('e, 'i) handler) option" where
  "spatial_scan_next E C te th b h =
     (case h_spatial h of
        None \<Rightarrow> Some (HA_ERR_END_OF_FILE, h)
      | Some (mode, q, ranges) \<Rightarrow>
          (case ranges of
             [] \<Rightarrow> Some (HA_ERR_END_OF_FILE, h)
           | (_, cur_hi) # rs \<Rightarrow>
               (case key_at C h of
                  None \<Rightarrow> spatial_scan_next E C te th b (next_range C mode q rs h)
                | Some (rc, ik, v) \<Rightarrow>
                    if th_killed th then Some (HA_ERR_ABORTED_BY_USER, h)
                    else if rc \<noteq> TDB_SUCCESS then spatial_scan_next E C te th b (next_range C mode q rs h)
                    else if length ik \<le> SPATIAL_HILBERT_KEY_LEN then spatial_scan_next E C te th b (move_iter (it_next C) h)
                    else if cur_hi < decode_hilbert_be ik then spatial_scan_next E C te th b (next_range C mode q rs h)
                    else if length v < SPATIAL_MBR_VALUE_LEN \<or> \<not> spatial_mbr_predicate mode q (spatial_load_value v)
                    then spatial_scan_next E C te th b (move_iter (it_next C) h)
                    else (case fetch_scan E te (drop SPATIAL_HILBERT_KEY_LEN ik) b h of (err, h1) \<Rightarrow>
                      if err = HA_ERR_KEY_NOT_FOUND then spatial_scan_next E C te th b (move_iter (it_next C) h1)
                      else if err \<noteq> HA_OK then Some (err, h1)
                      else Some (HA_OK, h1\<lparr>h_scan_dir := DIR_FORWARD\<rparr>)))))"

definition spatial_read ::
  "'e engine \<Rightarrow> ('e, 'i) cursor \<Rightarrow> table_env \<Rightarrow> thd \<Rightarrow> rec_id \<Rightarrow> bytes \<Rightarrow> mbr_mode \<Rightarrow> ('e, 'i) handler \<Rightarrow>
   (ha_err \<times> ('e, 'i) handler) option" where
  "spatial_read E C te th b key mode h =
     (let q = spatial_parse_query_mbr key in
      case ensure_scan_iter C (h\<lparr>h_spatial := Some (mode, q, [])\<rparr>) of (irc, h1) \<Rightarrow>
        if irc \<noteq> HA_OK then Some (irc, h1)
        else let ranges = (if mode = MBR_DISJOINT then [(HILBERT_RANGE_FULL_LO, HILBERT_RANGE_FULL_HI)]
               else spatial_decompose_ranges (double_to_lex_uint32 (mbr_xmin q)) (double_to_lex_uint32 (mbr_ymin q))
                      (double_to_lex_uint32 (mbr_xmax q)) (double_to_lex_uint32 (mbr_ymax q)))
             in spatial_scan_next E C te th b (next_range C mode q ranges h1))"

subsection \<open>Index lookups\<close>

text \<open>The primary key. A full key is a point read, under the row lock where the statement writes and locks
  are on; all other reads position the iterator on the data entries.\<close>

definition read_here ::
  "('e, 'i) cursor \<Rightarrow> table_env \<Rightarrow> rec_id \<Rightarrow> scan_dir \<Rightarrow> ('e, 'i) handler \<Rightarrow> (ha_err \<times> ('e, 'i) handler) option" where
  "read_here C te b d h = map_option (\<lambda>(err, h1). (err, set_dir d err h1)) (iter_read_current C te b h)"

definition pk_point_read ::
  "'e engine \<Rightarrow> table_env \<Rightarrow> rec_id \<Rightarrow> bytes \<Rightarrow> ('e, 'i) handler \<Rightarrow> ha_err \<times> ('e, 'i) handler" where
  "pk_point_read E te b comp_key h =
     (let lrc = (if te_pessimistic te \<and> h_write_lock h \<and> h_cached_trx h then te_row_lock te comp_key else HA_OK) in
      if lrc \<noteq> HA_OK then (lrc, h)
      else (case fetch_scan E te comp_key b h of (ret, h1) \<Rightarrow> (ret, if ret = HA_OK then h1\<lparr>h_pk_exact_done := True\<rparr> else h1)))"

definition is_reverse :: "ha_rkey \<Rightarrow> bool" where
  "is_reverse flag \<longleftrightarrow> flag \<in> {HA_READ_KEY_OR_PREV, HA_READ_BEFORE_KEY, HA_READ_PREFIX_LAST, HA_READ_PREFIX_LAST_OR_PREV}"

definition skip_exact :: "('e, 'i) cursor \<Rightarrow> bytes \<Rightarrow> ('i \<Rightarrow> tdb_rc \<times> 'i) \<Rightarrow> ('e, 'i) handler \<Rightarrow> ('e, 'i) handler" where
  "skip_exact C seek_key move h =
     (case key_at C h of
        Some (rc, ik, _) \<Rightarrow> if rc = TDB_SUCCESS \<and> ik = seek_key then move_iter move h else h
      | None \<Rightarrow> h)"

definition pk_read ::
  "'e engine \<Rightarrow> ('e, 'i) cursor \<Rightarrow> table_env \<Rightarrow> nat \<Rightarrow> rec_id \<Rightarrow> bytes \<Rightarrow> ha_rkey \<Rightarrow> ('e, 'i) handler \<Rightarrow>
   (ha_err \<times> ('e, 'i) handler) option" where
  "pk_read E C te i b comp_key flag h =
     (let seek_key = build_data_key comp_key; full = idx_comp_key_len te i in
      if flag = HA_READ_KEY_EXACT \<and> full \<le> length comp_key then Some (pk_point_read E te b comp_key h)
      else case ensure_scan_iter C h of (irc, h1) \<Rightarrow>
        if irc \<noteq> HA_OK then Some (irc, h1)
        else if \<not> is_reverse flag
        then let h2 = move_iter (it_seek C seek_key) h1 in
          read_here C te b DIR_FORWARD (if flag = HA_READ_AFTER_KEY then skip_exact C seek_key (it_next C) h2 else h2)
        else if length comp_key < full
        then let h2 = move_iter (it_seek_for_prev C (seek_key @ replicate (full - length comp_key) KEY_INF_HI_BYTE)) h1 in
          if flag = HA_READ_PREFIX_LAST \<and>
             (case key_at C h2 of Some (rc, ik, _) \<Rightarrow> rc \<noteq> TDB_SUCCESS \<or> \<not> starts_with ik seek_key | None \<Rightarrow> False)
          then Some (HA_ERR_KEY_NOT_FOUND, h2)
          else read_here C te b DIR_BACKWARD h2
        else let h2 = move_iter (it_seek_for_prev C seek_key) h1 in
          read_here C te b DIR_BACKWARD (if flag = HA_READ_BEFORE_KEY then skip_exact C seek_key (it_prev C) h2 else h2))"

text \<open>A secondary index: HA_READ_AFTER_KEY walks over the entries that start with the key.\<close>

partial_function (option) skip_prefix ::
  "('e, 'i) cursor \<Rightarrow> bytes \<Rightarrow> ('e, 'i) handler \<Rightarrow> ('e, 'i) handler option" where
  "skip_prefix C p h =
     (case key_at C h of
        None \<Rightarrow> Some h
      | Some (rc, ik, _) \<Rightarrow>
          if rc \<noteq> TDB_SUCCESS \<or> \<not> starts_with ik p then Some h else skip_prefix C p (move_iter (it_next C) h))"

definition sec_seek ::
  "('e, 'i) cursor \<Rightarrow> table_env \<Rightarrow> bytes \<Rightarrow> ha_rkey \<Rightarrow> ('e, 'i) handler \<Rightarrow> ('e, 'i) handler option" where
  "sec_seek C te comp_key flag h =
     (if is_reverse flag
      then Some (move_iter (it_seek_for_prev C (comp_key @ replicate (pk_key_len te) KEY_INF_HI_BYTE)) h)
      else let h1 = move_iter (it_seek C comp_key) h in
        if flag = HA_READ_AFTER_KEY then skip_prefix C comp_key h1 else Some h1)"

definition sec_read ::
  "'e engine \<Rightarrow> ('e, 'i) cursor \<Rightarrow> table_env \<Rightarrow> scan_env \<Rightarrow> thd \<Rightarrow> nat \<Rightarrow> rec_id \<Rightarrow> bytes \<Rightarrow> ha_rkey \<Rightarrow> ('e, 'i) handler \<Rightarrow>
   (ha_err \<times> ('e, 'i) handler) option" where
  "sec_read E C te sc th i b comp_key flag h =
     (case ensure_scan_iter C h of (irc, h1) \<Rightarrow>
        if irc \<noteq> HA_OK then Some (irc, h1)
        else Option.bind (sec_seek C te comp_key flag h1)
          (icp_loop E C te sc th i b (is_reverse flag) (if flag = HA_READ_KEY_EXACT then Some comp_key else None)
             HA_ERR_KEY_NOT_FOUND (set_dir (if is_reverse flag then DIR_BACKWARD else DIR_FORWARD))))"

definition index_read_map ::
  "'e engine \<Rightarrow> ('e, 'i) cursor \<Rightarrow> table_env \<Rightarrow> scan_env \<Rightarrow> thd \<Rightarrow> rec_id \<Rightarrow> bytes \<Rightarrow> nat \<Rightarrow> ha_rkey \<Rightarrow> ('e, 'i) handler \<Rightarrow>
   (ha_err \<times> ('e, 'i) handler) option" where
  "index_read_map E C te sc th b key key_len flag h =
     Option.bind (h_active_index h) (\<lambda>i.
       let ki = kd_info (te_keys te ! i);
           comp_key = built (key_copy_to_comparable (te_ops te) (se_restore sc) ki (se_scratch sc) key key_len (te_out te));
           h1 = h\<lparr>h_search := comp_key\<rparr>
       in if h_is_pk h1 then pk_read E C te i b comp_key flag h1
          else (case flag of
                  HA_READ_MBR mode \<Rightarrow>
                    if ki_rtree ki \<and> mode \<noteq> MBR_OTHER then spatial_read E C te th b key mode h1
                    else sec_read E C te sc th i b comp_key flag h1
                | _ \<Rightarrow> sec_read E C te sc th i b comp_key flag h1))"

definition index_read_last_map ::
  "'e engine \<Rightarrow> ('e, 'i) cursor \<Rightarrow> table_env \<Rightarrow> scan_env \<Rightarrow> thd \<Rightarrow> rec_id \<Rightarrow> bytes \<Rightarrow> nat \<Rightarrow> ('e, 'i) handler \<Rightarrow>
   (ha_err \<times> ('e, 'i) handler) option" where
  "index_read_last_map E C te sc th b key key_len h = index_read_map E C te sc th b key key_len HA_READ_PREFIX_LAST h"

subsection \<open>Moving through an index\<close>

text \<open>After a point read of the primary key, \<open>index_next\<close> and \<open>index_prev\<close> first place an iterator on the key
  that was read.\<close>

definition seek_current ::
  "('e, 'i) cursor \<Rightarrow> ('e, 'i) handler \<Rightarrow> ha_err \<times> ('e, 'i) handler" where
  "seek_current C h =
     (case ensure_scan_iter C (h\<lparr>h_pk_exact_done := False\<rparr>) of (irc, h1) \<Rightarrow>
        if irc \<noteq> HA_OK then (irc, h1)
        else (HA_OK, move_iter (it_seek C (build_data_key (h_current_pk h1))) h1))"

definition index_next ::
  "'e engine \<Rightarrow> ('e, 'i) cursor \<Rightarrow> table_env \<Rightarrow> scan_env \<Rightarrow> thd \<Rightarrow> rec_id \<Rightarrow> ('e, 'i) handler \<Rightarrow>
   (ha_err \<times> ('e, 'i) handler) option" where
  "index_next E C te sc th b h =
     Option.bind (h_active_index h) (\<lambda>i.
       if th_killed th then Some (HA_ERR_ABORTED_BY_USER, h)
       else if h_spatial h \<noteq> None
       then (case ensure_scan_iter C h of (irc, h1) \<Rightarrow>
               if irc \<noteq> HA_OK then Some (irc, h1)
               else spatial_scan_next E C te th b (if h_scan_dir h1 \<noteq> DIR_NONE then move_iter (it_next C) h1 else h1))
       else
         case (if h_pk_exact_done h
               then (case seek_current C h of (irc, h1) \<Rightarrow>
                       (irc, if irc = HA_OK \<and> key_at C h1 \<noteq> None then move_iter (it_next C) h1 else h1))
               else (case ensure_scan_iter C h of (irc, h1) \<Rightarrow>
                       (irc, if irc = HA_OK \<and> h_scan_dir h1 \<noteq> DIR_NONE then move_iter (it_next C) h1 else h1)))
         of (irc, h2) \<Rightarrow>
           if irc \<noteq> HA_OK then Some (irc, h2)
           else if h_is_pk h2
           then map_option (\<lambda>(ret, h3). (ret, h3\<lparr>h_scan_dir := DIR_FORWARD\<rparr>)) (iter_read_current C te b h2)
           else icp_loop E C te sc th i b False None HA_ERR_END_OF_FILE (\<lambda>_ h3. h3\<lparr>h_scan_dir := DIR_FORWARD\<rparr>) h2)"

text \<open>Going backwards over the data family skips the entries that are no rows.\<close>

partial_function (option) skip_meta_back ::
  "('e, 'i) cursor \<Rightarrow> ('e, 'i) handler \<Rightarrow> (bool \<times> ('e, 'i) handler) option" where
  "skip_meta_back C h =
     (case key_at C h of
        None \<Rightarrow> Some (True, h)
      | Some (rc, key, _) \<Rightarrow>
          if rc \<noteq> TDB_SUCCESS then Some (False, h)
          else if is_data_key key then Some (True, h)
          else skip_meta_back C (move_iter (it_prev C) h))"

definition read_back ::
  "('e, 'i) cursor \<Rightarrow> table_env \<Rightarrow> rec_id \<Rightarrow> ('e, 'i) handler \<Rightarrow> (ha_err \<times> ('e, 'i) handler) option" where
  "read_back C te b h =
     Option.bind (skip_meta_back C h) (\<lambda>(ok, h1).
       if \<not> ok then Some (HA_ERR_END_OF_FILE, h1) else iter_read_current C te b (h1\<lparr>h_scan_dir := DIR_BACKWARD\<rparr>))"

definition index_prev ::
  "'e engine \<Rightarrow> ('e, 'i) cursor \<Rightarrow> table_env \<Rightarrow> scan_env \<Rightarrow> thd \<Rightarrow> rec_id \<Rightarrow> ('e, 'i) handler \<Rightarrow>
   (ha_err \<times> ('e, 'i) handler) option" where
  "index_prev E C te sc th b h =
     Option.bind (h_active_index h) (\<lambda>i.
       if th_killed th then Some (HA_ERR_ABORTED_BY_USER, h)
       else
         case (if h_pk_exact_done h then seek_current C h else ensure_scan_iter C h) of (irc, h1) \<Rightarrow>
           if irc \<noteq> HA_OK then Some (irc, h1)
           else let h2 = move_iter (it_prev C) h1 in
             if h_is_pk h2 then read_back C te b h2
             else icp_loop E C te sc th i b True None HA_ERR_END_OF_FILE (\<lambda>_ h3. h3\<lparr>h_scan_dir := DIR_BACKWARD\<rparr>) h2)"

definition index_first ::
  "'e engine \<Rightarrow> ('e, 'i) cursor \<Rightarrow> table_env \<Rightarrow> scan_env \<Rightarrow> thd \<Rightarrow> rec_id \<Rightarrow> ('e, 'i) handler \<Rightarrow>
   (ha_err \<times> ('e, 'i) handler) option" where
  "index_first E C te sc th b h =
     (case ensure_scan_iter C (h\<lparr>h_pk_exact_done := False\<rparr>) of (irc, h1) \<Rightarrow>
        if irc \<noteq> HA_OK then Some (irc, h1)
        else if h_is_pk h1 then read_here C te b DIR_FORWARD (move_iter (it_seek C [KEY_NS_DATA]) h1)
        else index_next E C te sc th b ((move_iter (it_seek_to_first C) h1)\<lparr>h_scan_dir := DIR_NONE\<rparr>))"

definition index_last ::
  "'e engine \<Rightarrow> ('e, 'i) cursor \<Rightarrow> table_env \<Rightarrow> rec_id \<Rightarrow> ('e, 'i) handler \<Rightarrow> (ha_err \<times> ('e, 'i) handler) option" where
  "index_last E C te b h =
     Option.bind (h_active_index h) (\<lambda>i.
       case ensure_scan_iter C (h\<lparr>h_pk_exact_done := False\<rparr>) of (irc, h1) \<Rightarrow>
         if irc \<noteq> HA_OK then Some (irc, h1)
         else let h2 = move_iter (it_seek_to_last C) h1 in
           if h_is_pk h2 then read_back C te b h2
           else (case key_at C h2 of
                   None \<Rightarrow> Some (HA_ERR_END_OF_FILE, h2)
                 | Some (rc, ik, _) \<Rightarrow>
                     if rc \<noteq> TDB_SUCCESS \<or> length ik \<le> idx_comp_key_len te i then Some (HA_ERR_END_OF_FILE, h2)
                     else Some (fetch_scan E te (drop (idx_comp_key_len te i) ik) b (h2\<lparr>h_scan_dir := DIR_BACKWARD\<rparr>))))"

definition index_next_same ::
  "'e engine \<Rightarrow> ('e, 'i) cursor \<Rightarrow> table_env \<Rightarrow> scan_env \<Rightarrow> thd \<Rightarrow> rec_id \<Rightarrow> ('e, 'i) handler \<Rightarrow>
   (ha_err \<times> ('e, 'i) handler) option" where
  "index_next_same E C te sc th b h =
     Option.bind (h_active_index h) (\<lambda>i.
       if th_killed th then Some (HA_ERR_ABORTED_BY_USER, h)
       else if h_spatial h \<noteq> None
       then (if h_scan_iter h = None then Some (HA_ERR_END_OF_FILE, h) else spatial_scan_next E C te th b (move_iter (it_next C) h))
       else if h_is_pk h
       then (if idx_comp_key_len te i \<le> length (h_search h) \<or> h_scan_iter h = None then Some (HA_ERR_END_OF_FILE, h)
             else let h1 = move_iter (it_next C) h in
               (case key_at C h1 of
                  None \<Rightarrow> Some (HA_ERR_END_OF_FILE, h1)
                | Some (rc, ik, _) \<Rightarrow>
                    if rc \<noteq> TDB_SUCCESS \<or> length ik < 1 + length (h_search h) \<or>
                       take (length (h_search h)) (drop 1 ik) \<noteq> h_search h
                    then Some (HA_ERR_END_OF_FILE, h1)
                    else read_here C te b DIR_FORWARD h1))
       else if h_scan_iter h = None then Some (HA_ERR_END_OF_FILE, h)
       else icp_loop E C te sc th i b False (Some (h_search h)) HA_ERR_END_OF_FILE (\<lambda>_ h3. h3) (move_iter (it_next C) h))"

end
