(* ===== verification/Dml_Index.thy ===== *)
theory Dml_Index
  imports Dml
begin

text \<open>What one row operation does to one index. The store is in step with a plain map of rows when
  every index holds exactly the entries its rows demand; the lemmas show that inserting, updating and
  deleting the entries of a row replaces the old entries by the new ones and touches nothing else. The
  contract of the engine's single deletion, at most one put of a key since it was last deleted, is part
  of the relation, because the handler removes index entries with it.\<close>

section \<open>Laws of the engine\<close>

text \<open>\<open>once e t k\<close> says that key \<open>k\<close> was put at most once since it was last deleted, as transaction
  \<open>t\<close> sees it: single deletion removes such a key. No call changes this for other keys than its own,
  and a put of an absent key establishes it.\<close>

definition single_delete_laws ::
  "'e engine \<Rightarrow> 'e observer \<Rightarrow> ('e, 'i) cursor \<Rightarrow> 'e single_delete \<Rightarrow> ('e \<Rightarrow> nat \<Rightarrow> kv_key \<Rightarrow> bool) \<Rightarrow> bool" where
  "single_delete_laws E B C SD once \<longleftrightarrow>
     (\<forall>t cf k e rc e'. SD t cf k e = (rc, e') \<longrightarrow>
        (\<forall>x. x \<noteq> (cf, k) \<longrightarrow> ob_view B e' t x = ob_view B e t x \<and> once e' t x = once e t x) \<and>
        (rc = TDB_SUCCESS \<and> once e t (cf, k) \<longrightarrow> ob_view B e' t (cf, k) = None)) \<and>
     (\<forall>t cf k v ttl e rc e'. txn_put E t cf k v ttl e = (rc, e') \<longrightarrow>
        (\<forall>x. x \<noteq> (cf, k) \<longrightarrow> once e' t x = once e t x) \<and>
        (rc = TDB_SUCCESS \<and> ob_view B e t (cf, k) = None \<longrightarrow> once e' t (cf, k))) \<and>
     (\<forall>t cf k e rc e'. txn_delete E t cf k e = (rc, e') \<longrightarrow> (\<forall>x. x \<noteq> (cf, k) \<longrightarrow> once e' t x = once e t x)) \<and>
     (\<forall>t cf k e rc v e'. txn_get E t cf k e = (rc, v, e') \<longrightarrow> once e' t = once e t) \<and>
     (\<forall>t cf e rc it e'. it_new C t cf e = (rc, it, e') \<longrightarrow> once e' t = once e t)"

lemma law_once:
  assumes "single_delete_laws E B C SD once"
  shows "SD t cf k e = (rc, e') \<Longrightarrow> x \<noteq> (cf, k) \<Longrightarrow> ob_view B e' t x = ob_view B e t x"
    "SD t cf k e = (rc, e') \<Longrightarrow> x \<noteq> (cf, k) \<Longrightarrow> once e' t x = once e t x"
    "SD t cf k e = (rc, e') \<Longrightarrow> rc = TDB_SUCCESS \<Longrightarrow> once e t (cf, k) \<Longrightarrow> ob_view B e' t (cf, k) = None"
    "txn_put E t cf k v ttl e = (rc, e') \<Longrightarrow> x \<noteq> (cf, k) \<Longrightarrow> once e' t x = once e t x"
    "txn_put E t cf k v ttl e = (rc, e') \<Longrightarrow> rc = TDB_SUCCESS \<Longrightarrow> ob_view B e t (cf, k) = None \<Longrightarrow> once e' t (cf, k)"
    "txn_delete E t cf k e = (rc, e') \<Longrightarrow> x \<noteq> (cf, k) \<Longrightarrow> once e' t x = once e t x"
    "txn_get E t cf k e = (rc, v, e') \<Longrightarrow> once e' t = once e t"
    "it_new C t cf e = (rc, it, e') \<Longrightarrow> once e' t = once e t"
  using assms unfolding single_delete_laws_def by (elim conjE, (cases x)?, simp)+

text \<open>What the proofs look at: the value of a key and the single-delete condition, together.\<close>

type_synonym cells = "kv_key \<Rightarrow> bytes option \<times> bool"

definition cell :: "'e observer \<Rightarrow> ('e \<Rightarrow> nat \<Rightarrow> kv_key \<Rightarrow> bool) \<Rightarrow> nat \<Rightarrow> 'e \<Rightarrow> cells" where
  "cell B once t e = (\<lambda>x. (ob_view B e t x, once e t x))"

lemma cell_put:
  assumes "engine_laws E B" "single_delete_laws E B C SD once" "txn_put E t cf k v ttl e = (TDB_SUCCESS, e')"
  shows "x \<noteq> (cf, k) \<Longrightarrow> cell B once t e' x = cell B once t e x" "fst (cell B once t e' (cf, k)) = Some v"
    "fst (cell B once t e (cf, k)) = None \<Longrightarrow> snd (cell B once t e' (cf, k))"
  using law_put(5) [OF assms(1,3)] law_once(4,5) [OF assms(2,3)] by (simp_all add: cell_def)

lemma cell_single_delete:
  assumes "single_delete_laws E B C SD once" "SD t cf k e = (rc, e')"
  shows "x \<noteq> (cf, k) \<Longrightarrow> cell B once t e' x = cell B once t e x"
    "rc = TDB_SUCCESS \<Longrightarrow> snd (cell B once t e (cf, k)) \<Longrightarrow> fst (cell B once t e' (cf, k)) = None"
  using law_once(1-3) [OF assms] by (simp_all add: cell_def)

lemma cell_delete:
  assumes "engine_laws E B" "single_delete_laws E B C SD once" "txn_delete E t cf k e = (rc, e')"
  shows "x \<noteq> (cf, k) \<Longrightarrow> cell B once t e' x = cell B once t e x"
    "rc = TDB_SUCCESS \<Longrightarrow> fst (cell B once t e' (cf, k)) = None"
  using law_delete(5,7) [OF assms(1,3)] law_once(6) [OF assms(2,3)]
  by (cases "rc = TDB_SUCCESS"; simp add: cell_def)+

lemma cell_get:
  assumes "engine_laws E B" "single_delete_laws E B C SD once" "txn_get E t cf k e = (rc, v, e')"
  shows "cell B once t e' = cell B once t e"
  using law_get(4) [OF assms(1,3)] law_once(7) [OF assms(2,3)] by (simp add: cell_def)

lemma cell_it_new:
  assumes "cursor_laws E B C V" "single_delete_laws E B C SD once" "it_new C t cf e = (rc, it, e')"
  shows "cell B once t e' = cell B once t e"
  using law_it_new(5) [OF assms(1,3)] law_once(8) [OF assms(2,3)] by (simp add: cell_def)

section \<open>The entries rows demand\<close>

definition index_entries :: "table_env \<Rightarrow> key_def \<Rightarrow> bytes \<Rightarrow> bytes \<Rightarrow> entry list" where
  "index_entries te kd pk row =
     (if kd_fts kd
      then let toks = fts_tokens te kd row in
        map (\<lambda>(w, tf). (fts_build_key w pk, fts_build_value tf (word_of_nat (length toks)))) (tf_map toks [])
      else if kd_spatial kd
      then (case row_mbr te kd row of None \<Rightarrow> [] | Some m \<Rightarrow> [(spatial_entry_key te m pk, spatial_build_value m)])
      else [(col_bytes te kd row @ pk, tdb_empty_val)])"

text \<open>Tables and rows the statements are about: the column families are different ones, key columns are
  not VARBINARY (their keys are not a function of the value), a row is stored under its own key, and
  the terms of a text fit a key.\<close>

definition wf_table :: "table_env \<Rightarrow> bool" where
  "wf_table te \<longleftrightarrow> distinct (te_cf te # map (\<lambda>(i, kd, cf). cf) (sec_keys te)) \<and>
     (\<forall>(i, kd, cf)\<in>set (sec_keys te). \<not> kd_fts kd \<longrightarrow> (\<forall>kp\<in>set (kd_parts kd). \<not> is_varbinary (kp_field kp))) \<and>
     (\<forall>(i, kd, cf)\<in>set (sec_keys te). kd_spatial kd \<longrightarrow> length (kd_parts kd) = 1) \<and>
     (\<forall>ki. pk_info te = Some ki \<longrightarrow> (\<forall>kp\<in>set (ki_parts ki). \<not> is_varbinary (kp_field kp)))"

definition row_ok :: "table_env \<Rightarrow> bytes \<Rightarrow> bytes \<Rightarrow> bool" where
  "row_ok te pk row \<longleftrightarrow> row_pk te pk row = pk \<and>
     (\<forall>(i, kd, cf)\<in>set (sec_keys te). kd_fts kd \<longrightarrow> (\<forall>w\<in>set (fts_tokens te kd row). length w \<le> FTS_MAX_TERM_BYTES))"

lemma tf_map_keys: "fst ` set (tf_map ws m) = fst ` set m \<union> set ws"
  by (induction ws m rule: tf_map.induct) (auto split: option.splits simp: map_of_eq_None_iff dom_update)

lemma tf_map_distinct: "distinct (map fst m) \<Longrightarrow> distinct (map fst (tf_map ws m))"
  by (induction ws m rule: tf_map.induct)
    (auto split: option.splits simp: map_of_eq_None_iff distinct_update)

lemma comparable_total:
  assumes "\<forall>kp\<in>set kps. \<not> is_varbinary (kp_field kp)"
  shows "\<exists>k. comparable_parts ops out rec kps = Some k"
  using assms
proof (induction kps arbitrary: out)
  case (Cons kp kps)
  then have "\<exists>b. comparable_part ops out rec kp = Some b" by (auto simp: comparable_part_def Let_def)
  then obtain b where b: "comparable_part ops out rec kp = Some b" ..
  have "\<forall>kp\<in>set kps. \<not> is_varbinary (kp_field kp)" using Cons.prems by simp
  from Cons.IH [OF this, of "shift_out (length b) out"] b show ?case by auto
qed simp

lemma col_bytes_length:
  assumes "\<forall>kp\<in>set (kd_parts kd). \<not> is_varbinary (kp_field kp)"
  shows "length (col_bytes te kd row) = length (col_bytes te kd row')"
proof -
  have "length (col_bytes te kd r) = (\<Sum>kp\<leftarrow>kd_parts kd. (if fd_nullable (kp_field kp) then 1 else 0) + kp_length kp)" for r
    using comparable_total [OF assms, of "te_ops te" "te_out te" r] comparable_parts_length
    by (fastforce simp: col_bytes_def make_comparable_key_def built_def)
  then show ?thesis by simp
qed

lemma comparable_parts_out:
  assumes "\<forall>kp\<in>set kps. \<not> is_varbinary (kp_field kp)"
  shows "comparable_parts ops out rec kps = comparable_parts ops out' rec kps"
  using assms
proof (induction kps arbitrary: out out')
  case (Cons kp kps)
  have "comparable_part ops out rec kp = comparable_part ops out' rec kp"
    using Cons.prems by (auto simp: comparable_part_def Let_def)
  moreover have "comparable_parts ops o1 rec kps = comparable_parts ops o2 rec kps" for o1 o2
    using Cons by simp
  ultimately show ?case by (simp split: option.split) metis
qed simp

lemma index_key_split:
  assumes "wf_table te" "(i, kd, cf) \<in> set (sec_keys te)" "\<not> kd_fts kd"
  shows "index_key te kd pk row = col_bytes te kd row @ row_pk te pk row"
proof -
  have "\<forall>kp\<in>set (kd_parts kd). \<not> is_varbinary (kp_field kp)" using assms by (auto simp: wf_table_def)
  then obtain k where k: "make_comparable_key (te_ops te) (kd_info kd) row (length (kd_parts kd)) (te_out te) = Some k"
    using comparable_total by (fastforce simp: make_comparable_key_def)
  have "\<exists>p. pk_from_record (te_ops te) (pk_info te) pk row out = Some p \<and>
      pk_from_record (te_ops te) (pk_info te) pk row (te_out te) = Some p" for out
  proof (cases "pk_info te")
    case (Some ki)
    then have "\<forall>kp\<in>set (ki_parts ki). \<not> is_varbinary (kp_field kp)" using assms(1) by (auto simp: wf_table_def)
    then show ?thesis using Some comparable_total comparable_parts_out [of "ki_parts ki" "te_ops te" out row "te_out te"]
      by (fastforce simp: pk_from_record_def make_comparable_key_def)
  qed (simp add: pk_from_record_def)
  then show ?thesis using k by (auto simp: index_key_def sec_idx_key_def col_bytes_def row_pk_def built_def split: option.splits)
qed

text \<open>Entries of different rows of an index have different keys, and so have the entries of one row.\<close>

lemma index_entries_apart:
  assumes "wf_table te" "x \<in> set (sec_keys te)" "x = (i, kd, cf)" "row_ok te pk row" "row_ok te pk' row'"
    "k \<in> fst ` set (index_entries te kd pk row)" "k \<in> fst ` set (index_entries te kd pk' row')"
  shows "pk = pk'"
proof (cases "kd_fts kd")
  case True
  have len: "length w \<le> FTS_MAX_TERM_BYTES" if "w \<in> fst ` set (tf_map (fts_tokens te kd r) [])" "row_ok te p r" for w p r
    using that True assms(2,3) by (auto simp: tf_map_keys row_ok_def)
  obtain w where w: "w \<in> fst ` set (tf_map (fts_tokens te kd row) [])" "k = fts_build_key w pk"
    using assms(6) True by (force simp: index_entries_def Let_def)
  obtain w' where w': "w' \<in> fst ` set (tf_map (fts_tokens te kd row') [])" "k = fts_build_key w' pk'"
    using assms(7) True by (force simp: index_entries_def Let_def)
  show ?thesis using fts_build_key_inject [OF len [OF w(1) assms(4)] len [OF w'(1) assms(5)]] w(2) w'(2) by simp
next
  case fts: False
  show ?thesis
  proof (cases "kd_spatial kd")
    case True
    then show ?thesis using assms(6,7) fts
      by (auto simp: index_entries_def spatial_entry_key_def spatial_build_key_def split: option.splits)
  next
    case False
    have "\<forall>kp\<in>set (kd_parts kd). \<not> is_varbinary (kp_field kp)" using assms(1-3) fts by (auto simp: wf_table_def)
    from col_bytes_length [OF this, of te row row'] show ?thesis using assms(6,7) fts False by (simp add: index_entries_def)
  qed
qed

lemma index_entries_distinct:
  assumes "wf_table te" "(i, kd, cf) \<in> set (sec_keys te)" "row_ok te pk row"
  shows "distinct (map fst (index_entries te kd pk row))"
proof (cases "kd_fts kd")
  case True
  have "inj_on (\<lambda>w. fts_build_key w pk) (fst ` set (tf_map (fts_tokens te kd row) []))"
  proof (rule inj_onI)
    fix v w
    assume "v \<in> fst ` set (tf_map (fts_tokens te kd row) [])" "w \<in> fst ` set (tf_map (fts_tokens te kd row) [])"
      and eq: "fts_build_key v pk = fts_build_key w pk"
    then have "length v \<le> FTS_MAX_TERM_BYTES" "length w \<le> FTS_MAX_TERM_BYTES"
      using True assms(2,3) by (auto simp: tf_map_keys row_ok_def)
    with eq show "v = w" using fts_build_key_inject by blast
  qed
  then have "distinct (map (\<lambda>w. fts_build_key w pk) (map fst (tf_map (fts_tokens te kd row) [])))"
    using tf_map_distinct [of "[]" "fts_tokens te kd row"] by (subst distinct_map) simp
  moreover have "map fst (index_entries te kd pk row) =
      map (\<lambda>w. fts_build_key w pk) (map fst (tf_map (fts_tokens te kd row) []))"
    using True by (simp add: index_entries_def Let_def case_prod_beta)
  ultimately show ?thesis by (simp only:)
qed (simp add: index_entries_def split: option.split)

section \<open>The relation\<close>

definition index_sim :: "table_env \<Rightarrow> (bytes \<Rightarrow> bytes option) \<Rightarrow> cells \<Rightarrow> nat \<times> key_def \<times> nat \<Rightarrow> bool" where
  "index_sim te rows c x \<longleftrightarrow> (case x of (i, kd, cf) \<Rightarrow>
     \<forall>k. (\<forall>v. fst (c (cf, k)) = Some v \<longleftrightarrow> (\<exists>pk row. rows pk = Some row \<and> (k, v) \<in> set (index_entries te kd pk row))) \<and>
         (fst (c (cf, k)) \<noteq> None \<longrightarrow> snd (c (cf, k))))"

text \<open>A stored value is an encoding of the row, encrypted or not as the table is.\<close>

definition row_stored :: "table_env \<Rightarrow> bool \<Rightarrow> bytes \<Rightarrow> bytes \<Rightarrow> bool" where
  "row_stored te enc row v \<longleftrightarrow>
     (\<exists>ec s. encrypted ec = enc \<and> v = fst (serialize_row (te_pack te) (te_enc te) (te_tb te) ec s row))"

definition data_sim :: "table_env \<Rightarrow> bool \<Rightarrow> (bytes \<Rightarrow> bytes option) \<Rightarrow> cells \<Rightarrow> bool" where
  "data_sim te enc rows c \<longleftrightarrow>
     (\<forall>pk. case rows pk of
        None \<Rightarrow> fst (c (te_cf te, build_data_key pk)) = None
      | Some row \<Rightarrow> row_ok te pk row \<and> (\<exists>v. fst (c (te_cf te, build_data_key pk)) = Some v \<and> row_stored te enc row v))"

definition table_sim :: "table_env \<Rightarrow> bool \<Rightarrow> (bytes \<Rightarrow> bytes option) \<Rightarrow> cells \<Rightarrow> bool" where
  "table_sim te enc rows c \<longleftrightarrow> data_sim te enc rows c \<and> (\<forall>x\<in>set (sec_keys te). index_sim te rows c x)"

text \<open>What the maintenance of an index does to the cells of its family, and what it leaves alone.\<close>

definition replaced :: "nat \<Rightarrow> entry list \<Rightarrow> entry list \<Rightarrow> cells \<Rightarrow> cells \<Rightarrow> bool" where
  "replaced cf old new c c' \<longleftrightarrow>
     (\<forall>k. fst (c' (cf, k)) = (case map_of new k of Some v \<Rightarrow> Some v | None \<Rightarrow> if k \<in> fst ` set old then None else fst (c (cf, k))) \<and>
          (fst (c' (cf, k)) \<noteq> None \<longrightarrow> snd (c' (cf, k))))"

definition kept :: "table_env \<Rightarrow> nat set \<Rightarrow> cells \<Rightarrow> cells \<Rightarrow> bool" where
  "kept te cfs c c' \<longleftrightarrow> (\<forall>cf k. cf \<notin> cfs \<and> (cf = te_cf te \<longrightarrow> is_data_key k) \<longrightarrow> c' (cf, k) = c (cf, k))"

lemma kept_trans: "kept te X c c' \<Longrightarrow> kept te Y c' c'' \<Longrightarrow> kept te (X \<union> Y) c c''"
  by (simp add: kept_def)

lemma kept_mono: "kept te X c c' \<Longrightarrow> X \<subseteq> Y \<Longrightarrow> kept te Y c c'"
  by (auto simp: kept_def)

lemma kept_same [simp]: "kept te X c c"
  by (simp add: kept_def)

lemma data_key_neq [simp]: "is_data_key (build_data_key pk)" "build_data_key pk = build_data_key pk' \<longleftrightarrow> pk = pk'"
  by (simp_all add: build_data_key_def is_data_key_def)

text \<open>One row leaves or changes its key, one may come: the rows after an operation.\<close>

definition rows_after :: "bytes \<Rightarrow> (bytes \<times> bytes) option \<Rightarrow> (bytes \<Rightarrow> bytes option) \<Rightarrow> bytes \<Rightarrow> bytes option" where
  "rows_after old_pk new rows =
     (case new of None \<Rightarrow> rows(old_pk := None) | Some (pk, row) \<Rightarrow> (rows(old_pk := None))(pk \<mapsto> row))"

definition old_entries :: "table_env \<Rightarrow> key_def \<Rightarrow> bytes \<Rightarrow> (bytes \<Rightarrow> bytes option) \<Rightarrow> entry list" where
  "old_entries te kd pk rows = (case rows pk of None \<Rightarrow> [] | Some row \<Rightarrow> index_entries te kd pk row)"

definition new_entries :: "table_env \<Rightarrow> key_def \<Rightarrow> (bytes \<times> bytes) option \<Rightarrow> entry list" where
  "new_entries te kd new = (case new of None \<Rightarrow> [] | Some (pk, row) \<Rightarrow> index_entries te kd pk row)"

lemma index_sim_entry:
  assumes "wf_table te" "(i, kd, cf) \<in> set (sec_keys te)" "index_sim te rows c (i, kd, cf)"
    "\<And>pk row. rows pk = Some row \<Longrightarrow> row_ok te pk row" "rows pk = Some row" "k \<in> fst ` set (index_entries te kd pk row)"
  shows "fst (c (cf, k)) = map_of (index_entries te kd pk row) k"
proof -
  obtain v where v: "(k, v) \<in> set (index_entries te kd pk row)" using assms(6) by force
  have "map_of (index_entries te kd pk row) k = Some v"
    using v index_entries_distinct [OF assms(1,2) assms(4) [OF assms(5)]] by (simp add: map_of_is_SomeI)
  moreover have "fst (c (cf, k)) = Some v" using assms(3,5) v by (auto simp: index_sim_def)
  ultimately show ?thesis by simp
qed

text \<open>An index stays in step with the rows when the entries of the row that leaves are replaced by
  those of the row that comes.\<close>

lemma index_sim_step:
  assumes wf: "wf_table te" and x: "(i, kd, cf) \<in> set (sec_keys te)" and sim: "index_sim te rows c (i, kd, cf)"
    and ok: "\<And>pk row. rows pk = Some row \<Longrightarrow> row_ok te pk row"
    and new: "\<And>pk row. new = Some (pk, row) \<Longrightarrow> row_ok te pk row \<and> (pk \<noteq> old_pk \<longrightarrow> rows pk = None)"
    and rep: "replaced cf (old_entries te kd old_pk rows) (new_entries te kd new) c c'"
  shows "index_sim te (rows_after old_pk new rows) c' (i, kd, cf)"
proof -
  let ?rows = "rows_after old_pk new rows"
  have ok': "row_ok te pk row" if "?rows pk = Some row" for pk row
    using that ok new by (fastforce simp: rows_after_def split: option.splits if_splits prod.splits)
  have "fst (c' (cf, k)) = Some v \<longleftrightarrow> (\<exists>pk row. ?rows pk = Some row \<and> (k, v) \<in> set (index_entries te kd pk row))" for k v
  proof (cases "map_of (new_entries te kd new) k")
    case (Some w)
    then obtain pk row where n: "new = Some (pk, row)" "(k, w) \<in> set (index_entries te kd pk row)"
      by (auto simp: new_entries_def dest: map_of_SomeD split: option.splits)
    then have r: "?rows pk = Some row" by (simp add: rows_after_def)
    have "v = w" if "?rows p = Some r" "(k, v) \<in> set (index_entries te kd p r)" for p r
    proof -
      have "p = pk" using index_entries_apart [OF wf x refl ok' [OF that(1)] ok' [OF r], of k] that(2) n(2) by force
      then show ?thesis using that n r index_entries_distinct [OF wf x ok' [OF r]] by (auto simp: eq_key_imp_eq_value)
    qed
    then show ?thesis using rep Some n r by (auto simp: replaced_def)
  next
    case None
    then have out: "k \<notin> fst ` set (new_entries te kd new)" by (simp add: map_of_eq_None_iff)
    have nn: "new = Some (p, r) \<Longrightarrow> (k, v) \<notin> set (index_entries te kd p r)" for p r
      using out by (force simp: new_entries_def)
    show ?thesis
    proof (cases "k \<in> fst ` set (old_entries te kd old_pk rows)")
      case True
      then obtain row where old: "rows old_pk = Some row" "k \<in> fst ` set (index_entries te kd old_pk row)"
        by (cases "rows old_pk") (simp_all only: old_entries_def option.case set_empty list.set(1) image_empty empty_iff)
      have "p = old_pk" if "rows p = Some r" "(k, v) \<in> set (index_entries te kd p r)" for p r
        using index_entries_apart [OF wf x refl ok [OF that(1)] ok [OF old(1)], of k] that(2) old(2) by force
      then have "\<not> (?rows p = Some r \<and> (k, v) \<in> set (index_entries te kd p r))" for p r
        using nn by (auto simp: rows_after_def split: option.splits if_splits)
      then show ?thesis using rep None True by (auto simp: replaced_def)
    next
      case False
      have "(rows p = Some r \<and> (k, v) \<in> set (index_entries te kd p r)) \<longleftrightarrow>
          (?rows p = Some r \<and> (k, v) \<in> set (index_entries te kd p r))" for p r
        using False nn new by (force simp: rows_after_def old_entries_def split: option.splits if_splits prod.splits)
      then show ?thesis using sim rep None False by (auto simp: replaced_def index_sim_def)
    qed
  qed
  then show ?thesis using rep by (auto simp: index_sim_def replaced_def)
qed

section \<open>Single calls and loops\<close>

definition tidy :: "nat \<Rightarrow> cells \<Rightarrow> bool" where
  "tidy cf c \<longleftrightarrow> (\<forall>k. fst (c (cf, k)) \<noteq> None \<longrightarrow> snd (c (cf, k)))"

lemma replacedI:
  assumes "\<And>k v. map_of new k = Some v \<Longrightarrow> fst (c' (cf, k)) = Some v \<and> snd (c' (cf, k))"
    "\<And>k. map_of new k = None \<Longrightarrow> k \<in> fst ` set old \<Longrightarrow> fst (c' (cf, k)) = None"
    "\<And>k. map_of new k = None \<Longrightarrow> k \<notin> fst ` set old \<Longrightarrow> c' (cf, k) = c (cf, k)" "tidy cf c"
  shows "replaced cf old new c c'"
  unfolding replaced_def
proof (intro allI)
  fix k
  show "fst (c' (cf, k)) = (case map_of new k of Some v \<Rightarrow> Some v | None \<Rightarrow> if k \<in> fst ` set old then None else fst (c (cf, k))) \<and>
      (fst (c' (cf, k)) \<noteq> None \<longrightarrow> snd (c' (cf, k)))"
    using assms(1-3) [of k] assms(4) [unfolded tidy_def, rule_format, of k]
    by (cases "map_of new k"; cases "k \<in> fst ` set old") simp_all
qed

lemma cell_put_other:
  assumes "engine_laws E B" "single_delete_laws E B C SD once" "txn_put E t cf k v ttl e = (rc, e')" "x \<noteq> (cf, k)"
  shows "cell B once t e' x = cell B once t e x"
  using law_put(5,7) [OF assms(1,3)] law_once(4) [OF assms(2,3,4)] assms(4)
  by (cases "rc = TDB_SUCCESS") (simp_all add: cell_def)

lemma cell_update_meta:
  assumes "engine_laws E B" "single_delete_laws E B C SD once" "x \<noteq> (cf, fts_meta_key i)"
  shows "cell B once t (snd (fts_update_meta E t cf i d w e)) x = cell B once t e x"
proof -
  obtain rc v e1 where g: "txn_get E t cf (fts_meta_key i) e = (rc, v, e1)" by (rule prod_cases3)
  obtain a b where l: "fts_load_meta E t cf i e = (a, b, e1)"
    using g by (cases "rc = TDB_SUCCESS \<and> FTS_META_VALUE_LEN \<le> length v") (simp_all add: fts_load_meta_def)
  obtain rc' e2 where u: "fts_update_meta E t cf i d w e = (rc', e2)" by (rule prod.exhaust)
  then have "\<exists>val. txn_put E t cf (fts_meta_key i) val (- 1) e1 = (rc', e2)"
    by (auto simp: fts_update_meta_def l Let_def)
  then have "cell B once t e2 x = cell B once t e1 x" using cell_put_other [OF assms(1,2) _ assms(3)] by blast
  then show ?thesis using cell_get [OF assms(1,2) g] u by simp
qed

lemma meta_not_data [simp]: "\<not> is_data_key (fts_meta_key i)"
  by (simp add: is_data_key_def fts_meta_key_def KEY_NS_DATA_def)

lemma kept_meta:
  assumes "engine_laws E B" "single_delete_laws E B C SD once"
  shows "kept te {} (cell B once t e) (cell B once t (snd (fts_update_meta E t (te_cf te) i d w e)))"
  unfolding kept_def
proof (intro allI impI)
  fix cf k
  assume "cf \<notin> {} \<and> (cf = te_cf te \<longrightarrow> is_data_key k)"
  then have "(cf, k) \<noteq> (te_cf te, fts_meta_key i)" by auto
  then show "cell B once t (snd (fts_update_meta E t (te_cf te) i d w e)) (cf, k) = cell B once t e (cf, k)"
    by (rule cell_update_meta [OF assms])
qed

definition term_entries :: "bytes \<Rightarrow> u32 \<Rightarrow> (bytes \<times> 16 word) list \<Rightarrow> entry list" where
  "term_entries pk wc ts = map (\<lambda>(w, tf). (fts_build_key w pk, fts_build_value tf wc)) ts"

lemma put_terms_cells:
  assumes "engine_laws E B" "single_delete_laws E B C SD once" "\<And>e x. once e t x"
    "put_terms E t cf pk wc ttl ts e = (TDB_SUCCESS, e')" "distinct (map fst (term_entries pk wc ts))"
  shows "cell B once t e' (c, k) =
    (case (if c = cf then map_of (term_entries pk wc ts) k else None) of Some v \<Rightarrow> (Some v, True) | None \<Rightarrow> cell B once t e (c, k))"
  using assms(4,5)
proof (induction ts arbitrary: e)
  case Nil
  then show ?case by (simp add: term_entries_def)
next
  case (Cons wt ts)
  obtain w tf where wt: "wt = (w, tf)" by (rule prod.exhaust)
  obtain rc e1 where p: "txn_put E t cf (fts_build_key w pk) (fts_build_value tf wc) ttl e = (rc, e1)" by (rule prod.exhaust)
  have rc: "rc = TDB_SUCCESS" "put_terms E t cf pk wc ttl ts e1 = (TDB_SUCCESS, e')"
    using Cons.prems(1) p by (auto simp: wt split: if_splits)
  note q = cell_put [OF assms(1,2) p [unfolded rc(1)]]
  have d: "fts_build_key w pk \<notin> fst ` set (term_entries pk wc ts)" "distinct (map fst (term_entries pk wc ts))"
    using Cons.prems(2) by (simp_all add: term_entries_def wt flip: image_image)
  have hd: "cell B once t e1 (cf, fts_build_key w pk) = (Some (fts_build_value tf wc), True)"
    using q(2) assms(3) by (simp add: cell_def)
  show ?case
  proof (cases "(c, k) = (cf, fts_build_key w pk)")
    case True
    moreover have "map_of (term_entries pk wc ts) k = None" using True d(1) by (simp add: map_of_eq_None_iff)
    ultimately show ?thesis using Cons.IH [OF rc(2) d(2)] hd by (simp add: term_entries_def wt)
  next
    case False
    then show ?thesis using Cons.IH [OF rc(2) d(2)] q(1) [OF False] by (auto simp: term_entries_def wt split: option.split)
  qed
qed

lemma delete_terms_cells:
  assumes "single_delete_laws E B C SD once" "\<And>e x. once e t x" "\<And>cf k e. fst (SD t cf k e) = TDB_SUCCESS"
  shows "cell B once t (delete_terms E SD t cf pk ts e) (c, k) =
    (if c = cf \<and> k \<in> (\<lambda>(w, _). fts_build_key w pk) ` set ts then (None, True) else cell B once t e (c, k))"
proof (induction ts arbitrary: e)
  case (Cons wt ts)
  obtain w tf where wt: "wt = (w, tf)" by (rule prod.exhaust)
  obtain rc e1 where p: "SD t cf (fts_build_key w pk) e = (rc, e1)" by (rule prod.exhaust)
  have rc: "rc = TDB_SUCCESS" using assms(3) [of cf "fts_build_key w pk" e] p by simp
  note q = cell_single_delete [OF assms(1) p]
  have hd: "cell B once t e1 (cf, fts_build_key w pk) = (None, True)" using q(2) rc assms(2) by (simp add: cell_def)
  have "delete_terms E SD t cf pk (wt # ts) e = delete_terms E SD t cf pk ts e1"
    using p by (simp add: wt tidesdb_txn_delete_cf_def)
  then show ?case using Cons.IH [of e1] hd q(1) [of "(c, k)"] by (auto simp: wt)
qed simp

text \<open>Running the maintenance of one index after another.\<close>

lemma run_indexes:
  assumes nil: "\<And>s. run [] s = (TDB_SUCCESS, s)"
    and cons: "\<And>x xs s. run (x # xs) s = (case f x s of (rc, s1) \<Rightarrow> if rc \<noteq> TDB_SUCCESS then (rc, s1) else run xs s1)"
    and step: "\<And>i kd cf s s'. (i, kd, cf) \<in> set ys \<Longrightarrow> P s \<Longrightarrow> f (i, kd, cf) s = (TDB_SUCCESS, s') \<Longrightarrow>
      (\<forall>k. ab s (cf, k) = c0 (cf, k)) \<Longrightarrow> replaced cf (old kd) (new kd) c0 (ab s') \<and> kept te {cf} (ab s) (ab s') \<and> P s'"
    and run: "run xs s = (TDB_SUCCESS, s')" and sub: "set xs \<subseteq> set ys"
    and dist: "distinct (te_cf te # map (\<lambda>(i, kd, cf). cf) xs)"
    and start: "\<forall>(i, kd, cf)\<in>set xs. \<forall>k. ab s (cf, k) = c0 (cf, k)" and P: "P s"
  shows "(\<forall>(i, kd, cf)\<in>set xs. replaced cf (old kd) (new kd) c0 (ab s')) \<and>
    kept te ((\<lambda>(i, kd, cf). cf) ` set xs) (ab s) (ab s') \<and> P s'"
  using run sub dist start P
proof (induction xs arbitrary: s)
  case Nil
  then show ?case using nil by simp
next
  case (Cons x xs)
  obtain i kd cf where x: "x = (i, kd, cf)" by (rule prod_cases3)
  obtain rc s1 where f: "f x s = (rc, s1)" by (rule prod.exhaust)
  have r: "rc = TDB_SUCCESS" "run xs s1 = (TDB_SUCCESS, s')" using Cons.prems(1) f by (auto simp: cons split: if_splits)
  have st: "replaced cf (old kd) (new kd) c0 (ab s1)" "kept te {cf} (ab s) (ab s1)" "P s1"
    using step [of i kd cf s s1] Cons.prems(2,4,5) f r(1) by (auto simp: x)
  have cfs: "cf \<noteq> te_cf te" "cf \<notin> (\<lambda>(i, kd, cf). cf) ` set xs" "distinct (te_cf te # map (\<lambda>(i, kd, cf). cf) xs)"
    using Cons.prems(3) by (auto simp: x)
  have "cf' \<noteq> cf \<and> cf' \<noteq> te_cf te" if "(i', kd', cf') \<in> set xs" for i' kd' cf'
    using that cfs(2,3) by force
  then have "\<forall>(i, kd, cf)\<in>set xs. \<forall>k. ab s1 (cf, k) = c0 (cf, k)"
    using Cons.prems(4) st(2) by (fastforce simp: kept_def x)
  from Cons.IH [OF r(2) _ cfs(3) this st(3)] Cons.prems(2)
  have ih: "\<forall>(i, kd, cf)\<in>set xs. replaced cf (old kd) (new kd) c0 (ab s')"
    "kept te ((\<lambda>(i, kd, cf). cf) ` set xs) (ab s1) (ab s')" "P s'" by auto
  have "ab s' (cf, k) = ab s1 (cf, k)" for k using ih(2) cfs(1,2) by (simp add: kept_def)
  then have "replaced cf (old kd) (new kd) c0 (ab s')" using st(1) by (simp add: replaced_def)
  moreover have "kept te ((\<lambda>(i, kd, cf). cf) ` set (x # xs)) (ab s) (ab s')"
    using kept_trans [OF st(2) ih(2)] by (rule kept_mono) (auto simp: x)
  ultimately show ?case using ih(1,3) by (simp add: x)
qed

section \<open>Maintenance of one index\<close>

text \<open>The results of deletions in full-text and spatial indexes are not looked at, and full-text
  entries are put again without being deleted: for such tables single deletions are taken to succeed,
  and, with a full-text index, to work for every key.\<close>

definition unchecked_deletes_work ::
  "table_env \<Rightarrow> 'e single_delete \<Rightarrow> ('e \<Rightarrow> nat \<Rightarrow> kv_key \<Rightarrow> bool) \<Rightarrow> nat \<Rightarrow> bool" where
  "unchecked_deletes_work te SD once t \<longleftrightarrow>
     (\<forall>(i, kd, cf)\<in>set (sec_keys te).
        (kd_fts kd \<or> kd_spatial kd \<longrightarrow> (\<forall>cf k e. fst (SD t cf k e) = TDB_SUCCESS)) \<and>
        (kd_fts kd \<longrightarrow> (\<forall>e x. once e t x)))"

lemma unchecked_worksD:
  assumes "unchecked_deletes_work te SD once t" "(i, kd, cf) \<in> set (sec_keys te)"
  shows "kd_fts kd \<Longrightarrow> once e t x" "kd_fts kd \<or> kd_spatial kd \<Longrightarrow> fst (SD t c k e) = TDB_SUCCESS"
  using bspec [OF assms(1) [unfolded unchecked_deletes_work_def] assms(2)] by (cases x; auto)+

lemma fts_entries: "kd_fts kd \<Longrightarrow> index_entries te kd pk row =
    term_entries pk (word_of_nat (length (fts_tokens te kd row))) (tf_map (fts_tokens te kd row) [])"
  by (simp add: index_entries_def term_entries_def Let_def)

lemma cell_replaced_put:
  assumes "engine_laws E B" "single_delete_laws E B C SD once" "txn_put E t cf k v ttl e = (TDB_SUCCESS, e')"
    "tidy cf (cell B once t e)" "fst (cell B once t e (cf, k)) = None"
  shows "replaced cf [] [(k, v)] (cell B once t e) (cell B once t e')" "kept te {cf} (cell B once t e) (cell B once t e')"
  using cell_put [OF assms(1-3)] assms(4,5) by (auto intro!: replacedI simp: kept_def split: if_splits)

lemma replaced_meta:
  assumes "replaced cf old new c c'" "kept te {cf} c c'" "kept te {} c' c''" "cf \<noteq> te_cf te"
  shows "replaced cf old new c c''" "kept te {cf} c c''"
  using assms by (simp_all add: replaced_def kept_def)

lemma put_terms_replaced:
  assumes laws: "engine_laws E B" "single_delete_laws E B C SD once" and once: "\<And>e x. once e t x"
    and wf: "wf_table te" "(i, kd, cf) \<in> set (sec_keys te)" "row_ok te pk row" "kd_fts kd"
    and put: "put_terms E t cf pk (word_of_nat (length (fts_tokens te kd row))) ttl (tf_map (fts_tokens te kd row) []) e = (TDB_SUCCESS, e')"
  shows "replaced cf [] (index_entries te kd pk row) (cell B once t e) (cell B once t e')"
    "kept te {cf} (cell B once t e) (cell B once t e')"
proof -
  note q = put_terms_cells [OF laws once put, folded fts_entries [OF wf(4)], OF index_entries_distinct [OF wf(1-3)]]
  show "replaced cf [] (index_entries te kd pk row) (cell B once t e) (cell B once t e')"
    by (rule replacedI) (simp_all add: q tidy_def, simp add: cell_def once)
  show "kept te {cf} (cell B once t e) (cell B once t e')" by (simp add: kept_def q)
qed

lemma sec_key_cf: "wf_table te \<Longrightarrow> (i, kd, cf) \<in> set (sec_keys te) \<Longrightarrow> cf \<noteq> te_cf te"
  by (force simp: wf_table_def)

lemma insert_index_cells:
  assumes laws: "engine_laws E B" "single_delete_laws E B C SD once" and work: "unchecked_deletes_work te SD once t"
    and wf: "wf_table te" and x: "(i, kd, cf) \<in> set (sec_keys te)" and ok: "row_ok te pk row" and cur: "h_current_pk h = pk"
    and ins: "insert_index E te t ttl pk row (i, kd, cf) h = (TDB_SUCCESS, h')"
    and tidy: "tidy cf (cell B once t (h_eng h))"
    and fresh: "\<And>k. k \<in> fst ` set (index_entries te kd pk row) \<Longrightarrow> fst (cell B once t (h_eng h) (cf, k)) = None"
  shows "replaced cf [] (index_entries te kd pk row) (cell B once t (h_eng h)) (cell B once t (h_eng h')) \<and>
    kept te {cf} (cell B once t (h_eng h)) (cell B once t (h_eng h')) \<and> h_current_pk h' = pk"
proof (cases "kd_fts kd")
  case True
  let ?toks = "fts_tokens te kd row"
  obtain rc e where p: "put_terms E t cf pk (word_of_nat (length ?toks)) ttl (tf_map ?toks []) (h_eng h) = (rc, e)"
    by (rule prod.exhaust)
  have rc: "rc = TDB_SUCCESS" using ins p True by (auto simp: insert_index_def Let_def split: if_splits)
  note q = put_terms_replaced [OF laws unchecked_worksD(1) [OF work x True] wf x ok True p [unfolded rc]]
  have "kept te {} (cell B once t e) (cell B once t (h_eng h')) \<and> h_current_pk h' = pk"
    using ins p rc True cur kept_meta [OF laws, of te t e i]
    by (auto simp: insert_index_def Let_def set_eng_def split: if_splits)
  then show ?thesis using replaced_meta [OF q _ sec_key_cf [OF wf x]] by blast
next
  case fts: False
  show ?thesis
  proof (cases "kd_spatial kd")
    case True
    show ?thesis
    proof (cases "row_mbr te kd row")
      case None
      then have "h' = h" "index_entries te kd pk row = []" using ins fts True
        by (simp_all add: insert_index_def index_entries_def)
      then show ?thesis using tidy cur by (auto intro!: replacedI)
    next
      case (Some m)
      then obtain e where p: "txn_put E t cf (spatial_entry_key te m pk) (spatial_build_value m) ttl (h_eng h) = (TDB_SUCCESS, e)"
        "h' = set_eng e h" using ins fts True by (auto simp: insert_index_def split: prod.splits)
      have es: "index_entries te kd pk row = [(spatial_entry_key te m pk, spatial_build_value m)]"
        using fts True Some by (simp add: index_entries_def)
      then show ?thesis using cell_replaced_put [OF laws p(1) tidy fresh] p(2) cur by (simp add: set_eng_def)
    qed
  next
    case False
    have key: "index_key te kd pk row = col_bytes te kd row @ pk"
      using index_key_split [OF wf x fts] ok by (simp add: row_ok_def)
    obtain e where p: "txn_put E t cf (index_key te kd pk row) tdb_empty_val ttl (h_eng h) = (TDB_SUCCESS, e)"
      "h' = set_eng e h" using ins fts False cur by (auto simp: insert_index_def split: prod.splits)
    have es: "index_entries te kd pk row = [(index_key te kd pk row, tdb_empty_val)]"
      using fts False by (simp add: index_entries_def key)
    then show ?thesis using cell_replaced_put [OF laws p(1) tidy fresh] p(2) cur by (simp add: set_eng_def)
  qed
qed

lemma sd_replaced:
  assumes "single_delete_laws E B C SD once" "SD t cf k e = (TDB_SUCCESS, e')" "tidy cf (cell B once t e)"
    "fst (cell B once t e (cf, k)) \<noteq> None"
  shows "replaced cf [(k, v)] [] (cell B once t e) (cell B once t e')" "kept te {cf} (cell B once t e) (cell B once t e')"
proof -
  have "snd (cell B once t e (cf, k))" using assms(3,4) by (simp add: tidy_def)
  then show "replaced cf [(k, v)] [] (cell B once t e) (cell B once t e')" "kept te {cf} (cell B once t e) (cell B once t e')"
    using cell_single_delete [OF assms(1,2)] assms(3) by (auto intro!: replacedI simp: kept_def)
qed

lemma term_keys: "(\<lambda>(w, _). fts_build_key w pk) ` set ts = fst ` set (term_entries pk wc ts)"
  by (force simp: term_entries_def)

lemma delete_terms_replaced:
  assumes "single_delete_laws E B C SD once" "\<And>e x. once e t x" "\<And>cf k e. fst (SD t cf k e) = TDB_SUCCESS"
    "kd_fts kd" "tidy cf (cell B once t e)"
  shows "replaced cf (index_entries te kd pk row) [] (cell B once t e)
      (cell B once t (delete_terms E SD t cf pk (tf_map (fts_tokens te kd row) []) e))"
    "kept te' {cf} (cell B once t e) (cell B once t (delete_terms E SD t cf pk (tf_map (fts_tokens te kd row) []) e))"
proof -
  have keys: "(\<lambda>(w, _). fts_build_key w pk) ` set (tf_map (fts_tokens te kd row) []) = fst ` set (index_entries te kd pk row)"
    unfolding fts_entries [OF assms(4)] by (rule term_keys)
  note q = delete_terms_cells [OF assms(1-3), where cf = cf and pk = pk and ts = "tf_map (fts_tokens te kd row) []" and e = e, unfolded keys]
  show "replaced cf (index_entries te kd pk row) [] (cell B once t e)
      (cell B once t (delete_terms E SD t cf pk (tf_map (fts_tokens te kd row) []) e))"
    using assms(5) by (intro replacedI) (auto simp: q)
  show "kept te' {cf} (cell B once t e) (cell B once t (delete_terms E SD t cf pk (tf_map (fts_tokens te kd row) []) e))"
    by (simp add: kept_def q)
qed

lemma delete_index_cells:
  assumes laws: "engine_laws E B" "single_delete_laws E B C SD once" and work: "unchecked_deletes_work te SD once t"
    and wf: "wf_table te" and x: "(i, kd, cf) \<in> set (sec_keys te)" and ok: "row_ok te pk row"
    and del: "delete_index E SD te t pk row (i, kd, cf) e = (TDB_SUCCESS, e')"
    and tidy: "tidy cf (cell B once t e)"
    and there: "\<And>k. k \<in> fst ` set (index_entries te kd pk row) \<Longrightarrow> fst (cell B once t e (cf, k)) \<noteq> None"
  shows "replaced cf (index_entries te kd pk row) [] (cell B once t e) (cell B once t e') \<and>
    kept te {cf} (cell B once t e) (cell B once t e')"
proof (cases "kd_fts kd")
  case True
  let ?e1 = "delete_terms E SD t cf pk (tf_map (fts_tokens te kd row) []) e"
  have "replaced cf (index_entries te kd pk row) [] (cell B once t e) (cell B once t ?e1)"
    "kept te {cf} (cell B once t e) (cell B once t ?e1)"
    using delete_terms_replaced [OF laws(2) unchecked_worksD(1) [OF work x True] unchecked_worksD(2) [OF work x disjI1 [OF True]] True tidy] by blast+
  moreover have "kept te {} (cell B once t ?e1) (cell B once t e')"
    using del True kept_meta [OF laws] by (auto simp: delete_index_def Let_def)
  ultimately show ?thesis using replaced_meta sec_key_cf [OF wf x] by blast
next
  case fts: False
  show ?thesis
  proof (cases "kd_spatial kd")
    case True
    show ?thesis
    proof (cases "row_mbr te kd row")
      case None
      then show ?thesis using del fts True tidy by (auto simp: delete_index_def index_entries_def intro!: replacedI)
    next
      case (Some m)
      let ?k = "spatial_entry_key te m pk"
      obtain rc where p: "SD t cf ?k e = (rc, e')"
        using del fts True Some by (cases "SD t cf ?k e") (simp add: delete_index_def tidesdb_txn_delete_cf_def)
      then have "rc = TDB_SUCCESS" using unchecked_worksD(2) [OF work x disjI2 [OF True], of cf ?k e] by simp
      moreover have "index_entries te kd pk row = [(?k, spatial_build_value m)]"
        using fts True Some by (simp add: index_entries_def)
      ultimately show ?thesis using sd_replaced [OF laws(2) _ tidy] p there by simp
    qed
  next
    case False
    have key: "index_key te kd pk row = col_bytes te kd row @ pk"
      using index_key_split [OF wf x fts] ok by (simp add: row_ok_def)
    have "SD t cf (index_key te kd pk row) e = (TDB_SUCCESS, e')"
      using del fts False by (simp add: delete_index_def tidesdb_txn_delete_cf_def)
    moreover have "index_entries te kd pk row = [(index_key te kd pk row, tdb_empty_val)]"
      using fts False by (simp add: index_entries_def key)
    ultimately show ?thesis using sd_replaced [OF laws(2) _ tidy] there by simp
  qed
qed

text \<open>The full-text difference of an update that keeps the key.\<close>

lemma replaced_compose:
  assumes "replaced cf old [] c c1" "replaced cf [] new c1 c'"
  shows "replaced cf old new c c'"
  using assms by (simp add: replaced_def split: option.split)

lemma replaced_same:
  assumes "tidy cf c" "\<And>k. k \<in> fst ` set es \<Longrightarrow> fst (c (cf, k)) = map_of es k"
  shows "replaced cf es es c c"
proof (rule replacedI)
  fix k v
  assume m: "map_of es k = Some v"
  then have "k \<in> fst ` set es" by (force dest: map_of_SomeD)
  then show "fst (c (cf, k)) = Some v \<and> snd (c (cf, k))" using assms m by (auto simp: tidy_def)
qed (use assms in \<open>auto simp: map_of_eq_None_iff\<close>)

lemma map_of_filter_distinct:
  "distinct (map fst xs) \<Longrightarrow>
   map_of (filter P xs) w = (case map_of xs w of None \<Rightarrow> None | Some v \<Rightarrow> if P (w, v) then Some v else None)"
proof (induction xs)
  case (Cons x xs)
  have "fst x \<notin> fst ` set xs \<Longrightarrow> map_of (filter P xs) (fst x) = None" by (auto simp: map_of_eq_None_iff)
  then show ?case using Cons by (cases x) (auto split: option.split)
qed simp

lemma term_lookup:
  assumes "\<forall>v\<in>fst ` set ts. length v \<le> FTS_MAX_TERM_BYTES" "length w \<le> FTS_MAX_TERM_BYTES"
  shows "map_of (term_entries pk wc ts) (fts_build_key w pk) = map_option (\<lambda>tf. fts_build_value tf wc) (map_of ts w)"
  using assms(1)
proof (induction ts)
  case (Cons x ts)
  then show ?case using fts_build_key_inject [of "fst x" w pk pk] assms(2) by (cases x) (auto simp: term_entries_def)
qed (simp add: term_entries_def)

lemma term_lookup_none:
  "(\<And>w. w \<in> fst ` set ts \<Longrightarrow> k \<noteq> fts_build_key w pk) \<Longrightarrow> map_of (term_entries pk wc ts) k = None"
  by (force simp: map_of_eq_None_iff term_entries_def)

lemma term_key_in:
  assumes "\<forall>v\<in>fst ` set ts. length v \<le> FTS_MAX_TERM_BYTES" "length w \<le> FTS_MAX_TERM_BYTES"
  shows "fts_build_key w pk \<in> (\<lambda>(w, _). fts_build_key w pk) ` set ts \<longleftrightarrow> w \<in> fst ` set ts"
proof
  assume "fts_build_key w pk \<in> (\<lambda>(w, _). fts_build_key w pk) ` set ts"
  then obtain v where v: "v \<in> fst ` set ts" "fts_build_key w pk = fts_build_key v pk" by force
  then show "w \<in> fst ` set ts" using fts_build_key_inject [OF assms(2) bspec [OF assms(1) v(1)] v(2)] by simp
qed force

lemma fts_diff_cell:
  assumes laws: "engine_laws E B" "single_delete_laws E B C SD once" and once: "\<And>e x. once e t x"
    and sd: "\<And>c k e. fst (SD t c k e) = TDB_SUCCESS"
    and len: "\<forall>v\<in>fst ` set otf \<union> fst ` set ntf. length v \<le> FTS_MAX_TERM_BYTES"
    and dist: "distinct (map fst otf)" "distinct (map fst ntf)"
    and put: "put_terms E t cf pk nwc ttl (filter (needs_put otf b) ntf)
        (delete_terms E SD t cf pk (filter (\<lambda>(term, _). map_of ntf term = None) otf) e) = (TDB_SUCCESS, e')"
  shows "length w \<le> FTS_MAX_TERM_BYTES \<Longrightarrow> cell B once t e' (cf, fts_build_key w pk) =
      (case map_of ntf w of
         Some tf \<Rightarrow> if needs_put otf b (w, tf) then (Some (fts_build_value tf nwc), True) else cell B once t e (cf, fts_build_key w pk)
       | None \<Rightarrow> if w \<in> fst ` set otf then (None, True) else cell B once t e (cf, fts_build_key w pk))"
    "(\<forall>w\<in>fst ` set otf \<union> fst ` set ntf. k \<noteq> fts_build_key w pk) \<or> c \<noteq> cf \<Longrightarrow>
       cell B once t e' (c, k) = cell B once t e (c, k)"
proof -
  let ?puts = "filter (needs_put otf b) ntf" and ?dels = "filter (\<lambda>(term, _). map_of ntf term = None) otf"
  have lp: "\<forall>v\<in>fst ` set ?puts. length v \<le> FTS_MAX_TERM_BYTES"
    and ld: "\<forall>v\<in>fst ` set ?dels. length v \<le> FTS_MAX_TERM_BYTES" using len by auto
  have "inj_on (\<lambda>w. fts_build_key w pk) (fst ` set ?puts)"
    using fts_build_key_inject lp by (intro inj_onI) blast
  moreover have "map fst (term_entries pk nwc ?puts) = map (\<lambda>w. fts_build_key w pk) (map fst ?puts)"
    by (simp add: term_entries_def case_prod_beta)
  moreover have "distinct (map fst ?puts)" using dist(2) by (rule distinct_map_filter)
  ultimately have pd: "distinct (map fst (term_entries pk nwc ?puts))"
    by (simp only: distinct_map [of "\<lambda>w. fts_build_key w pk"] set_map)
  note p = put_terms_cells [OF laws once put pd] and q = delete_terms_cells [OF laws(2) once sd]
  show "length w \<le> FTS_MAX_TERM_BYTES \<Longrightarrow> cell B once t e' (cf, fts_build_key w pk) =
      (case map_of ntf w of
         Some tf \<Rightarrow> if needs_put otf b (w, tf) then (Some (fts_build_value tf nwc), True) else cell B once t e (cf, fts_build_key w pk)
       | None \<Rightarrow> if w \<in> fst ` set otf then (None, True) else cell B once t e (cf, fts_build_key w pk))"
  proof -
    assume w: "length w \<le> FTS_MAX_TERM_BYTES"
    have "w \<in> fst ` set ?dels \<longleftrightarrow> w \<in> fst ` set otf \<and> map_of ntf w = None" by force
    then show ?thesis unfolding p q term_lookup [OF lp w] term_key_in [OF ld w] map_of_filter_distinct [OF dist(2)]
      by (simp split: option.split)
  qed
  assume k: "(\<forall>w\<in>fst ` set otf \<union> fst ` set ntf. k \<noteq> fts_build_key w pk) \<or> c \<noteq> cf"
  then have "c \<noteq> cf \<or> map_of (term_entries pk nwc ?puts) k = None \<and> k \<notin> (\<lambda>(w, _). fts_build_key w pk) ` set ?dels"
  proof (rule disjE)
    assume n: "\<forall>w\<in>fst ` set otf \<union> fst ` set ntf. k \<noteq> fts_build_key w pk"
    have "map_of (term_entries pk nwc ?puts) k = None" by (rule term_lookup_none) (use n in auto)
    moreover have "k \<notin> (\<lambda>(w, _). fts_build_key w pk) ` set ?dels" using n by force
    ultimately show ?thesis by blast
  qed simp
  then show "cell B once t e' (c, k) = cell B once t e (c, k)" unfolding p q by auto
qed

lemma fts_diff_replaced:
  assumes laws: "engine_laws E B" "single_delete_laws E B C SD once" and once: "\<And>e x. once e t x"
    and sd: "\<And>c k e. fst (SD t c k e) = TDB_SUCCESS"
    and wf: "wf_table te" "(i, kd, cf) \<in> set (sec_keys te)" "kd_fts kd" and ok: "row_ok te pk old" "row_ok te pk new"
    and otf: "otf = tf_map (fts_tokens te kd old) []" "owc = word_of_nat (length (fts_tokens te kd old))"
    and ntf: "ntf = tf_map (fts_tokens te kd new) []" "nwc = word_of_nat (length (fts_tokens te kd new))"
    and put: "put_terms E t cf pk nwc ttl (filter (needs_put otf (owc \<noteq> nwc)) ntf)
        (delete_terms E SD t cf pk (filter (\<lambda>(term, _). map_of ntf term = None) otf) e) = (TDB_SUCCESS, e')"
    and there: "\<And>k. k \<in> fst ` set (index_entries te kd pk old) \<Longrightarrow> fst (cell B once t e (cf, k)) = map_of (index_entries te kd pk old) k"
  shows "replaced cf (index_entries te kd pk old) (index_entries te kd pk new) (cell B once t e) (cell B once t e')"
    "kept te {cf} (cell B once t e) (cell B once t e')"
proof -
  have oe: "index_entries te kd pk old = term_entries pk owc otf" and ne: "index_entries te kd pk new = term_entries pk nwc ntf"
    using fts_entries [OF wf(3)] by (simp_all add: otf ntf)
  have len: "\<forall>v\<in>fst ` set otf \<union> fst ` set ntf. length v \<le> FTS_MAX_TERM_BYTES"
    using ok wf(2,3) by (auto simp: otf ntf tf_map_keys row_ok_def)
  have dist: "distinct (map fst otf)" "distinct (map fst ntf)" by (simp_all add: otf ntf tf_map_distinct)
  note at = fts_diff_cell [OF laws once sd len dist put]
  show "kept te {cf} (cell B once t e) (cell B once t e')" using at(2) by (simp add: kept_def)
  have keys: "fst ` set (term_entries pk owc otf) = (\<lambda>(w, _). fts_build_key w pk) ` set otf" by (rule term_keys [symmetric])
  have lk: "length w \<le> FTS_MAX_TERM_BYTES \<Longrightarrow> map_of (term_entries pk nwc ntf) (fts_build_key w pk) = map_option (\<lambda>tf. fts_build_value tf nwc) (map_of ntf w)"
    "length w \<le> FTS_MAX_TERM_BYTES \<Longrightarrow> map_of (term_entries pk owc otf) (fts_build_key w pk) = map_option (\<lambda>tf. fts_build_value tf owc) (map_of otf w)" for w
    using len by (auto intro!: term_lookup)
  have same: "fst (cell B once t e (cf, fts_build_key w pk)) = Some (fts_build_value tf nwc)"
    if "length w \<le> FTS_MAX_TERM_BYTES" "map_of ntf w = Some tf" "\<not> needs_put otf (owc \<noteq> nwc) (w, tf)" for w tf
  proof -
    have o: "map_of otf w = Some tf" "owc = nwc" using that(3) by (auto simp: needs_put_def split: option.splits)
    then have "fts_build_key w pk \<in> fst ` set (index_entries te kd pk old)" unfolding oe keys by (force dest: map_of_SomeD)
    from there [OF this] show ?thesis using lk(2) [OF that(1)] o by (simp add: oe)
  qed
  show "replaced cf (index_entries te kd pk old) (index_entries te kd pk new) (cell B once t e) (cell B once t e')"
    unfolding oe ne
  proof (rule replacedI)
    fix k v
    assume m: "map_of (term_entries pk nwc ntf) k = Some v"
    have "snd (cell B once t e' (cf, k))" using once by (simp add: cell_def)
    moreover obtain w tf where w: "(w, tf) \<in> set ntf" "k = fts_build_key w pk"
      using map_of_SomeD [OF m] by (auto simp: term_entries_def)
    have l: "length w \<le> FTS_MAX_TERM_BYTES" using len w by force
    ultimately show "fst (cell B once t e' (cf, k)) = Some v \<and> snd (cell B once t e' (cf, k))"
      using m lk(1) [OF l] at(1) [OF l] same [OF l] by (auto simp: w(2))
  next
    fix k
    assume n: "map_of (term_entries pk nwc ntf) k = None"
    show "fst (cell B once t e' (cf, k)) = None" if "k \<in> fst ` set (term_entries pk owc otf)"
    proof -
      from that [unfolded keys] obtain x where x: "x \<in> set otf" "k = fts_build_key (fst x) pk"
        by (rule imageE) (simp add: case_prod_beta)
      then have l: "length (fst x) \<le> FTS_MAX_TERM_BYTES" using len by simp
      have "map_of ntf (fst x) = None" using n lk(1) [OF l] by (simp add: x(2))
      moreover have "fst x \<in> fst ` set otf" using x(1) by (rule imageI)
      ultimately show ?thesis using at(1) [OF l] by (simp add: x(2))
    qed
    show "cell B once t e' (cf, k) = cell B once t e (cf, k)" if o: "k \<notin> fst ` set (term_entries pk owc otf)"
    proof -
      have "k \<noteq> fts_build_key w pk" if "w \<in> fst ` set otf \<union> fst ` set ntf" for w
      proof
        assume k: "k = fts_build_key w pk"
        have "map_of ntf w = None" using n lk(1) [OF bspec [OF len that]] by (simp add: k)
        then have "w \<in> fst ` set otf" using that by (simp add: map_of_eq_None_iff)
        then have "k \<in> (\<lambda>(w, _). fts_build_key w pk) ` set otf" unfolding k by (rule imageE) (simp add: image_iff case_prod_beta, blast)
        then show False using o unfolding keys by simp
      qed
      then show ?thesis using at(2) by blast
    qed
  qed (simp add: tidy_def cell_def once)
qed

lemma replaced_tidy: "replaced cf old new c c' \<Longrightarrow> tidy cf c'"
  by (auto simp: replaced_def tidy_def)

text \<open>Deleting an entry, if there is one, and putting another.\<close>

lemma replaced_delete_put:
  assumes laws: "engine_laws E B" "single_delete_laws E B C SD once"
    and del: "replaced cf old [] (cell B once t e) (cell B once t e1)" "kept te {cf} (cell B once t e) (cell B once t e1)"
    and put: "txn_put E t cf k v ttl e1 = (TDB_SUCCESS, e')"
    and fresh: "k \<notin> fst ` set old \<Longrightarrow> fst (cell B once t e (cf, k)) = None"
  shows "replaced cf old [(k, v)] (cell B once t e) (cell B once t e')" "kept te {cf} (cell B once t e) (cell B once t e')"
proof -
  have "fst (cell B once t e1 (cf, k)) = None" using del(1) fresh by (auto simp: replaced_def)
  note p = cell_replaced_put [OF laws put replaced_tidy [OF del(1)] this]
  show "replaced cf old [(k, v)] (cell B once t e) (cell B once t e')" using replaced_compose [OF del(1) p(1)] .
  show "kept te {cf} (cell B once t e) (cell B once t e')" using kept_trans [OF del(2) p(2)] by simp
qed

text \<open>A column the statement does not assign has the same value in both records.\<close>

definition unwritten_same :: "table_env \<Rightarrow> (nat \<Rightarrow> bool) \<Rightarrow> bytes \<Rightarrow> bytes \<Rightarrow> bool" where
  "unwritten_same te write_set old_data new_data \<longleftrightarrow>
     (\<forall>(i, kd, cf)\<in>set (sec_keys te). \<not> in_write_set write_set (kd_info kd) \<longrightarrow>
        col_bytes te kd old_data = col_bytes te kd new_data \<and> fts_tokens te kd old_data = fts_tokens te kd new_data \<and>
        row_mbr te kd old_data = row_mbr te kd new_data)"

lemma unwritten_entries:
  assumes "unwritten_same te ws old new" "(i, kd, cf) \<in> set (sec_keys te)" "\<not> in_write_set ws (kd_info kd)"
  shows "index_entries te kd pk old = index_entries te kd pk new"
  using bspec [OF assms(1) [unfolded unwritten_same_def] assms(2)] assms(3) by (simp add: index_entries_def)

lemma update_fts_cells:
  assumes laws: "engine_laws E B" "single_delete_laws E B C SD once" and work: "unchecked_deletes_work te SD once t"
    and wf: "wf_table te" and x: "(i, kd, cf) \<in> set (sec_keys te)" and fts: "kd_fts kd"
    and ok: "row_ok te old_pk old" "row_ok te new_pk new" and tidy: "tidy cf (cell B once t e)"
    and there: "\<And>k. k \<in> fst ` set (index_entries te kd old_pk old) \<Longrightarrow> fst (cell B once t e (cf, k)) = map_of (index_entries te kd old_pk old) k"
    and upd: "update_fts E SD te t ttl old_pk new_pk old new (i, kd, cf) e = (TDB_SUCCESS, e')"
  shows "replaced cf (index_entries te kd old_pk old) (index_entries te kd new_pk new) (cell B once t e) (cell B once t e')"
    "kept te {cf} (cell B once t e) (cell B once t e')"
proof -
  let ?ot = "fts_tokens te kd old" and ?nt = "fts_tokens te kd new"
  let ?owc = "word_of_nat (length ?ot) :: u32" and ?nwc = "word_of_nat (length ?nt) :: u32"
  note once = unchecked_worksD(1) [OF work x fts] and sd = unchecked_worksD(2) [OF work x disjI1 [OF fts]]
  obtain rc e1 where p: "(if old_pk \<noteq> new_pk
      then put_terms E t cf new_pk ?nwc ttl (tf_map ?nt []) (delete_terms E SD t cf old_pk (tf_map ?ot []) e)
      else put_terms E t cf new_pk ?nwc ttl (filter (needs_put (tf_map ?ot []) (?owc \<noteq> ?nwc)) (tf_map ?nt []))
        (delete_terms E SD t cf old_pk (filter (\<lambda>(term, _). map_of (tf_map ?nt []) term = None) (tf_map ?ot [])) e)) = (rc, e1)"
    by (rule prod.exhaust)
  have rc: "rc = TDB_SUCCESS" and e': "kept te {} (cell B once t e1) (cell B once t e')"
    using upd p kept_meta [OF laws, of te t e1 i] by (auto simp: update_fts_def Let_def split: if_splits)
  have "replaced cf (index_entries te kd old_pk old) (index_entries te kd new_pk new) (cell B once t e) (cell B once t e1) \<and>
      kept te {cf} (cell B once t e) (cell B once t e1)"
  proof (cases "old_pk = new_pk")
    case True
    then show ?thesis
      using fts_diff_replaced [OF laws once sd wf x fts ok(1) _ refl refl refl refl _ there] ok(2) p by (simp add: rc)
  next
    case False
    then have "put_terms E t cf new_pk ?nwc ttl (tf_map ?nt []) (delete_terms E SD t cf old_pk (tf_map ?ot []) e) = (TDB_SUCCESS, e1)"
      using p rc by simp
    note a = put_terms_replaced [OF laws once wf x ok(2) fts this]
    note b = delete_terms_replaced [OF laws(2) once sd fts tidy, where te = te and pk = old_pk and row = old]
    show ?thesis using replaced_compose [OF b(1) a(1)] kept_trans [OF b(2) a(2)] by simp
  qed
  then show "replaced cf (index_entries te kd old_pk old) (index_entries te kd new_pk new) (cell B once t e) (cell B once t e')"
    "kept te {cf} (cell B once t e) (cell B once t e')"
    using replaced_meta [OF _ _ e' sec_key_cf [OF wf x]] by blast+
qed

lemma update_spatial_cells:
  assumes laws: "engine_laws E B" "single_delete_laws E B C SD once" and work: "unchecked_deletes_work te SD once t"
    and x: "(i, kd, cf) \<in> set (sec_keys te)" and kind: "\<not> kd_fts kd" "kd_spatial kd" and tidy: "tidy cf (cell B once t e)"
    and there: "\<And>k. k \<in> fst ` set (index_entries te kd old_pk old) \<Longrightarrow> fst (cell B once t e (cf, k)) \<noteq> None"
    and fresh: "\<And>k. k \<in> fst ` set (index_entries te kd new_pk new) \<Longrightarrow> k \<notin> fst ` set (index_entries te kd old_pk old) \<Longrightarrow>
      fst (cell B once t e (cf, k)) = None"
    and upd: "update_spatial E SD te t ttl old_pk new_pk old new kd cf e = (TDB_SUCCESS, e')"
  shows "replaced cf (index_entries te kd old_pk old) (index_entries te kd new_pk new) (cell B once t e) (cell B once t e') \<and>
    kept te {cf} (cell B once t e) (cell B once t e')"
proof -
  define e1 where "e1 = (case row_mbr te kd old of None \<Rightarrow> e
    | Some m \<Rightarrow> snd (tidesdb_txn_delete_cf E SD t cf (spatial_entry_key te m old_pk) True e))"
  have es: "index_entries te kd pk row = (case row_mbr te kd row of None \<Rightarrow> []
      | Some m \<Rightarrow> [(spatial_entry_key te m pk, spatial_build_value m)])" for pk row
    using kind by (simp add: index_entries_def)
  have "replaced cf (index_entries te kd old_pk old) [] (cell B once t e) (cell B once t e1) \<and>
    kept te {cf} (cell B once t e) (cell B once t e1)"
  proof (cases "row_mbr te kd old")
    case None
    then show ?thesis using tidy by (auto simp: e1_def es intro!: replacedI)
  next
    case (Some m)
    let ?k = "spatial_entry_key te m old_pk"
    have "SD t cf ?k e = (TDB_SUCCESS, e1)" using unchecked_worksD(2) [OF work x disjI2 [OF kind(2)], of cf ?k e] Some
      by (cases "SD t cf ?k e") (simp add: e1_def tidesdb_txn_delete_cf_def)
    then show ?thesis using sd_replaced [OF laws(2) _ tidy] there Some by (simp add: es)
  qed
  note d = conjunct1 [OF this] conjunct2 [OF this]
  show ?thesis
  proof (cases "row_mbr te kd new")
    case None
    then have "e' = e1" using upd by (simp add: update_spatial_def e1_def)
    then show ?thesis using d None by (simp add: es [of new_pk])
  next
    case (Some m)
    then have "txn_put E t cf (spatial_entry_key te m new_pk) (spatial_build_value m) ttl e1 = (TDB_SUCCESS, e')"
      using upd by (simp add: update_spatial_def e1_def)
    from replaced_delete_put [OF laws d this] fresh show ?thesis using Some by (simp add: es [of new_pk])
  qed
qed

lemma update_regular_cells:
  assumes laws: "engine_laws E B" "single_delete_laws E B C SD once"
    and wf: "wf_table te" and x: "(i, kd, cf) \<in> set (sec_keys te)" and kind: "\<not> kd_fts kd" "\<not> kd_spatial kd"
    and ok: "row_ok te new_pk new" and tidy: "tidy cf (cell B once t e)"
    and there: "\<And>k. k \<in> fst ` set (index_entries te kd old_pk old) \<Longrightarrow> fst (cell B once t e (cf, k)) = map_of (index_entries te kd old_pk old) k"
    and fresh: "\<And>k. k \<in> fst ` set (index_entries te kd new_pk new) \<Longrightarrow> k \<notin> fst ` set (index_entries te kd old_pk old) \<Longrightarrow>
      fst (cell B once t e (cf, k)) = None"
    and upd: "update_regular E SD te t ttl old_pk new_pk old new kd cf e = (TDB_SUCCESS, e')"
  shows "replaced cf (index_entries te kd old_pk old) (index_entries te kd new_pk new) (cell B once t e) (cell B once t e') \<and>
    kept te {cf} (cell B once t e) (cell B once t e')"
proof -
  have key: "index_key te kd new_pk new = col_bytes te kd new @ new_pk"
    using index_key_split [OF wf x kind(1)] ok by (simp add: row_ok_def)
  have es: "index_entries te kd pk row = [(col_bytes te kd row @ pk, tdb_empty_val)]" for pk row
    using kind by (simp add: index_entries_def)
  show ?thesis
  proof (cases "col_bytes te kd old @ old_pk = col_bytes te kd new @ new_pk")
    case True
    then have "e' = e" "index_entries te kd old_pk old = index_entries te kd new_pk new"
      using upd by (simp_all add: update_regular_def Let_def key es)
    then show ?thesis using replaced_same [OF tidy, of "index_entries te kd new_pk new"] there by simp
  next
    case False
    obtain e1 where p: "SD t cf (col_bytes te kd old @ old_pk) e = (TDB_SUCCESS, e1)"
      "txn_put E t cf (col_bytes te kd new @ new_pk) tdb_empty_val ttl e1 = (TDB_SUCCESS, e')"
      using upd False by (auto simp: update_regular_def Let_def key tidesdb_txn_delete_cf_def split: prod.splits if_splits)
    note d = sd_replaced [OF laws(2) p(1) tidy] there [unfolded es]
    have "replaced cf (index_entries te kd old_pk old) [] (cell B once t e) (cell B once t e1)"
      "kept te {cf} (cell B once t e) (cell B once t e1)" using d by (simp_all add: es)
    from replaced_delete_put [OF laws this p(2)] fresh show ?thesis by (simp add: es)
  qed
qed

lemma update_index_cells:
  assumes laws: "engine_laws E B" "single_delete_laws E B C SD once" and work: "unchecked_deletes_work te SD once t"
    and wf: "wf_table te" and x: "(i, kd, cf) \<in> set (sec_keys te)"
    and ok: "row_ok te old_pk old" "row_ok te new_pk new" and tidy: "tidy cf (cell B once t e)"
    and same: "unwritten_same te ws old new"
    and rekey: "old_pk \<noteq> new_pk \<Longrightarrow> kd_fts kd \<or> kd_spatial kd \<Longrightarrow> in_write_set ws (kd_info kd)"
    and there: "\<And>k. k \<in> fst ` set (index_entries te kd old_pk old) \<Longrightarrow> fst (cell B once t e (cf, k)) = map_of (index_entries te kd old_pk old) k"
    and fresh: "\<And>k. k \<in> fst ` set (index_entries te kd new_pk new) \<Longrightarrow> k \<notin> fst ` set (index_entries te kd old_pk old) \<Longrightarrow>
      fst (cell B once t e (cf, k)) = None"
    and upd: "update_index E SD te ws t ttl old_pk new_pk old new (i, kd, cf) e = (TDB_SUCCESS, e')"
  shows "replaced cf (index_entries te kd old_pk old) (index_entries te kd new_pk new) (cell B once t e) (cell B once t e') \<and>
    kept te {cf} (cell B once t e) (cell B once t e')"
proof -
  have skip: ?thesis if "old_pk = new_pk" "\<not> in_write_set ws (kd_info kd)" "e' = e"
    using replaced_same [OF tidy, of "index_entries te kd old_pk old"] there unwritten_entries [OF same x that(2), of new_pk] that
    by simp
  have there': "fst (cell B once t e (cf, k)) \<noteq> None" if "k \<in> fst ` set (index_entries te kd old_pk old)" for k
    using there [OF that] that by (simp add: map_of_eq_None_iff)
  show ?thesis
  proof (cases "kd_fts kd")
    case True
    show ?thesis
    proof (cases "in_write_set ws (kd_info kd)")
      case w: True
      then show ?thesis using update_fts_cells [OF laws work wf x True ok tidy there] upd True by (simp add: update_index_def)
    qed (use skip rekey upd True in \<open>auto simp: update_index_def\<close>)
  next
    case fts: False
    show ?thesis
    proof (cases "kd_spatial kd")
      case True
      have "length (kd_parts kd) = 1" using wf x True by (auto simp: wf_table_def)
      then obtain kp where kp: "kd_parts kd = [kp]" by (auto simp: length_Suc_conv)
      show ?thesis
      proof (cases "in_write_set ws (kd_info kd)")
        case w: True
        then show ?thesis using update_spatial_cells [OF laws work x fts True tidy there' fresh] upd fts True kp
          by (simp add: update_index_def in_write_set_def)
      qed (use skip rekey upd fts True kp in \<open>auto simp: update_index_def in_write_set_def\<close>)
    next
      case False
      show ?thesis
      proof (cases "old_pk = new_pk \<and> \<not> in_write_set ws (kd_info kd)")
        case w: False
        then have "update_regular E SD te t ttl old_pk new_pk old new kd cf e = (TDB_SUCCESS, e')"
          using upd fts False by (auto simp: update_index_def)
        from update_regular_cells [OF laws wf x fts False ok(2) tidy there fresh this] show ?thesis .
      qed (use skip upd fts False in \<open>simp add: update_index_def\<close>)
    qed
  qed
qed

end
