(* ===== verification/Dml_Refine.thy ===== *)
theory Dml_Refine
  imports Dml_Index
begin

text \<open>The row operations refine operations on a plain map from keys to rows. Within a transaction,
  \<open>write_row\<close>, \<open>update_row\<close> and \<open>delete_row\<close> that report success turn a store in step with the rows into
  a store in step with the rows after the operation, for every table with any mix of secondary,
  full-text and spatial indexes; duplicate keys are refused without a change.\<close>

section \<open>Assembling the parts\<close>

lemma tdb_rc_to_ha_ok: "tdb_rc_to_ha rc = HA_OK \<longleftrightarrow> rc = TDB_SUCCESS"
  by (cases rc) simp_all

lemma replaced_cong:
  "\<forall>k. c1 (cf, k) = c2 (cf, k) \<Longrightarrow> replaced cf old new c1 c' = replaced cf old new c2 c'"
  by (simp add: replaced_def cong: option.case_cong)

lemma tidy_cong: "\<forall>k. c1 (cf, k) = c2 (cf, k) \<Longrightarrow> tidy cf c1 = tidy cf c2"
  by (simp add: tidy_def)

lemma table_simD:
  assumes "table_sim te enc rows c"
  shows "rows pk = Some row \<Longrightarrow> row_ok te pk row" "x \<in> set (sec_keys te) \<Longrightarrow> index_sim te rows c x"
    "(i, kd, cf) \<in> set (sec_keys te) \<Longrightarrow> tidy cf c" "rows pk = None \<Longrightarrow> fst (c (te_cf te, build_data_key pk)) = None"
    "rows pk = Some row \<Longrightarrow> fst (c (te_cf te, build_data_key pk)) \<noteq> None"
proof -
  have d: "data_sim te enc rows c" and x: "\<And>x. x \<in> set (sec_keys te) \<Longrightarrow> index_sim te rows c x"
    using assms by (simp_all add: table_sim_def)
  note d' = d [unfolded data_sim_def, rule_format, of pk]
  show "rows pk = Some row \<Longrightarrow> row_ok te pk row" "rows pk = None \<Longrightarrow> fst (c (te_cf te, build_data_key pk)) = None"
    "rows pk = Some row \<Longrightarrow> fst (c (te_cf te, build_data_key pk)) \<noteq> None" using d' by auto
  show "x \<in> set (sec_keys te) \<Longrightarrow> index_sim te rows c x" by (rule x)
  assume "(i, kd, cf) \<in> set (sec_keys te)"
  from x [OF this] show "tidy cf c" by (simp add: index_sim_def tidy_def)
qed

text \<open>Keys of the row that comes are absent, unless they are keys of the row that leaves.\<close>

lemma new_keys_fresh:
  assumes "wf_table te" "(i, kd, cf) \<in> set (sec_keys te)" "table_sim te enc rows c" "row_ok te new_pk new"
    "new_pk \<noteq> old_pk \<Longrightarrow> rows new_pk = None" "k \<in> fst ` set (index_entries te kd new_pk new)"
    "k \<notin> fst ` set (old_entries te kd old_pk rows)"
  shows "fst (c (cf, k)) = None"
proof (rule ccontr)
  assume "fst (c (cf, k)) \<noteq> None"
  then obtain pk row v where r: "rows pk = Some row" "(k, v) \<in> set (index_entries te kd pk row)"
    using table_simD(2) [OF assms(3,2)] by (fastforce simp: index_sim_def)
  have k: "k \<in> fst ` set (index_entries te kd pk row)" using r(2) by force
  have "pk = new_pk"
    using index_entries_apart [OF assms(1,2) refl table_simD(1) [OF assms(3) r(1)] assms(4) k assms(6)] .
  then have "pk = old_pk" using assms(5) r(1) by auto
  then show False using assms(7) k r(1) by (simp add: old_entries_def)
qed

lemma table_sim_step:
  assumes "wf_table te" "table_sim te enc rows c"
    "\<And>pk row. new = Some (pk, row) \<Longrightarrow> row_ok te pk row \<and> (pk \<noteq> old_pk \<longrightarrow> rows pk = None)"
    "\<forall>(i, kd, cf)\<in>set (sec_keys te). replaced cf (old_entries te kd old_pk rows) (new_entries te kd new) c c'"
    "data_sim te enc (rows_after old_pk new rows) c'"
  shows "table_sim te enc (rows_after old_pk new rows) c'"
  unfolding table_sim_def
proof (intro conjI ballI)
  fix x
  assume x: "x \<in> set (sec_keys te)"
  obtain i kd cf where e: "x = (i, kd, cf)" by (rule prod_cases3)
  show "index_sim te (rows_after old_pk new rows) c' x" unfolding e
  proof (rule index_sim_step [OF assms(1) x [unfolded e] _ _ assms(3)])
    show "index_sim te rows c (i, kd, cf)" using table_simD(2) [OF assms(2) x] by (simp add: e)
    show "\<And>pk row. rows pk = Some row \<Longrightarrow> row_ok te pk row" by (rule table_simD(1) [OF assms(2)])
    show "replaced cf (old_entries te kd old_pk rows) (new_entries te kd new) c c'" using assms(4) x by (auto simp: e)
  qed
qed (rule assms(5))

text \<open>The data family: only the keys of the two rows change.\<close>

lemma data_sim_step:
  assumes "data_sim te enc rows c" "\<And>pk. pk \<noteq> old_pk \<Longrightarrow> new_pk \<noteq> Some pk \<Longrightarrow>
      fst (c' (te_cf te, build_data_key pk)) = fst (c (te_cf te, build_data_key pk))"
    "new = None \<or> map_option fst new \<noteq> Some old_pk \<Longrightarrow> fst (c' (te_cf te, build_data_key old_pk)) = None"
    "new_pk = map_option fst new"
    "\<And>pk row. new = Some (pk, row) \<Longrightarrow> row_ok te pk row \<and> (\<exists>v. fst (c' (te_cf te, build_data_key pk)) = Some v \<and> row_stored te enc row v)"
  shows "data_sim te enc (rows_after old_pk new rows) c'"
  unfolding data_sim_def
proof (intro allI)
  fix pk
  note old = assms(1) [unfolded data_sim_def, rule_format, of pk]
  show "case rows_after old_pk new rows pk of
      None \<Rightarrow> fst (c' (te_cf te, build_data_key pk)) = None
    | Some row \<Rightarrow> row_ok te pk row \<and> (\<exists>v. fst (c' (te_cf te, build_data_key pk)) = Some v \<and> row_stored te enc row v)"
  proof (cases new)
    case None
    then show ?thesis using old assms(2) [of pk] assms(3,4) by (cases "pk = old_pk"; cases "rows pk") (auto simp: rows_after_def)
  next
    case (Some n)
    then show ?thesis using old assms(2) [of pk] assms(3,4) assms(5) [of "fst n" "snd n"]
      by (cases "pk = fst n"; cases "pk = old_pk"; cases "rows pk") (auto simp: rows_after_def case_prod_beta)
  qed
qed

lemma kept_data:
  assumes "kept te cfs c c'" "te_cf te \<notin> cfs"
  shows "c' (te_cf te, build_data_key pk) = c (te_cf te, build_data_key pk)"
  using assms by (simp add: kept_def)

lemma sec_cfs: "wf_table te \<Longrightarrow> te_cf te \<notin> (\<lambda>(i, kd, cf). cf) ` set (sec_keys te)"
  "wf_table te \<Longrightarrow> distinct (te_cf te # map (\<lambda>(i, kd, cf). cf) (sec_keys te))"
  by (auto simp: wf_table_def)

section \<open>Insert\<close>

lemma insert_indexes_cells:
  assumes laws: "engine_laws E B" "single_delete_laws E B C SD once" and work: "unchecked_deletes_work te SD once t"
    and wf: "wf_table te" and sim: "table_sim te enc rows c" and ok: "row_ok te pk buf" and new: "rows pk = None"
    and run: "insert_indexes E te t ttl pk buf (sec_keys te) h = (TDB_SUCCESS, h')" and cur: "h_current_pk h = pk"
    and start: "\<forall>(i, kd, cf)\<in>set (sec_keys te). \<forall>k. cell B once t (h_eng h) (cf, k) = c (cf, k)"
  shows "\<forall>(i, kd, cf)\<in>set (sec_keys te). replaced cf [] (index_entries te kd pk buf) c (cell B once t (h_eng h'))"
    "kept te ((\<lambda>(i, kd, cf). cf) ` set (sec_keys te)) (cell B once t (h_eng h)) (cell B once t (h_eng h'))"
proof -
  have step: "replaced cf [] (index_entries te kd pk buf) c (cell B once t (h_eng s')) \<and>
      kept te {cf} (cell B once t (h_eng s)) (cell B once t (h_eng s')) \<and> h_current_pk s' = pk"
    if "(i, kd, cf) \<in> set (sec_keys te)" "h_current_pk s = pk" "insert_index E te t ttl pk buf (i, kd, cf) s = (TDB_SUCCESS, s')"
      "\<forall>k. cell B once t (h_eng s) (cf, k) = c (cf, k)" for i kd cf s s'
  proof -
    have "tidy cf (cell B once t (h_eng s))" using table_simD(3) [OF sim that(1)] tidy_cong [OF that(4)] by simp
    moreover have "fst (cell B once t (h_eng s) (cf, k)) = None" if k: "k \<in> fst ` set (index_entries te kd pk buf)" for k
      using new_keys_fresh [OF wf \<open>(i, kd, cf) \<in> set (sec_keys te)\<close> sim ok _ k, of pk] \<open>\<forall>k. cell B once t (h_eng s) (cf, k) = c (cf, k)\<close>
      by (simp add: old_entries_def new)
    ultimately show ?thesis
      using insert_index_cells [OF laws work wf that(1) ok that(2,3)] replaced_cong [OF that(4)] by blast
  qed
  have "(\<forall>(i, kd, cf)\<in>set (sec_keys te). replaced cf [] (index_entries te kd pk buf) c (cell B once t (h_eng h'))) \<and>
    kept te ((\<lambda>(i, kd, cf). cf) ` set (sec_keys te)) (cell B once t (h_eng h)) (cell B once t (h_eng h')) \<and> h_current_pk h' = pk"
  proof (rule run_indexes [where f = "insert_index E te t ttl pk buf" and run = "insert_indexes E te t ttl pk buf"
        and ab = "\<lambda>h. cell B once t (h_eng h)" and P = "\<lambda>h. h_current_pk h = pk" and ys = "sec_keys te"])
    fix i kd cf s s'
    assume "(i, kd, cf) \<in> set (sec_keys te)" "h_current_pk s = pk" "insert_index E te t ttl pk buf (i, kd, cf) s = (TDB_SUCCESS, s')"
      "\<forall>k. cell B once t (h_eng s) (cf, k) = c (cf, k)"
    then show "replaced cf [] (index_entries te kd pk buf) c (cell B once t (h_eng s')) \<and>
      kept te {cf} (cell B once t (h_eng s)) (cell B once t (h_eng s')) \<and> h_current_pk s' = pk" by (rule step)
  qed (use run cur start sec_cfs(2) [OF wf] in simp_all)
  then show "\<forall>(i, kd, cf)\<in>set (sec_keys te). replaced cf [] (index_entries te kd pk buf) c (cell B once t (h_eng h'))"
    "kept te ((\<lambda>(i, kd, cf). cf) ` set (sec_keys te)) (cell B once t (h_eng h)) (cell B once t (h_eng h'))" by blast+
qed

lemma bulk_tail_keeps:
  assumes "bulk_tail E b n h = (err, h')" "b \<Longrightarrow> h_bulk_ops h + n < TIDESDB_BULK_INSERT_BATCH_OPS"
  shows "h_eng h' = h_eng h" "err = HA_OK"
  using assms by (auto simp: bulk_tail_def Let_def split: if_splits)

text \<open>Whether \<open>write_row\<close> looks the primary key up before it writes, and that no mid-statement commit falls
  due after the row.\<close>

definition pk_checked :: "table_env \<Rightarrow> thd \<Rightarrow> bool \<Rightarrow> bytes \<Rightarrow> ('e, 'i) handler \<Rightarrow> bool" where
  "pk_checked te th in_rec0 buf h \<longleftrightarrow> te_pk te \<noteq> None \<and> \<not> sv_skip_unique_check (h_vars (cache_vars th h)) \<and>
     \<not> fst (snd (snd (fill_auto_increment te in_rec0 buf h))) \<and> \<not> (h_can_replace h \<and> num_secondary_indexes te = 0)"

definition no_mid_commit :: "bool \<Rightarrow> nat \<Rightarrow> ('e, 'i) handler \<Rightarrow> bool" where
  "no_mid_commit bulk n h \<longleftrightarrow> (bulk \<longrightarrow> h_bulk_ops h + n < TIDESDB_BULK_INSERT_BATCH_OPS)"

text \<open>What the checks and the index loop leave of the handler.\<close>

definition same_bulk :: "('e, 'i) handler \<Rightarrow> ('e, 'i) handler \<Rightarrow> bool" where
  "same_bulk h h' \<longleftrightarrow> h_bulk_insert h' = h_bulk_insert h \<and> h_bulk_ops h' = h_bulk_ops h"

lemma insert_index_bulk: "insert_index E te t ttl pk buf x h = (rc, h') \<Longrightarrow> same_bulk h h'"
  by (auto simp: insert_index_def same_bulk_def set_eng_def Let_def split: prod.splits if_splits option.splits)

lemma insert_indexes_bulk: "insert_indexes E te t ttl pk buf xs h = (rc, h') \<Longrightarrow> same_bulk h h'"
proof (induction xs arbitrary: h)
  case (Cons x xs)
  obtain rc1 h1 where x: "insert_index E te t ttl pk buf x h = (rc1, h1)" by (rule prod.exhaust)
  then show ?case using Cons insert_index_bulk [OF x] by (auto simp: same_bulk_def split: if_splits)
qed (simp add: same_bulk_def)

lemma store_row_sim:
  assumes laws: "engine_laws E B" "single_delete_laws E B C SD once" and work: "unchecked_deletes_work te SD once t"
    and wf: "wf_table te" and sim: "table_sim te enc rows (cell B once t (h_eng h))" and ok: "row_ok te pk buf"
    and new: "rows pk = None" and stored: "row_stored te enc buf row"
    and commit: "no_mid_commit (h_bulk_insert h) (1 + num_secondary_indexes te) h"
    and run: "store_row E te t pk row buf h = (HA_OK, h')"
  shows "table_sim te enc (rows(pk \<mapsto> buf)) (cell B once t (h_eng h'))"
proof -
  let ?c = "\<lambda>h. cell B once t (h_eng h)" and ?ttl = "row_ttl te buf h"
  obtain rc e where put: "txn_put E t (te_cf te) (build_data_key pk) row ?ttl (h_eng h) = (rc, e)" by (rule prod.exhaust)
  define h1 where "h1 = (set_eng e h)\<lparr>h_current_pk := pk\<rparr>"
  obtain rc2 h2 where ins: "insert_indexes E te t ?ttl pk buf (sec_keys te) h1 = (rc2, h2)" by (rule prod.exhaust)
  have rc: "rc = TDB_SUCCESS" "rc2 = TDB_SUCCESS"
    and tail: "bulk_tail E (h_bulk_insert h2) (1 + num_secondary_indexes te) h2 = (HA_OK, h')"
    using run put ins by (auto simp: store_row_def h1_def Let_def tdb_rc_to_ha_ok split: if_splits)
  have h1: "h_eng h1 = e" "same_bulk h h1" "h_current_pk h1 = pk" by (simp_all add: h1_def same_bulk_def set_eng_def)
  have e': "h_eng h' = h_eng h2"
    using bulk_tail_keeps(1) [OF tail] commit insert_indexes_bulk [OF ins] h1(2) by (simp add: no_mid_commit_def same_bulk_def)
  have start: "\<forall>(i, kd, cf)\<in>set (sec_keys te). \<forall>k. ?c h1 (cf, k) = ?c h (cf, k)"
    using cell_put(1) [OF laws put [unfolded rc]] sec_key_cf [OF wf] by (auto simp: h1)
  note idx = insert_indexes_cells [OF laws work wf sim ok new ins [unfolded rc] h1(3) start]
  have data: "?c h2 (te_cf te, build_data_key q) = ?c h1 (te_cf te, build_data_key q)" for q
    by (rule kept_data [OF idx(2) sec_cfs(1) [OF wf]])
  have "table_sim te enc (rows_after pk (Some (pk, buf)) rows) (?c h2)"
  proof (rule table_sim_step [OF wf sim])
    show "\<forall>(i, kd, cf)\<in>set (sec_keys te). replaced cf (old_entries te kd pk rows) (new_entries te kd (Some (pk, buf))) (?c h) (?c h2)"
      using idx(1) by (simp add: old_entries_def new_entries_def new)
    show "data_sim te enc (rows_after pk (Some (pk, buf)) rows) (?c h2)"
      by (rule data_sim_step [where c = "?c h" and new_pk = "Some pk"])
        (use sim ok stored cell_put [OF laws put [unfolded rc]] in \<open>auto simp: data h1(1) table_sim_def\<close>)
  qed (use ok in auto)
  then show ?thesis by (simp add: rows_after_def e')
qed

subsection \<open>The duplicate checks\<close>

lemma check_pk_frame:
  assumes "engine_laws E B" "single_delete_laws E B C SD once" "check_pk E te t g pk h = (err, h')"
  shows "cell B once t (h_eng h') = cell B once t (h_eng h)" "same_bulk h h'" "h_dup_iter h' = h_dup_iter h" "h_vars h' = h_vars h"
proof -
  obtain rc v e where g: "txn_get E t (te_cf te) (build_data_key pk) (h_eng h) = (rc, v, e)" by (rule prod_cases3)
  have "h_eng h' \<in> {h_eng h, e} \<and> same_bulk h h' \<and> h_dup_iter h' = h_dup_iter h \<and> h_vars h' = h_vars h"
    using assms(3) by (auto simp: check_pk_def g same_bulk_def set_eng_def split: option.splits if_splits)
  then show "cell B once t (h_eng h') = cell B once t (h_eng h)" "same_bulk h h'" "h_dup_iter h' = h_dup_iter h" "h_vars h' = h_vars h"
    using cell_get [OF assms(1,2) g] by auto
qed

lemma check_pk_absent:
  assumes "engine_laws E B" "check_pk E te t g pk h = (HA_OK, h')" "te_pk te \<noteq> None"
    "\<not> (sv_skip_unique_check (h_vars h) \<or> g \<or> h_can_replace h \<and> num_secondary_indexes te = 0)"
  shows "ob_view B (h_eng h) t (te_cf te, build_data_key pk) = None"
proof -
  obtain rc v e where g: "txn_get E t (te_cf te) (build_data_key pk) (h_eng h) = (rc, v, e)" by (rule prod_cases3)
  have "rc = TDB_ERR_NOT_FOUND" using assms(2-) by (auto simp: check_pk_def g tdb_rc_to_ha_ok split: if_splits)
  then show ?thesis by (rule law_get(6) [OF assms(1) g])
qed

lemma dup_iter_frame:
  assumes "cursor_laws E B C V" "single_delete_laws E B C SD once" "dup_iter C t i cf h = (rc, r, h')"
  shows "cell B once t (h_eng h') = cell B once t (h_eng h)" "same_bulk h h'" "j \<noteq> i \<Longrightarrow> h_dup_iter h' j = h_dup_iter h j"
    "r = None \<Longrightarrow> rc \<noteq> TDB_SUCCESS"
    "h_dup_iter h i = None \<Longrightarrow> r = Some kp \<Longrightarrow> contents (cv_seq V (kp_iter kp)) (\<lambda>k. ob_view B (h_eng h) t (cf, k))"
proof -
  obtain irc it e where n: "it_new C t cf (h_eng h) = (irc, it, e)" by (rule prod_cases3)
  show "cell B once t (h_eng h') = cell B once t (h_eng h)" "same_bulk h h'" "j \<noteq> i \<Longrightarrow> h_dup_iter h' j = h_dup_iter h j"
    "r = None \<Longrightarrow> rc \<noteq> TDB_SUCCESS"
    "h_dup_iter h i = None \<Longrightarrow> r = Some kp \<Longrightarrow> contents (cv_seq V (kp_iter kp)) (\<lambda>k. ob_view B (h_eng h) t (cf, k))"
    using assms(3) cell_it_new [OF assms(1,2) n] law_it_new(6) [OF assms(1) n]
    by (auto simp: dup_iter_def n same_bulk_def set_eng_def Let_def split: option.splits if_splits)
qed

lemma check_unique_key_frame:
  assumes "cursor_laws E B C V" "single_delete_laws E B C SD once" "check_unique_key C te t buf (i, kd, cf) h = (err, h')"
  shows "cell B once t (h_eng h') = cell B once t (h_eng h)" "same_bulk h h'" "j \<noteq> i \<Longrightarrow> h_dup_iter h' j = h_dup_iter h j"
proof -
  obtain rc r h1 where d: "dup_iter C t i cf h = (rc, r, h1)" by (rule prod_cases3)
  have "h_eng h' \<in> {h_eng h, h_eng h1} \<and> (same_bulk h h' \<or> same_bulk h1 h') \<and>
      (j \<noteq> i \<longrightarrow> h_dup_iter h' j \<in> {h_dup_iter h j, h_dup_iter h1 j})"
    using assms(3) by (auto simp: check_unique_key_def d same_bulk_def Let_def split: option.splits if_splits prod.splits)
  then show "cell B once t (h_eng h') = cell B once t (h_eng h)" "same_bulk h h'" "j \<noteq> i \<Longrightarrow> h_dup_iter h' j = h_dup_iter h j"
    using dup_iter_frame(1-3) [OF assms(1,2) d] by (auto simp: same_bulk_def)
qed

text \<open>A pass means that no entry of the index starts with the columns of the row.\<close>

lemma seek_prefix_none:
  assumes "contents xs f" "case pos_ge p xs of None \<Rightarrow> True | Some i \<Rightarrow> \<not> prefix p (fst (xs ! i))" "f k = Some v"
  shows "\<not> prefix p k"
proof
  assume pre: "prefix p k"
  obtain n where n: "n < length xs" "xs ! n = (k, v)" using contents_index [OF assms(1,3)] .
  have pk: "p \<le> k" by (rule prefix_le [OF pre])
  show False
  proof (cases "pos_ge p xs")
    case None
    then show False using pos_ge_None [OF None n(1)] n(2) pk by simp
  next
    case (Some i)
    have "i \<le> n" using pos_ge_Some(3) [OF Some, of n] n(2) pk by (auto simp: not_le intro: leI)
    then have "fst (xs ! i) \<le> k" using contents_sorted [OF assms(1), of i n] n by (cases "i = n") (auto simp: order_less_imp_le)
    then have "prefix p (fst (xs ! i))" using between_prefix [of p "fst (xs ! i)"] pos_ge_Some(2) [OF Some] pre
      by (auto simp: prefix_def)
    then show False using assms(2) Some by simp
  qed
qed

lemma check_unique_key_absent:
  assumes laws: "cursor_laws E B C V" "single_delete_laws E B C SD once" "cursor_total C"
    and run: "check_unique_key C te t buf (i, kd, cf) h = (HA_OK, h')" and kind: "\<not> kd_fts kd" "\<not> kd_spatial kd" "kd_nosame kd"
    and new: "h_dup_iter h i = None" and k: "ob_view B (h_eng h) t (cf, k) = Some v"
  shows "\<not> prefix (col_bytes te kd buf) k"
proof -
  obtain rc r h1 where d: "dup_iter C t i cf h = (rc, r, h1)" by (rule prod_cases3)
  obtain kp where r: "r = Some kp"
    using run kind dup_iter_frame(4) [OF laws(1,2) d] by (cases r) (auto simp: check_unique_key_def d tdb_rc_to_ha_ok)
  let ?p = "col_bytes te kd buf" and ?xs = "cv_seq V (kp_iter kp)" and ?it = "snd (it_seek C (col_bytes te kd buf) (kp_iter kp))"
  have pos: "cv_pos V ?it = pos_ge ?p ?xs" and seq: "cv_seq V ?it = ?xs"
    using cursor_pos(1) [OF laws(1,3)] cursor_seq(1) [OF laws(1)] by simp_all
  have "\<not> prefix ?p (fst (?xs ! j))" if "pos_ge ?p ?xs = Some j" for j
  proof
    assume pre: "prefix ?p (fst (?xs ! j))"
    have e: "it_key_value C ?it = (TDB_SUCCESS, ?xs ! j)" "it_valid C ?it"
      using cursor_entry [OF laws(1,3), of ?it j] that pos seq by simp_all
    obtain fk fv where x: "?xs ! j = (fk, fv)" by (rule prod.exhaust)
    have "length ?p \<le> length fk \<and> take (length ?p) fk = ?p" using pre x by (auto simp: prefix_def)
    then show False using run kind by (simp add: check_unique_key_def d r Let_def e x)
  qed
  then show ?thesis
    using seek_prefix_none [OF dup_iter_frame(5) [OF laws(1,2) d new r] _ k] by (auto split: option.split)
qed

definition unique_ok :: "table_env \<Rightarrow> (bytes \<Rightarrow> bytes option) \<Rightarrow> bytes \<Rightarrow> nat \<times> key_def \<times> nat \<Rightarrow> bool" where
  "unique_ok te rows buf x = (case x of (i, kd, cf) \<Rightarrow>
     \<not> kd_fts kd \<and> \<not> kd_spatial kd \<and> kd_nosame kd \<longrightarrow> (\<forall>pk row. rows pk = Some row \<longrightarrow> col_bytes te kd row \<noteq> col_bytes te kd buf))"

lemma check_unique_keys_frame:
  assumes "cursor_laws E B C V" "single_delete_laws E B C SD once" "check_unique_keys C te t buf xs h = (err, h')"
  shows "cell B once t (h_eng h') = cell B once t (h_eng h) \<and> same_bulk h h'"
  using assms(3)
proof (induction xs arbitrary: h)
  case (Cons x xs)
  obtain i kd cf where x: "x = (i, kd, cf)" by (rule prod_cases3)
  obtain err1 h1 where c: "check_unique_key C te t buf (i, kd, cf) h = (err1, h1)" by (rule prod.exhaust)
  then show ?case
    using Cons check_unique_key_frame(1,2) [OF assms(1,2) c] by (auto simp: x same_bulk_def split: if_splits)
qed (simp add: same_bulk_def)

lemma check_unique_keys_ok:
  assumes laws: "cursor_laws E B C V" "single_delete_laws E B C SD once" "cursor_total C"
    and sim: "table_sim te enc rows (cell B once t (h_eng h))" and sub: "set xs \<subseteq> set (sec_keys te)"
    and dist: "distinct (map fst xs)" and new: "\<forall>x\<in>set xs. h_dup_iter h (fst x) = None"
    and run: "check_unique_keys C te t buf xs h = (HA_OK, h')"
  shows "\<forall>x\<in>set xs. unique_ok te rows buf x"
  using sim sub dist new run
proof (induction xs arbitrary: h)
  case (Cons x xs)
  obtain i kd cf where x: "x = (i, kd, cf)" by (rule prod_cases3)
  obtain err1 h1 where c: "check_unique_key C te t buf (i, kd, cf) h = (err1, h1)" by (rule prod.exhaust)
  have ok: "err1 = HA_OK" and run1: "check_unique_keys C te t buf xs h1 = (HA_OK, h')"
    using Cons.prems(5) by (auto simp: x c split: if_splits)
  note fr = check_unique_key_frame [OF laws(1,2) c]
  have "\<forall>x\<in>set xs. h_dup_iter h1 (fst x) = None"
    using fr(3) Cons.prems(3,4) by (force simp: x)
  then have rest: "\<forall>x\<in>set xs. unique_ok te rows buf x" using Cons.IH [of h1] Cons.prems fr(1) run1 by simp
  have "unique_ok te rows buf x"
    unfolding unique_ok_def x prod.case
  proof (intro impI allI notI)
    fix pk row
    assume kind: "\<not> kd_fts kd \<and> \<not> kd_spatial kd \<and> kd_nosame kd" and r: "rows pk = Some row"
      and eq: "col_bytes te kd row = col_bytes te kd buf"
    have "index_sim te rows (cell B once t (h_eng h)) (i, kd, cf)"
      using table_simD(2) [OF Cons.prems(1)] Cons.prems(2) by (simp add: x)
    then have "ob_view B (h_eng h) t (cf, col_bytes te kd row @ pk) = Some tdb_empty_val"
      using r kind by (auto simp: index_sim_def cell_def index_entries_def)
    from check_unique_key_absent [OF laws c [unfolded ok] _ _ _ _ this] kind Cons.prems(4) show False
      by (simp add: x eq)
  qed
  then show ?case using rest by simp
qed simp

lemma sec_keys_indexes: "distinct (map fst (sec_keys te))"
proof -
  let ?f = "\<lambda>i. if te_pk te = Some i \<or> length (te_idx_cfs te) \<le> i then None
            else map_option (\<lambda>cf. (i, te_keys te ! i, cf)) (te_idx_cfs te ! i)"
  have "map fst (List.map_filter ?f xs) = filter (\<lambda>i. ?f i \<noteq> None) xs" for xs
    by (induction xs) (auto simp: List.map_filter_simps)
  then show ?thesis by (simp add: sec_keys_def)
qed

lemma sec_keys_none: "num_secondary_indexes te = 0 \<Longrightarrow> sec_keys te = []"
  by (auto simp: num_secondary_indexes_def sec_keys_def filter_empty_conv List.map_filter_def)

subsection \<open>The whole operation\<close>

definition same_stmt :: "('e, 'i) handler \<Rightarrow> ('e, 'i) handler \<Rightarrow> bool" where
  "same_stmt h h' \<longleftrightarrow> h_conn h' = h_conn h \<and> h_stmt_txn h' = h_stmt_txn h \<and> h_vars h' = h_vars h \<and> h_vars_valid h' = h_vars_valid h \<and>
     same_bulk h h' \<and> h_dup_iter h' = h_dup_iter h \<and> h_can_replace h' = h_can_replace h \<and> h_bulk_update h' = h_bulk_update h \<and>
     encrypted (h_enc h') = encrypted (h_enc h)"

lemma same_stmt_trans: "same_stmt h h1 \<Longrightarrow> same_stmt h1 h2 \<Longrightarrow> same_stmt h h2"
  by (simp add: same_stmt_def same_bulk_def)

lemma fill_auto_increment_frame:
  assumes "fill_auto_increment te r buf h = (err, buf1, g, h1)"
  shows "same_stmt h h1" "fst (new_row_pk te b h1) = fst (new_row_pk te b h)" "h_enc h1 = h_enc h"
  using assms
  by (auto simp: fill_auto_increment_def same_stmt_def same_bulk_def new_row_pk_def Let_def split: option.splits if_splits prod.splits)

lemma new_row_pk_frame:
  assumes "new_row_pk te buf h = (pk, h1)"
  shows "same_stmt h h1" "h_enc h1 = h_enc h"
  using assms by (auto simp: same_stmt_def same_bulk_def new_row_pk_def split: if_splits)

lemma serialize_frame:
  assumes "serialize te buf h = (row, h1)"
  shows "same_stmt h h1" "row_stored te (encrypted (h_enc h)) buf row"
proof -
  obtain v c s where z: "serialize_row (te_pack te) (te_enc te) (te_tb te) (h_enc h) (h_mk h) buf = (v, c, s)" by (rule prod_cases3)
  have "encrypted c = encrypted (h_enc h)"
    using z by (auto simp: serialize_row_def refresh_key_version_def Let_def split: if_splits prod.splits option.splits)
  then show "same_stmt h h1" using assms by (auto simp: serialize_def z same_stmt_def same_bulk_def)
  have "row = fst (serialize_row (te_pack te) (te_enc te) (te_tb te) (h_enc h) (h_mk h) buf)" using assms by (simp add: serialize_def z)
  then show "row_stored te (encrypted (h_enc h)) buf row" by (auto simp: row_stored_def)
qed

definition unique_pass ::
  "('e, 'i) cursor \<Rightarrow> table_env \<Rightarrow> nat \<Rightarrow> bytes \<Rightarrow> ('e, 'i) handler \<Rightarrow> ha_err \<times> ('e, 'i) handler" where
  "unique_pass C te t buf h =
     (if 0 < num_secondary_indexes te \<and> \<not> sv_skip_unique_check (h_vars h)
      then check_unique_keys C te t buf (sec_keys te) h else (HA_OK, h))"

lemma write_row_reaches_checks:
  assumes txn: "h_stmt_txn h = Some t" and run: "write_row E C te th r buf h = (err, buf', h')"
  shows "(err \<noteq> HA_OK \<and> h_eng h' = h_eng h) \<or>
    (\<exists>h5 row. h_eng h5 = h_eng h \<and> same_bulk h h5 \<and> h_dup_iter h5 = h_dup_iter h \<and> h_vars h5 = h_vars (cache_vars th h) \<and>
       h_can_replace h5 = h_can_replace h \<and> row_stored te (encrypted (h_enc h)) buf' row \<and>
       (case check_pk E te t (fst (snd (snd (fill_auto_increment te r buf h)))) (fst (new_row_pk te buf' h)) h5 of (perr, h6) \<Rightarrow>
          if perr \<noteq> HA_OK then err = perr \<and> h' = h6
          else case unique_pass C te t buf' h6 of (uerr, h7) \<Rightarrow>
            if uerr \<noteq> HA_OK then err = uerr \<and> h' = h7
            else store_row E te t (fst (new_row_pk te buf' h)) row buf' h7 = (err, h')))"
proof -
  obtain ai_err buf1 g h1 where f: "fill_auto_increment te r buf h = (ai_err, buf1, g, h1)" by (rule prod_cases4)
  obtain pk h2 where n: "new_row_pk te buf1 h1 = (pk, h2)" by (rule prod.exhaust)
  obtain row h3 where z: "serialize te buf1 h2 = (row, h3)" by (rule prod.exhaust)
  note h1 = fill_auto_increment_frame [OF f] and h2 = new_row_pk_frame [OF n] and h3 = serialize_frame [OF z]
  have pk: "pk = fst (new_row_pk te buf1 h)" using n h1(2) [of buf1] by simp
  have hh: "same_stmt h h3" using same_stmt_trans [OF same_stmt_trans [OF h1(1) h2(1)] h3(1)] .
  have txn3: "h_stmt_txn h3 = Some t" using hh txn by (simp add: same_stmt_def)
  define h5 where "h5 = cache_vars th (mark_stmt_dirty h3)"
  have h5: "h_eng h5 = h_eng h" "same_bulk h h5" "h_dup_iter h5 = h_dup_iter h" "h_vars h5 = h_vars (cache_vars th h)"
    "h_can_replace h5 = h_can_replace h"
    using hh by (simp_all add: h5_def cache_vars_def mark_stmt_dirty_def same_stmt_def same_bulk_def mark_dirty_def)
  have ens: "ensure_stmt_txn E te th h3 = (HA_OK, h3)" by (simp add: ensure_stmt_txn_def txn3)
  have md: "h_eng (mark_stmt_dirty h3) = h_eng h" using hh by (simp add: mark_stmt_dirty_def mark_dirty_def same_stmt_def)
  note run' = run [unfolded write_row_def f prod.case n z ens txn3 option.case Let_def if_False if_True simp_thms, folded h5_def]
  show ?thesis
  proof (cases "ai_err \<noteq> HA_OK \<or> encrypted (h_enc h3) \<and> row = [] \<or> lock_new_row te pk (mark_stmt_dirty h3) \<noteq> HA_OK")
    case True
    then have "err \<noteq> HA_OK \<and> h_eng h' = h_eng h"
      using run' h1(1) hh md by (auto simp: same_stmt_def split: if_splits)
    then show ?thesis ..
  next
    case False
    then have b: "buf' = buf1" and rest: "case check_pk E te t g pk h5 of (perr, h6) \<Rightarrow>
          if perr \<noteq> HA_OK then err = perr \<and> h' = h6
          else case unique_pass C te t buf1 h6 of (uerr, h7) \<Rightarrow>
            if uerr \<noteq> HA_OK then err = uerr \<and> h' = h7
            else store_row E te t pk row buf1 h7 = (err, h')"
      using run' by (auto simp: unique_pass_def split: prod.splits if_splits)
    have "row_stored te (encrypted (h_enc h)) buf' row" using h3(2) h1(3) h2(2) b by simp
    then show ?thesis
      using h5 rest unfolding b pk [symmetric] f fst_conv snd_conv
      by (intro disjI2 exI [of _ h5] exI [of _ row] conjI)
  qed
qed

lemma write_row_inv:
  assumes laws: "engine_laws E B" "cursor_laws E B C V" "single_delete_laws E B C SD once" and txn: "h_stmt_txn h = Some t"
    and run: "write_row E C te th r buf h = (err, buf', h')"
  shows "(err \<noteq> HA_OK \<and> cell B once t (h_eng h') = cell B once t (h_eng h)) \<or>
    (\<exists>h5 h6 h7 row. h_eng h5 = h_eng h \<and> h_dup_iter h5 = h_dup_iter h \<and> h_vars h5 = h_vars (cache_vars th h) \<and>
       h_can_replace h5 = h_can_replace h \<and> row_stored te (encrypted (h_enc h)) buf' row \<and>
       check_pk E te t (fst (snd (snd (fill_auto_increment te r buf h)))) (fst (new_row_pk te buf' h)) h5 = (HA_OK, h6) \<and>
       unique_pass C te t buf' h6 = (HA_OK, h7) \<and> cell B once t (h_eng h7) = cell B once t (h_eng h) \<and> same_bulk h h7 \<and>
       store_row E te t (fst (new_row_pk te buf' h)) row buf' h7 = (err, h'))"
  using write_row_reaches_checks [OF txn run]
proof (elim disjE exE conjE)
  assume "err \<noteq> HA_OK" "h_eng h' = h_eng h"
  then show ?thesis by simp
next
  fix h5 row
  let ?pk = "fst (new_row_pk te buf' h)" and ?g = "fst (snd (snd (fill_auto_increment te r buf h)))"
  assume h5: "h_eng h5 = h_eng h" "same_bulk h h5" "h_dup_iter h5 = h_dup_iter h" "h_vars h5 = h_vars (cache_vars th h)"
    "h_can_replace h5 = h_can_replace h" "row_stored te (encrypted (h_enc h)) buf' row"
    and rest: "case check_pk E te t ?g ?pk h5 of (perr, h6) \<Rightarrow>
          if perr \<noteq> HA_OK then err = perr \<and> h' = h6
          else case unique_pass C te t buf' h6 of (uerr, h7) \<Rightarrow>
            if uerr \<noteq> HA_OK then err = uerr \<and> h' = h7
            else store_row E te t ?pk row buf' h7 = (err, h')"
  obtain perr h6 where c: "check_pk E te t ?g ?pk h5 = (perr, h6)" by (rule prod.exhaust)
  obtain uerr h7 where u: "unique_pass C te t buf' h6 = (uerr, h7)" by (rule prod.exhaust)
  have c6: "cell B once t (h_eng h6) = cell B once t (h_eng h)" "same_bulk h h6"
    using check_pk_frame(1,2) [OF laws(1,3) c] h5 by (simp_all add: same_bulk_def)
  have "cell B once t (h_eng h7) = cell B once t (h_eng h6) \<and> same_bulk h6 h7"
    using u check_unique_keys_frame [OF laws(2,3)] by (auto simp: unique_pass_def same_bulk_def split: if_splits)
  then have c7: "cell B once t (h_eng h7) = cell B once t (h_eng h)" "same_bulk h h7"
    using c6 by (simp_all add: same_bulk_def)
  show ?thesis
  proof (cases "perr = HA_OK \<and> uerr = HA_OK")
    case True
    then have "store_row E te t ?pk row buf' h7 = (err, h')" using rest by (simp add: c u)
    then show ?thesis using h5 c u c7 True by blast
  next
    case False
    then show ?thesis using rest c6 c7 by (auto simp: c u split: if_splits)
  qed
qed

lemma new_row_ok:
  assumes "row_ok te q buf"
  shows "row_ok te (fst (new_row_pk te buf h)) buf"
proof -
  have "te_pk te \<noteq> None \<Longrightarrow> row_pk te a buf = row_pk te b buf" for a b
    by (auto simp: row_pk_def pk_from_record_def pk_info_def)
  moreover have "te_pk te = None \<Longrightarrow> row_pk te a buf = a" for a
    by (simp add: row_pk_def pk_from_record_def pk_info_def built_def)
  ultimately have "row_pk te (fst (new_row_pk te buf h)) buf = fst (new_row_pk te buf h)"
    by (cases "te_pk te") (auto simp: new_row_pk_def)
  then show ?thesis using assms by (simp add: row_ok_def)
qed

lemma data_view:
  assumes "table_sim te enc rows (cell B once t e)"
  shows "ob_view B e t (te_cf te, build_data_key pk) = None \<longleftrightarrow> rows pk = None"
  using table_simD(4,5) [OF assms] by (cases "rows pk") (auto simp: cell_def)


text \<open>C12: unique columns stay unique. When no iterator of an earlier row is kept and the iterator calls
  do not fail, a successful \<open>write_row\<close> with the checks on found no row that agrees with the new row in
  all columns of a UNIQUE index.\<close>

theorem unique_insert:
  assumes laws: "engine_laws E B" "cursor_laws E B C V" "single_delete_laws E B C SD once" "cursor_total C"
    and txn: "h_stmt_txn h = Some t" and sim: "table_sim te enc rows (cell B once t (h_eng h))"
    and run: "write_row E C te th in_rec0 buf h = (HA_OK, buf', h')" and fresh: "\<forall>i. h_dup_iter h i = None"
    and checks: "\<not> sv_skip_unique_check (h_vars (cache_vars th h))" and x: "x \<in> set (sec_keys te)"
  shows "unique_ok te rows buf' x"
proof -
  obtain h5 h6 h7 row where h5: "h_eng h5 = h_eng h" "h_dup_iter h5 = h_dup_iter h" "h_vars h5 = h_vars (cache_vars th h)"
    and c: "check_pk E te t (fst (snd (snd (fill_auto_increment te in_rec0 buf h)))) (fst (new_row_pk te buf' h)) h5 = (HA_OK, h6)"
    and u: "unique_pass C te t buf' h6 = (HA_OK, h7)"
    using write_row_inv [OF laws(1-3) txn run] by auto
  note fr = check_pk_frame [OF laws(1,3) c]
  have "0 < num_secondary_indexes te" using sec_keys_none [of te] x by (cases "num_secondary_indexes te") auto
  then have "check_unique_keys C te t buf' (sec_keys te) h6 = (HA_OK, h7)"
    using u checks h5 fr by (simp add: unique_pass_def)
  from check_unique_keys_ok [OF laws(2,3,4) _ subset_refl sec_keys_indexes _ this, of enc rows] sim fresh h5 fr x
  show ?thesis by simp
qed

section \<open>Delete\<close>

lemma old_entry_there:
  assumes "wf_table te" "(i, kd, cf) \<in> set (sec_keys te)" "table_sim te enc rows c" "rows pk = Some row"
    "k \<in> fst ` set (index_entries te kd pk row)"
  shows "fst (c (cf, k)) = map_of (index_entries te kd pk row) k"
  using index_sim_entry [OF assms(1,2) table_simD(2) [OF assms(3,2)] table_simD(1) [OF assms(3)] assms(4,5)] .

lemma delete_indexes_cells:
  assumes laws: "engine_laws E B" "single_delete_laws E B C SD once" and work: "unchecked_deletes_work te SD once t"
    and wf: "wf_table te" and sim: "table_sim te enc rows c" and row: "rows pk = Some row"
    and run: "delete_indexes E SD te t pk row (sec_keys te) e = (TDB_SUCCESS, e')"
    and start: "\<forall>(i, kd, cf)\<in>set (sec_keys te). \<forall>k. cell B once t e (cf, k) = c (cf, k)"
  shows "\<forall>(i, kd, cf)\<in>set (sec_keys te). replaced cf (index_entries te kd pk row) [] c (cell B once t e')"
    "kept te ((\<lambda>(i, kd, cf). cf) ` set (sec_keys te)) (cell B once t e) (cell B once t e')"
proof -
  have "(\<forall>(i, kd, cf)\<in>set (sec_keys te). replaced cf (index_entries te kd pk row) [] c (cell B once t e')) \<and>
    kept te ((\<lambda>(i, kd, cf). cf) ` set (sec_keys te)) (cell B once t e) (cell B once t e') \<and> True"
  proof (rule run_indexes [where f = "delete_index E SD te t pk row" and run = "delete_indexes E SD te t pk row"
        and ab = "cell B once t" and P = "\<lambda>_. True" and ys = "sec_keys te"])
    fix i kd cf s s'
    assume x: "(i, kd, cf) \<in> set (sec_keys te)" and del: "delete_index E SD te t pk row (i, kd, cf) s = (TDB_SUCCESS, s')"
      and eq: "\<forall>k. cell B once t s (cf, k) = c (cf, k)"
    have "tidy cf (cell B once t s)" using table_simD(3) [OF sim x] tidy_cong [OF eq] by simp
    moreover have "fst (cell B once t s (cf, k)) \<noteq> None" if k: "k \<in> fst ` set (index_entries te kd pk row)" for k
      using old_entry_there [OF wf x sim row k] eq k by (auto simp: map_of_eq_None_iff)
    ultimately show "replaced cf (index_entries te kd pk row) [] c (cell B once t s') \<and>
        kept te {cf} (cell B once t s) (cell B once t s') \<and> True"
      using delete_index_cells [OF laws work wf x table_simD(1) [OF sim row] del] replaced_cong [OF eq] by blast
  qed (use run start sec_cfs(2) [OF wf] in simp_all)
  then show "\<forall>(i, kd, cf)\<in>set (sec_keys te). replaced cf (index_entries te kd pk row) [] c (cell B once t e')"
    "kept te ((\<lambda>(i, kd, cf). cf) ` set (sec_keys te)) (cell B once t e) (cell B once t e')" by blast+
qed

lemma cell_delete_cf:
  assumes "engine_laws E B" "single_delete_laws E B C SD once" "tidesdb_txn_delete_cf E SD t cf k single e = (TDB_SUCCESS, e')"
    "single \<longrightarrow> once e t (cf, k)"
  shows "x \<noteq> (cf, k) \<Longrightarrow> cell B once t e' x = cell B once t e x" "fst (cell B once t e' (cf, k)) = None"
  using assms(3,4) cell_delete [OF assms(1,2)] cell_single_delete [OF assms(2)]
  by (auto simp: tidesdb_txn_delete_cf_def cell_def split: if_splits)


section \<open>Update\<close>

text \<open>A statement that moves a row to another key also writes the columns of its full-text and spatial
  indexes.\<close>

definition rekeyed :: "table_env \<Rightarrow> (nat \<Rightarrow> bool) \<Rightarrow> bytes \<Rightarrow> bytes \<Rightarrow> bool" where
  "rekeyed te ws old_pk new_pk \<longleftrightarrow> old_pk = new_pk \<or>
     (\<forall>(i, kd, cf)\<in>set (sec_keys te). kd_fts kd \<or> kd_spatial kd \<longrightarrow> in_write_set ws (kd_info kd))"

lemma update_indexes_cells:
  assumes laws: "engine_laws E B" "single_delete_laws E B C SD once" and work: "unchecked_deletes_work te SD once t"
    and wf: "wf_table te" and sim: "table_sim te enc rows c" and row: "rows old_pk = Some old" and ok: "row_ok te new_pk new"
    and free: "new_pk \<noteq> old_pk \<longrightarrow> rows new_pk = None" and same: "unwritten_same te ws old new" and rekey: "rekeyed te ws old_pk new_pk"
    and run: "update_indexes E SD te ws t ttl old_pk new_pk old new (sec_keys te) e = (TDB_SUCCESS, e')"
    and start: "\<forall>(i, kd, cf)\<in>set (sec_keys te). \<forall>k. cell B once t e (cf, k) = c (cf, k)"
  shows "\<forall>(i, kd, cf)\<in>set (sec_keys te). replaced cf (index_entries te kd old_pk old) (index_entries te kd new_pk new) c (cell B once t e')"
    "kept te ((\<lambda>(i, kd, cf). cf) ` set (sec_keys te)) (cell B once t e) (cell B once t e')"
proof -
  let ?old = "\<lambda>kd. index_entries te kd old_pk old" and ?new = "\<lambda>kd. index_entries te kd new_pk new"
  have "(\<forall>(i, kd, cf)\<in>set (sec_keys te). replaced cf (?old kd) (?new kd) c (cell B once t e')) \<and>
    kept te ((\<lambda>(i, kd, cf). cf) ` set (sec_keys te)) (cell B once t e) (cell B once t e') \<and> True"
  proof (rule run_indexes [where f = "update_index E SD te ws t ttl old_pk new_pk old new"
        and run = "update_indexes E SD te ws t ttl old_pk new_pk old new" and ab = "cell B once t" and P = "\<lambda>_. True" and ys = "sec_keys te"])
    fix i kd cf s s'
    assume x: "(i, kd, cf) \<in> set (sec_keys te)" and upd: "update_index E SD te ws t ttl old_pk new_pk old new (i, kd, cf) s = (TDB_SUCCESS, s')"
      and eq: "\<forall>k. cell B once t s (cf, k) = c (cf, k)"
    have "replaced cf (?old kd) (?new kd) (cell B once t s) (cell B once t s') \<and> kept te {cf} (cell B once t s) (cell B once t s')"
    proof (rule update_index_cells [OF laws work wf x table_simD(1) [OF sim row] ok _ same _ _ _ upd])
      show "tidy cf (cell B once t s)" using table_simD(3) [OF sim x] tidy_cong [OF eq] by simp
      show "in_write_set ws (kd_info kd)" if "old_pk \<noteq> new_pk" "kd_fts kd \<or> kd_spatial kd"
        using rekey x that by (auto simp: rekeyed_def)
      show "fst (cell B once t s (cf, k)) = map_of (?old kd) k" if k: "k \<in> fst ` set (?old kd)" for k
        using old_entry_there [OF wf x sim row k] eq by simp
      show "fst (cell B once t s (cf, k)) = None" if k: "k \<in> fst ` set (?new kd)" "k \<notin> fst ` set (?old kd)" for k
        using new_keys_fresh [OF wf x sim ok _ k(1), of old_pk] k(2) free eq by (simp add: old_entries_def row)
    qed
    then show "replaced cf (?old kd) (?new kd) c (cell B once t s') \<and> kept te {cf} (cell B once t s) (cell B once t s') \<and> True"
      using replaced_cong [OF eq] by blast
  qed (use run start sec_cfs(2) [OF wf] in simp_all)
  then show "\<forall>(i, kd, cf)\<in>set (sec_keys te). replaced cf (?old kd) (?new kd) c (cell B once t e')"
    "kept te ((\<lambda>(i, kd, cf). cf) ` set (sec_keys te)) (cell B once t e) (cell B once t e')" by blast+
qed

lemma move_row_cells:
  assumes laws: "engine_laws E B" "single_delete_laws E B C SD once"
    and run: "move_row E SD te t single ttl old_pk new_pk row e = (TDB_SUCCESS, e')"
    and single: "single \<and> old_pk \<noteq> new_pk \<longrightarrow> once e t (te_cf te, build_data_key old_pk)"
  shows "x \<notin> {(te_cf te, build_data_key old_pk), (te_cf te, build_data_key new_pk)} \<Longrightarrow> cell B once t e' x = cell B once t e x"
    "fst (cell B once t e' (te_cf te, build_data_key new_pk)) = Some row"
    "old_pk \<noteq> new_pk \<Longrightarrow> fst (cell B once t e' (te_cf te, build_data_key old_pk)) = None"
proof -
  obtain rc e1 where d: "(if old_pk \<noteq> new_pk then tidesdb_txn_delete_cf E SD t (te_cf te) (build_data_key old_pk) single e
            else (TDB_SUCCESS, e)) = (rc, e1)" by (rule prod.exhaust)
  have p: "rc = TDB_SUCCESS" "txn_put E t (te_cf te) (build_data_key new_pk) row ttl e1 = (TDB_SUCCESS, e')"
    using run by (auto simp: move_row_def d split: if_splits)
  note cp = cell_put [OF laws p(2)]
  have d1: "e1 = e" if "old_pk = new_pk" using d that by simp
  have d2: "tidesdb_txn_delete_cf E SD t (te_cf te) (build_data_key old_pk) single e = (TDB_SUCCESS, e1)" if "old_pk \<noteq> new_pk"
    using d p(1) that by simp
  have e1: "cell B once t e1 x = cell B once t e x" if "x \<noteq> (te_cf te, build_data_key old_pk)" for x
    by (cases "old_pk = new_pk") (use d1 cell_delete_cf(1) [OF laws d2 _ that] single in blast)+
  have e2: "fst (cell B once t e1 (te_cf te, build_data_key old_pk)) = None" if "old_pk \<noteq> new_pk"
    using cell_delete_cf(2) [OF laws d2 [OF that]] single that by simp
  show "x \<notin> {(te_cf te, build_data_key old_pk), (te_cf te, build_data_key new_pk)} \<Longrightarrow> cell B once t e' x = cell B once t e x"
    "fst (cell B once t e' (te_cf te, build_data_key new_pk)) = Some row"
    "old_pk \<noteq> new_pk \<Longrightarrow> fst (cell B once t e' (te_cf te, build_data_key old_pk)) = None"
    using cp(2) cp(1) [of "(te_cf te, build_data_key old_pk)"] e2 cp(1) [of x] e1 [of x] by auto
qed


end
