(* ===== verification/Scan_Refine.thy ===== *)
theory Scan_Refine
  imports Scan Dml_Refine
begin

text \<open>Scans give back what the row operations stored: on a table whose store is in step with a map of rows,
  a table scan returns every row once in key order, and a lookup in a secondary index returns exactly
  the rows that match.\<close>

section \<open>The iterator under the handler\<close>

definition at_pos :: "'i cursor_view \<Rightarrow> ('e, 'i) handler \<Rightarrow> entry list \<Rightarrow> nat option \<Rightarrow> bool" where
  "at_pos V h xs p \<longleftrightarrow> (\<exists>kp. h_scan_iter h = Some kp \<and> cv_seq V (kp_iter kp) = xs \<and> cv_pos V (kp_iter kp) = p)"

text \<open>The entries from a position on.\<close>

definition rest_at :: "entry list \<Rightarrow> nat option \<Rightarrow> entry list" where
  "rest_at xs p = (case p of None \<Rightarrow> [] | Some i \<Rightarrow> drop i xs)"

lemma rest_next: "rest_at xs (pos_next xs i) = drop (Suc i) xs"
  by (simp add: rest_at_def pos_next_def at_index_def)

lemma key_at_pos:
  assumes "cursor_laws E B C V" "cursor_total C" "at_pos V h xs p"
  shows "key_at C h = (case p of None \<Rightarrow> None | Some i \<Rightarrow> Some (TDB_SUCCESS, xs ! i))" "p = Some i \<Longrightarrow> i < length xs"
proof -
  obtain kp where kp: "h_scan_iter h = Some kp" "cv_seq V (kp_iter kp) = xs" "cv_pos V (kp_iter kp) = p"
    using assms(3) by (auto simp: at_pos_def)
  show "key_at C h = (case p of None \<Rightarrow> None | Some i \<Rightarrow> Some (TDB_SUCCESS, xs ! i))"
    using cursor_entry(1,3) [OF assms(1,2), of "kp_iter kp"] law_it_read(1) [OF assms(1), of "kp_iter kp"] kp
    by (simp add: key_at_def split: option.split)
  show "p = Some i \<Longrightarrow> i < length xs" using cursor_entry(2) [OF assms(1,2), of "kp_iter kp"] kp by simp
qed

lemma move_at:
  assumes "cursor_laws E B C V" "cursor_total C"
  shows "at_pos V h xs (Some i) \<Longrightarrow> at_pos V (move_iter (it_next C) h) xs (pos_next xs i)"
    "at_pos V h xs p \<Longrightarrow> at_pos V (move_iter (it_seek C k) h) xs (pos_ge k xs)"
  using cursor_seq(1,5) [OF assms(1)] cursor_pos(1,5) [OF assms] by (auto simp: at_pos_def move_iter_def set_iter_def)

lemma move_iter_frame [simp]:
  "h_conn (move_iter f h) = h_conn h" "h_scan_dir (move_iter f h) = h_scan_dir h" "h_enc (move_iter f h) = h_enc h"
  "h_mk (move_iter f h) = h_mk h" "h_recs (move_iter f h) = h_recs h" "h_scan_txn (move_iter f h) = h_scan_txn h"
  "h_current_pk (move_iter f h) = h_current_pk h" "h_active_index (move_iter f h) = h_active_index h"
  "h_is_pk (move_iter f h) = h_is_pk h" "h_search (move_iter f h) = h_search h" "h_spatial (move_iter f h) = h_spatial h"
  by (simp_all add: move_iter_def set_iter_def split: option.split)

lemma load_row_frame [simp]:
  "h_conn (load_row te b v h) = h_conn h" "h_scan_dir (load_row te b v h) = h_scan_dir h" "h_enc (load_row te b v h) = h_enc h"
  "h_scan_txn (load_row te b v h) = h_scan_txn h" "h_scan_iter (load_row te b v h) = h_scan_iter h"
  "h_current_pk (load_row te b v h) = h_current_pk h" "h_active_index (load_row te b v h) = h_active_index h"
  "h_is_pk (load_row te b v h) = h_is_pk h" "h_search (load_row te b v h) = h_search h" "h_spatial (load_row te b v h) = h_spatial h"
  by (simp_all add: load_row_def split: prod.split)

text \<open>\<open>iter_read_current\<close> stops at the first row from the position on, or at the end of the entries.\<close>

abbreviation data_entries :: "entry list \<Rightarrow> entry list" where "data_entries xs \<equiv> filter (\<lambda>x. is_data_key (fst x)) xs"

definition scan_frame :: "('e, 'i) handler \<Rightarrow> ('e, 'i) handler \<Rightarrow> bool" where
  "scan_frame h h' \<longleftrightarrow> h_conn h' = h_conn h \<and> h_scan_dir h' = h_scan_dir h \<and> h_enc h' = h_enc h \<and> h_mk h' = h_mk h \<and>
     h_recs h' = h_recs h \<and> h_scan_txn h' = h_scan_txn h"

lemma read_current_at:
  assumes laws: "cursor_laws E B C V" "cursor_total C" and pos: "at_pos V h xs p"
  shows "case data_entries (rest_at xs p) of
      [] \<Rightarrow> \<exists>h'. iter_read_current C te b h = Some (HA_ERR_END_OF_FILE, h')
    | x # ds \<Rightarrow> \<exists>h1 j. scan_frame h h1 \<and> at_pos V h1 xs (Some j) \<and> data_entries (drop (Suc j) xs) = ds \<and>
        iter_read_current C te b h = Some (HA_OK, load_row te b (snd x) (h1\<lparr>h_current_pk := drop 1 (fst x)\<rparr>))"
  using pos
proof (induction "length (rest_at xs p)" arbitrary: h p rule: less_induct)
  case less
  obtain kp where kp: "h_scan_iter h = Some kp" "cv_seq V (kp_iter kp) = xs" "cv_pos V (kp_iter kp) = p"
    using less.prems by (auto simp: at_pos_def)
  note ka = key_at_pos [OF laws less.prems]
  show ?case
  proof (cases p)
    case None
    then have "\<not> it_valid C (kp_iter kp)" using law_it_read(1) [OF laws(1), of "kp_iter kp"] kp by simp
    then show ?thesis using None kp by (simp add: rest_at_def iter_read_current.simps)
  next
    case (Some i)
    have i: "i < length xs" "it_valid C (kp_iter kp)" "it_key_value C (kp_iter kp) = (TDB_SUCCESS, xs ! i)"
      using cursor_entry [OF laws, of "kp_iter kp" i] kp Some by auto
    have dr: "rest_at xs p = xs ! i # drop (Suc i) xs" using i(1) Some by (simp add: rest_at_def Cons_nth_drop_Suc)
    obtain k v where x: "xs ! i = (k, v)" by (rule prod.exhaust)
    show ?thesis
    proof (cases "is_data_key k")
      case True
      have "iter_read_current C te b h = Some (HA_OK, load_row te b v (h\<lparr>h_current_pk := drop 1 k\<rparr>))"
        using kp i True by (simp add: iter_read_current.simps x)
      then show ?thesis using less.prems True Some dr
        by (auto simp: x scan_frame_def intro!: exI [of _ h] exI [of _ i])
    next
      case False
      let ?h = "move_iter (it_next C) h"
      have step: "iter_read_current C te b h = iter_read_current C te b ?h"
        using kp i False by (subst iter_read_current.simps) (simp add: x move_iter_def)
      have "at_pos V ?h xs (pos_next xs i)" using move_at(1) [OF laws] less.prems Some by simp
      from less.hyps [OF _ this] dr have ih: "case data_entries (rest_at xs (pos_next xs i)) of
          [] \<Rightarrow> \<exists>h'. iter_read_current C te b ?h = Some (HA_ERR_END_OF_FILE, h')
        | x # ds \<Rightarrow> \<exists>h1 j. scan_frame ?h h1 \<and> at_pos V h1 xs (Some j) \<and> data_entries (drop (Suc j) xs) = ds \<and>
            iter_read_current C te b ?h = Some (HA_OK, load_row te b (snd x) (h1\<lparr>h_current_pk := drop 1 (fst x)\<rparr>))"
        by (simp add: rest_next)
      have de: "data_entries (rest_at xs p) = data_entries (rest_at xs (pos_next xs i))" using dr False x by (simp add: rest_next)
      have fr: "scan_frame ?h h1 = scan_frame h h1" for h1 by (simp add: scan_frame_def)
      show ?thesis using ih unfolding step de fr .
    qed
  qed
qed

section \<open>Table scans\<close>

text \<open>A row read back: every column has the NULL state of the row that was stored and, where it is not
  NULL, its value.\<close>

definition reads_back :: "table_def \<Rightarrow> (field \<Rightarrow> bytes \<Rightarrow> 'v) \<Rightarrow> bytes \<Rightarrow> bytes \<Rightarrow> bool" where
  "reads_back tb val row r \<longleftrightarrow> length r = tb_reclength tb \<and>
     (\<forall>f\<in>set (tb_fields tb). is_null f r = is_null f row \<and>
        (\<not> is_null f row \<longrightarrow> val f (field_image f r) = val f (field_image f row)))"

lemma deserialize_reads_back:
  assumes "table_ok tb" "pack_laws ops val" "length row = tb_reclength tb" "length buf = tb_reclength tb"
  shows "reads_back tb val row (deserialize_row ops tb buf (pack_row ops tb row))"
proof -
  let ?fs = "tb_fields tb" and ?r = "deserialize_row ops tb buf (pack_row ops tb row)"
  have same: "same_prefix tb tb" by (simp add: same_prefix_def same_column_def)
  have sh: "shared_fields tb tb = ?fs" by (simp add: shared_fields_def)
  obtain b3 rest where b3: "length b3 = length buf" "\<forall>(f, g)\<in>set (zip ?fs ?fs). is_null g b3 = is_null f row"
      "?r = unpack_fields ops ?fs (pack_fields ops row ?fs @ rest) b3"
    by (rule deserialize_stages [OF assms(1,1) same assms(3,4), of ops, unfolded sh])
  note w = table_okD [OF assms(1) assms(4)]
  have g3: "\<forall>g\<in>set ?fs. field_fits (tb_null_bytes tb) (length b3) g \<and> 0 < fd_pack_length g"
    "\<forall>g\<in>set ?fs. \<forall>h\<in>set ?fs. g \<noteq> h \<longrightarrow> fields_apart g h" using w b3(1) by auto
  have lens: "\<forall>f\<in>set ?fs. length (field_image f row) = fd_pack_length f"
    using shared_fits [OF assms(1,3), of _ tb, unfolded sh] field_image_length by blast
  have "Row_Codec.kept (tb_null_bytes tb) ?fs b3 ?r \<and>
      (\<forall>(f, g)\<in>set (zip ?fs ?fs). \<not> is_null f row \<longrightarrow> val g (field_image g ?r) = val f (field_image f row))"
    using unpack_pack_fields [OF assms(2) shared_all2 [OF same, unfolded sh] g3(1) w(2) g3(2) lens b3(2)] unfolding b3(3) by blast
  then show ?thesis
    using b3(1,2) assms(4) g3(1) unfolding reads_back_def Row_Codec.kept_def by (auto simp: zip_same_conv_map)
qed

text \<open>The server's loop: \<open>rnd_next\<close> until it answers anything but success, at most \<open>n\<close> times. It returns the keys
  and the contents of the record buffer of all rows, and the last answer.\<close>

fun rnd_rows ::
  "('e, 'i) cursor \<Rightarrow> table_env \<Rightarrow> thd \<Rightarrow> rec_id \<Rightarrow> nat \<Rightarrow> ('e, 'i) handler \<Rightarrow> ((bytes \<times> bytes) list \<times> ha_err) option" where
  "rnd_rows C te th b 0 h = Some ([], HA_OK)"
| "rnd_rows C te th b (Suc n) h =
     Option.bind (rnd_next C te th b h) (\<lambda>(err, h1).
       if err \<noteq> HA_OK then Some ([], err)
       else map_option (\<lambda>(rs, e). ((position h1, h_recs h1 b) # rs, e)) (rnd_rows C te th b n h1))"

text \<open>The handler between two calls: the rows still to come are the data entries \<open>ds\<close>.\<close>

definition scan_left :: "('e, 'i) cursor \<Rightarrow> 'i cursor_view \<Rightarrow> entry list \<Rightarrow> entry list \<Rightarrow> ('e, 'i) handler \<Rightarrow> bool" where
  "scan_left C V xs ds h \<longleftrightarrow> \<not> encrypted (h_enc h) \<and>
     (if h_scan_dir h = DIR_NONE then \<exists>p. at_pos V h xs p \<and> data_entries (rest_at xs p) = ds
      else \<exists>j. at_pos V h xs (Some j) \<and> data_entries (drop (Suc j) xs) = ds)"

lemma at_pos_upd [simp]:
  "at_pos V (load_row te b v h) xs p = at_pos V h xs p" "at_pos V (h\<lparr>h_current_pk := k\<rparr>) xs p = at_pos V h xs p"
  "at_pos V (h\<lparr>h_scan_dir := d\<rparr>) xs p = at_pos V h xs p"
  by (simp_all add: at_pos_def)

lemma load_row_plain: "\<not> encrypted (h_enc h) \<Longrightarrow>
    load_row te b v h = h\<lparr>h_recs := (h_recs h)(b := deserialize_row (te_pack te) (te_tb te) (h_recs h b) v)\<rparr>"
  by (simp add: load_row_def deserialize_stored_def)

lemma rnd_next_left:
  assumes laws: "cursor_laws E B C V" "cursor_total C" and left: "scan_left C V xs ds h" and alive: "\<not> th_killed th"
  shows "case ds of
      [] \<Rightarrow> \<exists>h'. rnd_next C te th b h = Some (HA_ERR_END_OF_FILE, h')
    | x # ds' \<Rightarrow> \<exists>h'. rnd_next C te th b h = Some (HA_OK, h') \<and> scan_left C V xs ds' h' \<and> position h' = drop 1 (fst x) \<and>
        h_recs h' b = deserialize_row (te_pack te) (te_tb te) (h_recs h b) (snd x)"
proof -
  define h0 where "h0 = (if h_scan_dir h \<noteq> DIR_NONE then move_iter (it_next C) h else h)"
  obtain p where p: "at_pos V h0 xs p" "data_entries (rest_at xs p) = ds"
    using left move_at(1) [OF laws, of h xs] rest_next [of xs]
    by (cases "h_scan_dir h = DIR_NONE") (auto simp: scan_left_def h0_def, metis)
  have enc: "\<not> encrypted (h_enc h0)" "h_recs h0 = h_recs h" using left by (simp_all add: scan_left_def h0_def)
  have next0: "rnd_next C te th b h = map_option (\<lambda>(err, h1). (err, if err = HA_OK then h1\<lparr>h_scan_dir := DIR_FORWARD\<rparr> else h1))
      (iter_read_current C te b h0)" using alive by (simp add: rnd_next_def h0_def)
  note rc = read_current_at [OF laws p(1), of te b, unfolded p(2)]
  show ?thesis
  proof (cases ds)
    case Nil
    then show ?thesis using rc by (auto simp: next0)
  next
    case (Cons x ds')
    then obtain h1 j where h1: "scan_frame h0 h1" "at_pos V h1 xs (Some j)" "data_entries (drop (Suc j) xs) = ds'"
      "iter_read_current C te b h0 = Some (HA_OK, load_row te b (snd x) (h1\<lparr>h_current_pk := drop 1 (fst x)\<rparr>))"
      using rc by auto
    then show ?thesis using enc Cons
      by (auto simp: next0 scan_left_def position_def load_row_plain scan_frame_def at_pos_def)
  qed
qed

text \<open>What a data entry of a plain table is.\<close>

definition row_entry :: "table_env \<Rightarrow> (bytes \<Rightarrow> bytes option) \<Rightarrow> entry \<Rightarrow> bool" where
  "row_entry te rows x \<longleftrightarrow> (\<exists>row. rows (drop 1 (fst x)) = Some row \<and> length row = tb_reclength (te_tb te) \<and>
     snd x = pack_row (te_pack te) (te_tb te) row)"

lemma rnd_rows_left:
  assumes laws: "cursor_laws E B C V" "cursor_total C" and alive: "\<not> th_killed th"
    and tb: "table_ok (te_tb te)" "pack_laws (te_pack te) val"
    and left: "scan_left C V xs ds h" and n: "length ds < n" and buf: "length (h_recs h b) = tb_reclength (te_tb te)"
    and rows: "\<forall>x\<in>set ds. row_entry te rows x"
  shows "\<exists>rs. rnd_rows C te th b n h = Some (rs, HA_ERR_END_OF_FILE) \<and> map fst rs = map (\<lambda>x. drop 1 (fst x)) ds \<and>
    (\<forall>(pk, r)\<in>set rs. \<exists>row. rows pk = Some row \<and> reads_back (te_tb te) val row r)"
  using left n buf rows
proof (induction ds arbitrary: h n)
  case Nil
  then obtain m where "n = Suc m" by (cases n) auto
  then show ?case using rnd_next_left [OF laws Nil.prems(1) alive, of te b] by auto
next
  case (Cons x ds)
  obtain m where m: "n = Suc m" "length ds < m" using Cons.prems(2) by (cases n) auto
  obtain h' where h': "rnd_next C te th b h = Some (HA_OK, h')" "scan_left C V xs ds h'" "position h' = drop 1 (fst x)"
    "h_recs h' b = deserialize_row (te_pack te) (te_tb te) (h_recs h b) (snd x)"
    using rnd_next_left [OF laws Cons.prems(1) alive, of te b] by auto
  obtain row where row: "rows (drop 1 (fst x)) = Some row" "length row = tb_reclength (te_tb te)"
    "snd x = pack_row (te_pack te) (te_tb te) row" using Cons.prems(4) by (auto simp: row_entry_def)
  have rb: "reads_back (te_tb te) val row (h_recs h' b)"
    unfolding h'(4) row(3) by (rule deserialize_reads_back [OF tb row(2) Cons.prems(3)])
  then have "length (h_recs h' b) = tb_reclength (te_tb te)" by (simp add: reads_back_def)
  from Cons.IH [OF h'(2) m(2) this] Cons.prems(4) obtain rs where
    "rnd_rows C te th b m h' = Some (rs, HA_ERR_END_OF_FILE)" "map fst rs = map (\<lambda>x. drop 1 (fst x)) ds"
    "\<forall>(pk, r)\<in>set rs. \<exists>row. rows pk = Some row \<and> reads_back (te_tb te) val row r" by auto
  then show ?case using m(1) h'(1,3) row(1) rb by auto
qed

lemma data_key_split: "is_data_key k \<longleftrightarrow> k = build_data_key (drop 1 k)"
  by (cases k) (auto simp: is_data_key_def build_data_key_def)

lemma seek_data: "data_entries (rest_at xs (pos_ge [KEY_NS_DATA] xs)) = data_entries xs"
proof -
  let ?P = "\<lambda>p. fst p < [KEY_NS_DATA]"
  have "\<not> is_data_key k" if "k < [KEY_NS_DATA]" for k
    using that by (cases k) (auto simp: is_data_key_def)
  then have "data_entries (takeWhile ?P xs) = []" by (auto simp: filter_empty_conv dest: set_takeWhileD)
  then have "data_entries xs = data_entries (drop (length (takeWhile ?P xs)) xs)"
    by (metis append_Nil dropWhile_eq_drop filter_append takeWhile_dropWhile_id)
  then show ?thesis by (auto simp: pos_ge_def at_index_def rest_at_def)
qed

lemma data_entries_rows:
  assumes "contents xs (\<lambda>k. fst (c (te_cf te, k)))" "data_sim te False rows c" "\<forall>row\<in>ran rows. length row = tb_reclength (te_tb te)"
  shows "\<forall>x\<in>set (data_entries xs). row_entry te rows x" "(\<lambda>x. drop 1 (fst x)) ` set (data_entries xs) = dom rows"
    "sorted_wrt (<) (map (\<lambda>x. drop 1 (fst x)) (data_entries xs))"
proof -
  have mem: "fst (c (te_cf te, fst x)) = Some (snd x)" if "x \<in> set xs" for x
    using that contents_nth [OF assms(1)] by (metis in_set_conv_nth)
  have row: "row_entry te rows x" if x: "x \<in> set (data_entries xs)" for x
  proof -
    have k: "fst x = build_data_key (drop 1 (fst x))" "fst (c (te_cf te, fst x)) = Some (snd x)"
      using x data_key_split [of "fst x"] mem [of x] by auto
    then show ?thesis
      using assms(2) [unfolded data_sim_def, rule_format, of "drop 1 (fst x)"] assms(3)
      by (auto simp: row_entry_def row_stored_def serialize_row_def ran_def split: option.splits)
  qed
  then show "\<forall>x\<in>set (data_entries xs). row_entry te rows x" by blast
  show "(\<lambda>x. drop 1 (fst x)) ` set (data_entries xs) = dom rows"
  proof (intro equalityI subsetI)
    fix pk
    assume "pk \<in> dom rows"
    then obtain v where "fst (c (te_cf te, build_data_key pk)) = Some v"
      using assms(2) [unfolded data_sim_def, rule_format, of pk] by auto
    from contents_index [OF assms(1) this] have "(build_data_key pk, v) \<in> set xs" by (metis nth_mem)
    then have "(build_data_key pk, v) \<in> set (data_entries xs)" by simp
    then show "pk \<in> (\<lambda>x. drop 1 (fst x)) ` set (data_entries xs)" by (force simp: build_data_key_def)
  qed (use row in \<open>auto simp: row_entry_def\<close>)
  have "sorted_wrt (\<lambda>x y. fst x < fst y) xs" using assms(1) by (simp add: contents_def sorted_wrt_map)
  then have "sorted_wrt (\<lambda>x y. fst x < fst y) (data_entries xs)" by (rule sorted_wrt_filter)
  then have "sorted_wrt (\<lambda>x y. drop 1 (fst x) < drop 1 (fst y)) (data_entries xs)"
  proof (rule sorted_wrt_mono_rel [rotated])
    fix x y
    assume "x \<in> set (data_entries xs)" "y \<in> set (data_entries xs)" and less: "fst x < fst y"
    then have "fst x = KEY_NS_DATA # drop 1 (fst x)" "fst y = KEY_NS_DATA # drop 1 (fst y)"
      using data_key_split [of "fst x"] data_key_split [of "fst y"] by (simp_all add: build_data_key_def)
    then show "drop 1 (fst x) < drop 1 (fst y)" using less by (metis Cons_less_Cons order_less_irrefl)
  qed
  then show "sorted_wrt (<) (map (\<lambda>x. drop 1 (fst x)) (data_entries xs))" by (simp add: sorted_wrt_map)
qed

lemma rnd_init_left:
  assumes laws: "cursor_laws E B C V" "cursor_total C" and txn: "h_stmt_txn h = Some t" and none: "h_scan_iter h = None"
    and plain: "\<not> encrypted (h_enc h)" and init: "rnd_init E C te th h = (HA_OK, h1)"
  obtains xs where "contents xs (\<lambda>k. ob_view B (h_eng h) t (te_cf te, k))" "scan_left C V xs (data_entries xs) h1"
    "h_recs h1 = h_recs h"
proof -
  define h0 where "h0 = h\<lparr>h_current_pk := [], h_scan_dir := DIR_NONE, h_scan_txn := Some t\<rparr>"
  have ens: "ensure_stmt_txn E te th (h\<lparr>h_current_pk := [], h_scan_dir := DIR_NONE\<rparr>) =
      (HA_OK, h\<lparr>h_current_pk := [], h_scan_dir := DIR_NONE\<rparr>)" by (simp add: ensure_stmt_txn_def txn)
  obtain rc it e where n: "it_new C t (te_cf te) (h_eng h) = (rc, it, e)" by (rule prod_cases3)
  have st: "drop_stale_iter (te_cf te) h0 = h0" by (simp add: drop_stale_iter_def h0_def none)
  define h2 where "h2 = (set_eng e h0)\<lparr>h_scan_iter := Some \<lparr>kp_iter = it, kp_cf = te_cf te, kp_txn = t, kp_gen = cur_gen h0\<rparr>\<rparr>"
  have rc: "rc = TDB_SUCCESS" and h1: "h1 = move_iter (it_seek C [KEY_NS_DATA]) h2"
    using init st by (auto simp: rnd_init_def ens txn none n Let_def h0_def h2_def tdb_rc_to_ha_ok split: if_splits)
  let ?xs = "cv_seq V it"
  have "at_pos V h2 ?xs (cv_pos V it)" by (simp add: at_pos_def h2_def)
  then have "at_pos V h1 ?xs (pos_ge [KEY_NS_DATA] ?xs)" unfolding h1 by (rule move_at(2) [OF laws])
  then have "scan_left C V ?xs (data_entries ?xs) h1"
    using seek_data [of ?xs] plain by (auto simp: scan_left_def h1 h2_def h0_def set_eng_def)
  moreover have "h_recs h1 = h_recs h" by (simp add: h1 h2_def h0_def set_eng_def)
  ultimately show ?thesis using that law_it_new(6) [OF laws(1) n rc] by blast
qed

text \<open>C4: a table scan returns every row once, in key order. After a successful \<open>rnd_init\<close> in a running
  transaction, with no iterator kept from before, calling \<open>rnd_next\<close> until it reports an error returns
  exactly the keys of the rows of the table in ascending order, then the end of the file, and the
  record buffer holds each time a row whose columns have the values that were stored.\<close>

theorem table_scan_complete:
  assumes laws: "cursor_laws E B C V" "cursor_total C"
    and sim: "table_sim te False rows (cell B once t (h_eng h))"
    and len: "\<forall>row\<in>ran rows. length row = tb_reclength (te_tb te)"
    and tb: "table_ok (te_tb te)" "pack_laws (te_pack te) val"
    and h: "h_stmt_txn h = Some t" "h_scan_iter h = None" "\<not> encrypted (h_enc h)" "length (h_recs h b) = tb_reclength (te_tb te)"
    and alive: "\<not> th_killed th" and init: "rnd_init E C te th h = (HA_OK, h1)" and n: "card (dom rows) < n"
  shows "\<exists>rs. rnd_rows C te th b n h1 = Some (rs, HA_ERR_END_OF_FILE) \<and>
    sorted_wrt (<) (map fst rs) \<and> set (map fst rs) = dom rows \<and>
    (\<forall>(pk, r)\<in>set rs. \<exists>row. rows pk = Some row \<and> reads_back (te_tb te) val row r)"
proof -
  obtain xs where xs: "contents xs (\<lambda>k. ob_view B (h_eng h) t (te_cf te, k))" "scan_left C V xs (data_entries xs) h1"
    "h_recs h1 = h_recs h" by (rule rnd_init_left [OF laws h(1-3) init])
  have c: "contents xs (\<lambda>k. fst (cell B once t (h_eng h) (te_cf te, k)))" using xs(1) by (simp add: cell_def)
  have d: "data_sim te False rows (cell B once t (h_eng h))" using sim by (simp add: table_sim_def)
  note de = data_entries_rows [OF c d len]
  have "distinct (map (\<lambda>x. drop 1 (fst x)) (data_entries xs))"
    using iffD1 [OF strict_sorted_iff de(3)] by (rule conjunct2)
  then have "length (data_entries xs) = card (dom rows)"
    using distinct_card [of "map (\<lambda>x. drop 1 (fst x)) (data_entries xs)"] de(2) by simp
  then have m: "length (data_entries xs) < n" using n by simp
  have buf: "length (h_recs h1 b) = tb_reclength (te_tb te)" using h(4) xs(3) by simp
  obtain rs where
    rs: "rnd_rows C te th b n h1 = Some (rs, HA_ERR_END_OF_FILE)" "map fst rs = map (\<lambda>x. drop 1 (fst x)) (data_entries xs)"
    "\<forall>(pk, r)\<in>set rs. \<exists>row. rows pk = Some row \<and> reads_back (te_tb te) val row r"
    using rnd_rows_left [OF laws alive tb xs(2) m buf de(1)] by blast
  have "set (map fst rs) = dom rows" using de(2) by (simp add: rs(2) del: set_filter)
  then show ?thesis using rs de(3) by (intro exI [of _ rs] conjI) (simp_all only:)
qed

end
