(* ===== verification/Scan_Index.thy ===== *)
theory Scan_Index
  imports Scan_Refine
begin

text \<open>Lookups in a secondary index. The server's protocol is \<open>index_init\<close>, \<open>index_read_map\<close> with the search
  key, then \<open>index_next_same\<close> until an error; together they return the rows whose index columns start
  with the search key.\<close>

text \<open>The server's loop over \<open>index_next_same\<close>, and the whole lookup. The number bounds the calls.\<close>

fun same_rows ::
  "'e engine \<Rightarrow> ('e, 'i) cursor \<Rightarrow> table_env \<Rightarrow> scan_env \<Rightarrow> thd \<Rightarrow> rec_id \<Rightarrow> nat \<Rightarrow> ('e, 'i) handler \<Rightarrow>
   ((bytes \<times> bytes) list \<times> ha_err) option" where
  "same_rows E C te sc th b 0 h = Some ([], HA_OK)"
| "same_rows E C te sc th b (Suc n) h =
     Option.bind (index_next_same E C te sc th b h) (\<lambda>(err, h1).
       if err \<noteq> HA_OK then Some ([], err)
       else map_option (\<lambda>(rs, e). ((position h1, h_recs h1 b) # rs, e)) (same_rows E C te sc th b n h1))"

definition lookup_rows ::
  "'e engine \<Rightarrow> ('e, 'i) cursor \<Rightarrow> table_env \<Rightarrow> scan_env \<Rightarrow> thd \<Rightarrow> rec_id \<Rightarrow> bytes \<Rightarrow> nat \<Rightarrow> nat \<Rightarrow> ('e, 'i) handler \<Rightarrow>
   ((bytes \<times> bytes) list \<times> ha_err) option" where
  "lookup_rows E C te sc th b key key_len n h =
     Option.bind (index_read_map E C te sc th b key key_len HA_READ_KEY_EXACT h) (\<lambda>(err, h1).
       if err \<noteq> HA_OK then Some ([], err)
       else map_option (\<lambda>(rs, e). ((position h1, h_recs h1 b) # rs, e)) (same_rows E C te sc th b n h1))"

text \<open>Point reads find what is there.\<close>

definition reads_answer :: "'e engine \<Rightarrow> bool" where
  "reads_answer E \<longleftrightarrow> (\<forall>t cf k e. fst (txn_get E t cf k e) \<in> {TDB_SUCCESS, TDB_ERR_NOT_FOUND})"

section \<open>One entry\<close>

text \<open>The entries of an index that start with the search key, and those still to come.\<close>

abbreviation with_key :: "bytes \<Rightarrow> entry list \<Rightarrow> entry list" where "with_key p xs \<equiv> takeWhile (\<lambda>x. prefix p (fst x)) xs"

definition lookup_ready ::
  "'e observer \<Rightarrow> table_env \<Rightarrow> store \<Rightarrow> nat \<Rightarrow> nat \<Rightarrow> bytes \<Rightarrow> rec_id \<Rightarrow> ('e, 'i) handler \<Rightarrow> bool" where
  "lookup_ready B te view t i p b h \<longleftrightarrow> \<not> encrypted (h_enc h) \<and> h_scan_txn h = Some t \<and> h_active_index h = Some i \<and>
     \<not> h_is_pk h \<and> h_spatial h = None \<and> h_search h = p \<and> ob_view B (h_eng h) t = view \<and>
     length (h_recs h b) = tb_reclength (te_tb te)"

text \<open>An entry of a regular index of a plain table: columns and key of a stored row.\<close>

definition index_row :: "table_env \<Rightarrow> store \<Rightarrow> (bytes \<Rightarrow> bytes option) \<Rightarrow> nat \<Rightarrow> bytes \<Rightarrow> bool" where
  "index_row te view rows i ik \<longleftrightarrow> idx_comp_key_len te i < length ik \<and>
     (\<exists>row. rows (drop (idx_comp_key_len te i) ik) = Some row \<and> length row = tb_reclength (te_tb te) \<and>
        view (te_cf te, build_data_key (drop (idx_comp_key_len te i) ik)) = Some (pack_row (te_pack te) (te_tb te) row))"

lemma fetch_row:
  assumes laws: "engine_laws E B" "reads_answer E" and tb: "table_ok (te_tb te)" "pack_laws (te_pack te) val"
    and h: "lookup_ready B te view t i p b h" and row: "index_row te view rows i ik"
  shows "\<exists>h' row. fetch_scan E te (drop (idx_comp_key_len te i) ik) b h = (HA_OK, h') \<and> lookup_ready B te view t i p b h' \<and>
    h_scan_iter h' = h_scan_iter h \<and> position h' = drop (idx_comp_key_len te i) ik \<and>
    rows (position h') = Some row \<and> reads_back (te_tb te) val row (h_recs h' b)"
proof -
  let ?pk = "drop (idx_comp_key_len te i) ik"
  obtain r where r: "rows ?pk = Some r" "length r = tb_reclength (te_tb te)"
    "view (te_cf te, build_data_key ?pk) = Some (pack_row (te_pack te) (te_tb te) r)" using row by (auto simp: index_row_def)
  obtain rc v e where g: "txn_get E t (te_cf te) (build_data_key ?pk) (h_eng h) = (rc, v, e)" by (rule prod_cases3)
  have hv: "ob_view B (h_eng h) t = view" "h_scan_txn h = Some t" "\<not> encrypted (h_enc h)" "length (h_recs h b) = tb_reclength (te_tb te)"
    using h by (simp_all add: lookup_ready_def)
  have "rc \<in> {TDB_SUCCESS, TDB_ERR_NOT_FOUND}" using laws(2) g unfolding reads_answer_def by (metis fst_conv)
  then have rc: "rc = TDB_SUCCESS" using law_get(6) [OF laws(1) g] r(3) hv(1) by auto
  then have v: "v = pack_row (te_pack te) (te_tb te) r" using law_get(5) [OF laws(1) g rc] r(3) hv(1) by simp
  let ?h = "(load_row te b v (set_eng e h))\<lparr>h_current_pk := ?pk\<rparr>"
  have "fetch_scan E te ?pk b h = (HA_OK, ?h)" by (simp add: fetch_scan_def hv(2) fetch_row_by_pk_def g rc)
  moreover have "reads_back (te_tb te) val r (h_recs ?h b)"
    using deserialize_reads_back [OF tb r(2) hv(4)] hv(3) by (simp add: load_row_plain set_eng_def v)
  moreover have "lookup_ready B te view t i p b ?h"
    using h law_get(4) [OF laws(1) g] calculation(2) hv(1) by (simp add: lookup_ready_def set_eng_def reads_back_def)
  ultimately show ?thesis using r(1) by (intro exI [of _ ?h] exI [of _ r]) (simp add: position_def set_eng_def)
qed

text \<open>Without a pushed condition and without covering reads, the loop looks at one entry.\<close>

lemma icp_loop_plain:
  assumes "se_pushed sc = None" "\<not> se_keyread sc"
  shows "icp_loop E C te sc th i b back same miss fin h =
     (case key_at C h of
        None \<Rightarrow> Some (miss, h)
      | Some (rc, ik, _) \<Rightarrow>
          if rc \<noteq> TDB_SUCCESS \<or> (case same of Some p \<Rightarrow> \<not> starts_with ik p | None \<Rightarrow> False) \<or> length ik \<le> idx_comp_key_len te i
          then Some (miss, h)
          else (case fetch_scan E te (drop (idx_comp_key_len te i) ik) b h of (err, h2) \<Rightarrow> Some (err, fin err h2)))"
  using assms by (subst icp_loop.simps) (simp add: icp_check_def read_entry_def split: option.split prod.split)

lemma starts_with_prefix: "starts_with ik p \<longleftrightarrow> prefix p ik"
  by (auto simp: starts_with_def prefix_take_iff not_less)

definition lookup_left :: "'i cursor_view \<Rightarrow> bytes \<Rightarrow> entry list \<Rightarrow> entry list \<Rightarrow> ('e, 'i) handler \<Rightarrow> bool" where
  "lookup_left V p xs ms h \<longleftrightarrow> (\<exists>j. at_pos V h xs (Some j) \<and> with_key p (drop (Suc j) xs) = ms)"

lemma lookup_dir [simp]:
  "lookup_ready B te view t i p b (h\<lparr>h_scan_dir := d\<rparr>) = lookup_ready B te view t i p b h"
  "lookup_left V p xs ms (h\<lparr>h_scan_dir := d\<rparr>) = lookup_left V p xs ms h" "position (h\<lparr>h_scan_dir := d\<rparr>) = position h"
  "lookup_ready B te view t i p b (move_iter f h) = lookup_ready B te view t i p b h"
  by (simp_all add: lookup_ready_def lookup_left_def position_def)

text \<open>What a call of the lookup delivers when the next entry is \<open>x\<close> and \<open>ms\<close> are those after it.\<close>

definition delivers ::
  "'e observer \<Rightarrow> 'i cursor_view \<Rightarrow> table_env \<Rightarrow> (field \<Rightarrow> bytes \<Rightarrow> 'v) \<Rightarrow> store \<Rightarrow> (bytes \<Rightarrow> bytes option) \<Rightarrow> nat \<Rightarrow> nat \<Rightarrow> bytes \<Rightarrow>
   rec_id \<Rightarrow> entry list \<Rightarrow> entry \<Rightarrow> entry list \<Rightarrow> (ha_err \<times> ('e, 'i) handler) option \<Rightarrow> bool" where
  "delivers B V te val view rows t i p b xs x ms res \<longleftrightarrow> (\<exists>h' row. res = Some (HA_OK, h') \<and>
     lookup_ready B te view t i p b h' \<and> lookup_left V p xs ms h' \<and> position h' = drop (idx_comp_key_len te i) (fst x) \<and>
     rows (position h') = Some row \<and> reads_back (te_tb te) val row (h_recs h' b))"

lemma loop_delivers:
  assumes laws: "engine_laws E B" "reads_answer E" "cursor_laws E B C V" "cursor_total C"
    and tb: "table_ok (te_tb te)" "pack_laws (te_pack te) val" and sc: "se_pushed sc = None" "\<not> se_keyread sc"
    and h: "lookup_ready B te view t i p b h" and pos: "at_pos V h xs q"
    and rows: "\<forall>x\<in>set (with_key p (rest_at xs q)). index_row te view rows i (fst x)"
    and fin: "\<forall>h. fin HA_OK h = h \<or> fin HA_OK h = h\<lparr>h_scan_dir := DIR_FORWARD\<rparr>"
  shows "case with_key p (rest_at xs q) of
      [] \<Rightarrow> icp_loop E C te sc th i b False (Some p) miss fin h = Some (miss, h)
    | x # ms \<Rightarrow> delivers B V te val view rows t i p b xs x ms (icp_loop E C te sc th i b False (Some p) miss fin h)"
proof -
  note ka = key_at_pos [OF laws(3,4) pos]
  note lp = icp_loop_plain [OF sc, of E C te th i b False "Some p" miss fin h]
  show ?thesis
  proof (cases q)
    case None
    then show ?thesis using ka(1) by (simp add: lp rest_at_def)
  next
    case (Some j)
    have dr: "rest_at xs q = xs ! j # drop (Suc j) xs" using ka(2) [OF Some] Some by (simp add: rest_at_def Cons_nth_drop_Suc)
    obtain ik v where x: "xs ! j = (ik, v)" by (rule prod.exhaust)
    have k: "key_at C h = Some (TDB_SUCCESS, ik, v)" using ka(1) Some x by simp
    show ?thesis
    proof (cases "prefix p ik")
      case False
      then show ?thesis by (simp add: lp k dr x starts_with_prefix)
    next
      case True
      then have "index_row te view rows i ik" using rows dr x by simp
      from fetch_row [OF laws(1,2) tb h this] obtain h' row where
        f: "fetch_scan E te (drop (idx_comp_key_len te i) ik) b h = (HA_OK, h')" "lookup_ready B te view t i p b h'"
          "h_scan_iter h' = h_scan_iter h" "position h' = drop (idx_comp_key_len te i) ik"
          "rows (position h') = Some row" "reads_back (te_tb te) val row (h_recs h' b)" by blast
      have len: "idx_comp_key_len te i < length ik" using \<open>index_row te view rows i ik\<close> by (simp add: index_row_def)
      have "icp_loop E C te sc th i b False (Some p) miss fin h = Some (HA_OK, fin HA_OK h')"
        using True len by (simp add: lp k starts_with_prefix f(1))
      moreover have "lookup_left V p xs (with_key p (drop (Suc j) xs)) h'"
        using pos Some f(3) by (auto simp: lookup_left_def at_pos_def)
      ultimately show ?thesis using spec [OF fin, of h'] f True dr x unfolding delivers_def by auto
    qed
  qed
qed

lemma next_same_delivers:
  assumes laws: "engine_laws E B" "reads_answer E" "cursor_laws E B C V" "cursor_total C"
    and tb: "table_ok (te_tb te)" "pack_laws (te_pack te) val" and sc: "se_pushed sc = None" "\<not> se_keyread sc"
    and h: "lookup_ready B te view t i p b h" and left: "lookup_left V p xs ms h" and alive: "\<not> th_killed th"
    and rows: "\<forall>x\<in>set ms. index_row te view rows i (fst x)"
  shows "case ms of
      [] \<Rightarrow> \<exists>h'. index_next_same E C te sc th b h = Some (HA_ERR_END_OF_FILE, h')
    | x # ms' \<Rightarrow> delivers B V te val view rows t i p b xs x ms' (index_next_same E C te sc th b h)"
proof -
  obtain j where j: "at_pos V h xs (Some j)" "with_key p (drop (Suc j) xs) = ms" using left by (auto simp: lookup_left_def)
  let ?h = "move_iter (it_next C) h"
  have pos: "at_pos V ?h xs (pos_next xs j)" by (rule move_at(1) [OF laws(3,4) j(1)])
  have ms: "with_key p (rest_at xs (pos_next xs j)) = ms" using j(2) by (simp add: rest_next)
  obtain kp where "h_scan_iter h = Some kp" using j(1) by (auto simp: at_pos_def)
  then have run: "index_next_same E C te sc th b h = icp_loop E C te sc th i b False (Some p) HA_ERR_END_OF_FILE (\<lambda>_ h3. h3) ?h"
    using h alive by (simp add: index_next_same_def lookup_ready_def)
  have "lookup_ready B te view t i p b ?h" using h by simp
  note ld = loop_delivers [OF laws tb sc this pos, unfolded ms, OF rows, where fin = "\<lambda>_ h3. h3" and miss = HA_ERR_END_OF_FILE]
  show ?thesis
  proof (cases ms)
    case Nil
    then show ?thesis using ld by (simp add: run)
  next
    case (Cons x ms')
    then show ?thesis using ld unfolding run by simp
  qed
qed

lemma same_rows_left:
  assumes laws: "engine_laws E B" "reads_answer E" "cursor_laws E B C V" "cursor_total C"
    and tb: "table_ok (te_tb te)" "pack_laws (te_pack te) val" and sc: "se_pushed sc = None" "\<not> se_keyread sc"
    and alive: "\<not> th_killed th" and h: "lookup_ready B te view t i p b h" "lookup_left V p xs ms h"
    and rows: "\<forall>x\<in>set ms. index_row te view rows i (fst x)" and n: "length ms < n"
  shows "\<exists>rs. same_rows E C te sc th b n h = Some (rs, HA_ERR_END_OF_FILE) \<and>
    map fst rs = map (\<lambda>x. drop (idx_comp_key_len te i) (fst x)) ms \<and>
    (\<forall>(pk, r)\<in>set rs. \<exists>row. rows pk = Some row \<and> reads_back (te_tb te) val row r)"
  using h rows n
proof (induction ms arbitrary: h n)
  case Nil
  then obtain m where "n = Suc m" by (cases n) auto
  then show ?case using next_same_delivers [OF laws tb sc Nil.prems(1,2) alive, of rows] by auto
next
  case (Cons x ms)
  obtain m where m: "n = Suc m" "length ms < m" using Cons.prems(4) by (cases n) auto
  have "delivers B V te val view rows t i p b xs x ms (index_next_same E C te sc th b h)"
    using next_same_delivers [OF laws tb sc Cons.prems(1,2) alive Cons.prems(3)] by simp
  then obtain h' row where d: "index_next_same E C te sc th b h = Some (HA_OK, h')" "lookup_ready B te view t i p b h'"
    "lookup_left V p xs ms h'" "position h' = drop (idx_comp_key_len te i) (fst x)" "rows (position h') = Some row"
    "reads_back (te_tb te) val row (h_recs h' b)" by (auto simp: delivers_def)
  from Cons.IH [OF d(2,3) _ m(2)] Cons.prems(3) obtain rs where
    "same_rows E C te sc th b m h' = Some (rs, HA_ERR_END_OF_FILE)"
    "map fst rs = map (\<lambda>x. drop (idx_comp_key_len te i) (fst x)) ms"
    "\<forall>(pk, r)\<in>set rs. \<exists>row. rows pk = Some row \<and> reads_back (te_tb te) val row r" by auto
  then show ?case using m(1) d by auto
qed

section \<open>The entries of an index\<close>

lemma sec_keys_nth: "(i, kd, cf) \<in> set (sec_keys te) \<Longrightarrow>
    kd = te_keys te ! i \<and> te_pk te \<noteq> Some i \<and> i < length (te_idx_cfs te) \<and> te_idx_cfs te ! i = Some cf"
  by (auto simp: sec_keys_def List.map_filter_def split: if_splits option.splits)

lemma col_bytes_len:
  assumes "wf_table te" "(i, kd, cf) \<in> set (sec_keys te)" "\<not> kd_fts kd" "\<not> kd_spatial kd"
  shows "length (col_bytes te kd row) = idx_comp_key_len te i"
proof -
  have nv: "\<forall>kp\<in>set (kd_parts kd). \<not> is_varbinary (kp_field kp)" using assms(1-3) by (auto simp: wf_table_def)
  obtain k where k: "make_comparable_key (te_ops te) (kd_info kd) row (length (kd_parts kd)) (te_out te) = Some k"
    using comparable_total [OF nv, of "te_ops te" "te_out te" row] by (auto simp: make_comparable_key_def)
  then have "length k = comparable_key_length (kd_info kd)" by (rule make_comparable_key_length [OF _ assms(4)])
  then show ?thesis using k sec_keys_nth [OF assms(2)] by (simp add: col_bytes_def built_def idx_comp_key_len_def)
qed

definition matches :: "table_env \<Rightarrow> key_def \<Rightarrow> bytes \<Rightarrow> (bytes \<Rightarrow> bytes option) \<Rightarrow> bytes set" where
  "matches te kd p rows = {pk. \<exists>row. rows pk = Some row \<and> prefix p (col_bytes te kd row)}"

lemma index_rows:
  assumes wf: "wf_table te" and x: "(i, kd, cf) \<in> set (sec_keys te)" "\<not> kd_fts kd" "\<not> kd_spatial kd"
    and sim: "table_sim te False rows (cell B once t e)" and xs: "contents xs (\<lambda>k. ob_view B e t (cf, k))"
    and len: "\<forall>row\<in>ran rows. length row = tb_reclength (te_tb te)" and ne: "[] \<notin> dom rows"
  shows "\<forall>y\<in>set xs. index_row te (ob_view B e t) rows i (fst y)"
    "\<And>y. y \<in> set xs \<Longrightarrow> \<exists>row. rows (drop (idx_comp_key_len te i) (fst y)) = Some row \<and> fst y = col_bytes te kd row @ drop (idx_comp_key_len te i) (fst y)"
    "\<And>pk row. rows pk = Some row \<Longrightarrow> \<exists>y\<in>set xs. fst y = col_bytes te kd row @ pk"
proof -
  note cl = col_bytes_len [OF wf x]
  have vw: "ob_view B e t (cf, k) = Some v \<longleftrightarrow> (\<exists>pk row. rows pk = Some row \<and> (k, v) = (col_bytes te kd row @ pk, tdb_empty_val))" for k v
    using table_simD(2) [OF sim x(1)] x(2,3) by (simp add: index_sim_def cell_def index_entries_def)
  have ent: "\<exists>pk row. rows pk = Some row \<and> fst y = col_bytes te kd row @ pk" if "y \<in> set xs" for y
    using that contents_nth [OF xs] vw by (metis Pair_inject in_set_conv_nth)
  then show e2: "\<exists>row. rows (drop (idx_comp_key_len te i) (fst y)) = Some row \<and> fst y = col_bytes te kd row @ drop (idx_comp_key_len te i) (fst y)"
    if "y \<in> set xs" for y using that cl by fastforce
  show "\<exists>y\<in>set xs. fst y = col_bytes te kd row @ pk" if "rows pk = Some row" for pk row
    using that vw contents_index [OF xs] by (metis fst_conv nth_mem)
  show "\<forall>y\<in>set xs. index_row te (ob_view B e t) rows i (fst y)"
  proof
    fix y
    assume "y \<in> set xs"
    then obtain row where r: "rows (drop (idx_comp_key_len te i) (fst y)) = Some row"
      "fst y = col_bytes te kd row @ drop (idx_comp_key_len te i) (fst y)" using e2 by blast
    have "drop (idx_comp_key_len te i) (fst y) \<noteq> []" using r(1) ne by auto
    moreover have "ob_view B e t (te_cf te, build_data_key (drop (idx_comp_key_len te i) (fst y))) = Some (pack_row (te_pack te) (te_tb te) row)"
      using sim r(1) unfolding table_sim_def data_sim_def
      by (auto simp: cell_def row_stored_def serialize_row_def dest!: spec [of _ "drop (idx_comp_key_len te i) (fst y)"])
    ultimately show "index_row te (ob_view B e t) rows i (fst y)" using r(1) len by (auto simp: index_row_def ran_def)
  qed
qed

lemma match_entries:
  assumes wf: "wf_table te" and x: "(i, kd, cf) \<in> set (sec_keys te)" "\<not> kd_fts kd" "\<not> kd_spatial kd"
    and sim: "table_sim te False rows (cell B once t e)" and xs: "contents xs (\<lambda>k. ob_view B e t (cf, k))"
    and len: "\<forall>row\<in>ran rows. length row = tb_reclength (te_tb te)" and ne: "[] \<notin> dom rows"
    and p: "length p \<le> idx_comp_key_len te i"
  defines "ms \<equiv> with_key p (rest_at xs (pos_ge p xs))" and "pk_of \<equiv> \<lambda>y. drop (idx_comp_key_len te i) (fst y)"
  shows "distinct (map pk_of ms)" "pk_of ` set ms = matches te kd p rows" "set ms \<subseteq> set xs"
proof -
  note ir = index_rows [OF wf x sim xs len ne]
  have "rest_at xs (pos_ge p xs) = dropWhile (\<lambda>y. fst y < p) xs"
    by (auto simp: rest_at_def pos_ge_def at_index_def dropWhile_eq_drop)
  moreover have "sorted (map fst xs)" using xs strict_sorted_imp_sorted by (auto simp: contents_def)
  ultimately have ms: "ms = filter (\<lambda>y. prefix p (fst y)) xs" by (simp add: ms_def prefix_scan)
  then show sub: "set ms \<subseteq> set xs" by auto
  have inj: "inj_on pk_of (set xs)"
  proof (rule inj_onI)
    fix y z
    assume y: "y \<in> set xs" and z: "z \<in> set xs" and eq: "pk_of y = pk_of z"
    have "fst y = fst z" using ir(2) [OF y] ir(2) [OF z] eq [unfolded pk_of_def] by (metis option.inject)
    then show "y = z" using contents_distinct [OF xs] y z by (auto simp: distinct_map inj_on_def)
  qed
  have "distinct xs" using contents_distinct [OF xs] by (simp add: distinct_map)
  then show "distinct (map pk_of ms)" using inj by (auto simp: ms distinct_map intro: inj_on_subset)
  have pre: "prefix p (fst y) \<longleftrightarrow> prefix p (col_bytes te kd row)" if "fst y = col_bytes te kd row @ q" for y :: entry and row q
    unfolding that using p col_bytes_len [OF wf x, of row] by (metis prefix_append prefix_length_le prefix_length_prefix prefixI prefix_order.trans)
  show "pk_of ` set ms = matches te kd p rows"
  proof (intro equalityI subsetI)
    fix pk
    assume "pk \<in> pk_of ` set ms"
    then obtain y where y: "y \<in> set xs" "prefix p (fst y)" "pk = pk_of y" by (auto simp: ms)
    obtain row where r: "rows pk = Some row" "fst y = col_bytes te kd row @ pk" using ir(2) [OF y(1)] unfolding y(3) pk_of_def by blast
    then show "pk \<in> matches te kd p rows" using y(2) pre [OF r(2)] by (auto simp: matches_def)
  next
    fix pk
    assume "pk \<in> matches te kd p rows"
    then obtain row where r: "rows pk = Some row" "prefix p (col_bytes te kd row)" by (auto simp: matches_def)
    from ir(3) [OF r(1)] obtain y where y: "y \<in> set xs" "fst y = col_bytes te kd row @ pk" by blast
    then have "pk_of y = pk" "y \<in> set ms" using col_bytes_len [OF wf x, of row] pre [OF y(2)] r(2) by (simp_all add: pk_of_def ms)
    then show "pk \<in> pk_of ` set ms" by blast
  qed
qed

section \<open>The whole lookup\<close>

lemma index_init_ready:
  assumes "index_init E te th i sc h0 = (HA_OK, sc', h)" "h_stmt_txn h0 = Some t" "h_scan_iter h0 = None"
    "(i, kd, cf) \<in> set (sec_keys te)" "se_pushed sc = None"
  shows "h_active_index h = Some i" "\<not> h_is_pk h" "h_spatial h = None" "h_scan_txn h = Some t" "h_scan_cf h = Some cf"
    "h_scan_iter h = None" "h_scan_err h = h_scan_err h0" "h_conn h = h_conn h0" "h_enc h = h_enc h0" "h_recs h = h_recs h0"
    "se_pushed sc' = None" "se_keyread sc' = se_keyread sc" "se_restore sc' = se_restore sc" "se_scratch sc' = se_scratch sc"
  using assms(1-3,5) sec_keys_nth [OF assms(4)]
  by (auto simp: index_init_def Let_def ensure_stmt_txn_def drop_stale_iter_def cancel_pushed_idx_cond_def split: if_splits)

lemma set_dir_fin: "\<forall>h. set_dir d HA_OK h = h \<or> set_dir d HA_OK h = h\<lparr>h_scan_dir := d\<rparr>"
  by (simp add: set_dir_def)

lemma read_map_delivers:
  assumes laws: "engine_laws E B" "reads_answer E" "cursor_laws E B C V" "cursor_total C"
    and tb: "table_ok (te_tb te)" "pack_laws (te_pack te) val" and sc: "se_pushed sc = None" "\<not> se_keyread sc"
    and h: "lookup_ready B te view t i p b (h\<lparr>h_search := p\<rparr>)" "h_scan_iter h = None" "h_scan_err h = None" "h_scan_cf h = Some cf"
    and key: "built (key_copy_to_comparable (te_ops te) (se_restore sc) (kd_info (te_keys te ! i)) (se_scratch sc) key key_len (te_out te)) = p"
    and new: "fst (it_new C t cf (h_eng h)) = TDB_SUCCESS"
    and rows: "\<And>xs. contents xs (\<lambda>k. view (cf, k)) \<Longrightarrow> \<forall>x\<in>set xs. index_row te view rows i (fst x)"
  obtains xs where "contents xs (\<lambda>k. view (cf, k))"
    "case with_key p (rest_at xs (pos_ge p xs)) of
      [] \<Rightarrow> \<exists>h'. index_read_map E C te sc th b key key_len HA_READ_KEY_EXACT h = Some (HA_ERR_KEY_NOT_FOUND, h')
    | x # ms \<Rightarrow> delivers B V te val view rows t i p b xs x ms (index_read_map E C te sc th b key key_len HA_READ_KEY_EXACT h)"
proof -
  let ?h = "h\<lparr>h_search := p\<rparr>"
  obtain it e where n: "it_new C t cf (h_eng h) = (TDB_SUCCESS, it, e)" using new by (metis prod.collapse)
  have hh: "ob_view B (h_eng h) t = view" "h_scan_txn h = Some t" "h_active_index h = Some i" "\<not> h_is_pk h"
    using h(1) by (simp_all add: lookup_ready_def)
  define h1 where "h1 = (set_eng e ?h)\<lparr>h_scan_iter := Some \<lparr>kp_iter = it, kp_cf = cf, kp_txn = t, kp_gen = cur_gen ?h\<rparr>, h_scan_err := None\<rparr>"
  have ens: "ensure_scan_iter C ?h = (HA_OK, h1)"
    using h hh n by (simp add: ensure_scan_iter_def make_scan_iter_def h1_def set_eng_def)
  let ?xs = "cv_seq V it" and ?h2 = "move_iter (it_seek C p) h1"
  have c: "contents ?xs (\<lambda>k. view (cf, k))" using law_it_new(6) [OF laws(3) n refl] hh(1) by simp
  have pos: "at_pos V ?h2 ?xs (pos_ge p ?xs)" by (rule move_at(2) [OF laws(3,4), where p = "cv_pos V it"]) (simp add: at_pos_def h1_def)
  have ready: "lookup_ready B te view t i p b ?h2"
    using h(1) law_it_new(5) [OF laws(3) n] hh(1) by (simp add: lookup_ready_def h1_def set_eng_def)
  have run: "index_read_map E C te sc th b key key_len HA_READ_KEY_EXACT h =
      icp_loop E C te sc th i b False (Some p) HA_ERR_KEY_NOT_FOUND (set_dir DIR_FORWARD) ?h2"
    using hh by (simp add: index_read_map_def Let_def key sec_read_def ens is_reverse_def sec_seek_def)
  have rw: "\<forall>x\<in>set (with_key p (rest_at ?xs (pos_ge p ?xs))). index_row te view rows i (fst x)"
    using rows [OF c] by (auto simp: rest_at_def dest!: set_takeWhileD split: option.splits dest: in_set_dropD)
  note ld = loop_delivers [where fin = "set_dir DIR_FORWARD" and miss = HA_ERR_KEY_NOT_FOUND and th = th,
      OF laws tb sc ready pos rw set_dir_fin]
  show ?thesis
    by (rule that [OF c], unfold run) (use ld in \<open>cases "with_key p (rest_at ?xs (pos_ge p ?xs))"; simp\<close>)
qed


end
