(* ===== verification/Dml_Example.thy ===== *)
theory Dml_Example
  imports Dml_Refine
begin

text \<open>A concrete table on the in-memory engine: the row operations run on it, and every hypothesis of
  the theorems about them holds there.\<close>

definition dx_te :: table_env where
  "dx_te = \<lparr>te_ops = ex_ops, te_out = (\<lambda>_. 0), te_pack = rx_ops,
     te_enc = \<lparr>ee_cipher = rx_cipher, ee_thread = 1, ee_random = None\<rparr>,
     te_tb = \<lparr>tb_fields = [ex_int 1 (Some (0, 0)), ex_int 5 None, ex_int 9 None], tb_null_bytes = 1, tb_reclength = 13,
       tb_default_values = replicate 13 0\<rparr>,
     te_keys = [\<lparr>kd_info = ex_pk, kd_nosame = True, kd_fts = False\<rparr>, \<lparr>kd_info = ex_idx, kd_nosame = True, kd_fts = False\<rparr>],
     te_pk = Some 0, te_cf = 0, te_idx_cfs = [None, Some 1], te_ttl_col = (\<lambda>_. None), te_has_ttl = False, te_default_ttl = 0,
     te_fts_vals = (\<lambda>_ _. []), te_cs = \<lparr>ismb = (\<lambda>_. 0), isalnum = (\<lambda>_. False), casedn = id\<rparr>,
     te_fts_cfg = \<lparr>min_word_len = 3, max_word_len = 84, blend = (\<lambda>_. False), stopwords = []\<rparr>,
     te_geom = (\<lambda>_ _. []), te_mid = (\<lambda>a b. a), te_ai_val = None, te_update_ai = (\<lambda>b c. (HA_OK, b, c)),
     te_isolation = TDB_ISOLATION_READ_COMMITTED, te_pessimistic = False, te_row_lock = (\<lambda>_. HA_OK)\<rparr>"

definition dx_thd :: thd where
  "dx_thd = \<lparr>th_command = SQLCOM_OTHER, th_multi_stmt = True, th_iso = ISO_READ_COMMITTED,
     th_vars = \<lparr>sv_skip_unique_check = False, sv_ttl = 0, sv_single_delete_primary = False, sv_compact_min_rows = 0\<rparr>,
     th_killed = False\<rparr>"

text \<open>Transaction 0 is open and no row is cached; the handler stands on the row with key \<open>pk\<close>.\<close>

definition dx_eng :: "(kv_key \<times> bytes) list \<Rightarrow> mem_state" where
  "dx_eng db = \<lparr>ms_db = db, ms_next = 1, ms_txn = (\<lambda>_. \<lparr>mt_state = TDB_TXN_STATE_ACTIVE, mt_buf = [], mt_saved = []\<rparr>)\<rparr>"

definition dx_h :: "bytes \<Rightarrow> (kv_key \<times> bytes) list \<Rightarrow> (mem_state, mem_iter) handler" where
  "dx_h pk db = \<lparr>
     h_conn = \<lparr>cn_trx = Some (new_trx TDB_ISOLATION_READ_COMMITTED 0), cn_eng = dx_eng db\<rparr>,
     h_cached_trx = True, h_stmt_txn = Some 0, h_stmt_dirty = False, h_write_lock = True, h_shape = None,
     h_vars_valid = False, h_vars = th_vars dx_thd,
     h_enc = \<lparr>encrypted = False, encryption_key_version = 0, cached_enc_key_ver = 0, enc_key_ver_valid = False\<rparr>,
     h_mk = mk_init, h_recs = (\<lambda>_. []), h_current_pk = pk, h_scan_txn = None, h_scan_cf = None, h_scan_iter = None,
     h_scan_err = None, h_scan_dir = DIR_NONE, h_active_index = None, h_is_pk = False, h_pk_exact_done = False, h_search = [], h_spatial = None,
     h_dup_iter = (\<lambda>_. None), h_dup_key = None, h_dup_ref = [], h_can_replace = False,
     h_bulk_insert = False, h_bulk_update = False, h_bulk_delete = False, h_bulk_ops = 0,
     h_fts_docs = (\<lambda>_. 0), h_fts_words = (\<lambda>_. 0), h_del_rows = 0, h_del_min = [], h_del_max = [],
     h_auto_inc = 0, h_next_row_id = 1\<rparr>"

text \<open>Beside \<open>ex_row\<close>, which is \<open>(a = -1, id = 7, b = 5)\<close>: a row that agrees with it in the UNIQUE index on
  \<open>(a, b)\<close>, one that agrees with it in no key, and one that agrees with it in the primary key.\<close>

definition dx_same :: bytes where "dx_same = [0, 0xFF, 0xFF, 0xFF, 0xFF, 8, 0, 0, 0, 5, 0, 0, 0]"
definition dx_new :: bytes where "dx_new = [0, 1, 0, 0, 0, 8, 0, 0, 0, 5, 0, 0, 0]"
definition dx_other :: bytes where "dx_other = [0, 1, 0, 0, 0, 7, 0, 0, 0, 5, 0, 0, 0]"
definition dx_pk :: bytes where "dx_pk = [0x80, 0, 0, 7]"

definition dx_store :: "bytes \<Rightarrow> (kv_key \<times> bytes) list" where
  "dx_store row = [((0, build_data_key dx_pk), row),
            ((1, [1, 0x7F, 0xFF, 0xFF, 0xFF, 0x80, 0, 0, 5] @ dx_pk), tdb_empty_val)]"

abbreviation dx_db :: "(kv_key \<times> bytes) list" where "dx_db \<equiv> dx_store (pack_row rx_ops (te_tb dx_te) ex_row)"
abbreviation dx_once :: "mem_state \<Rightarrow> nat \<Rightarrow> kv_key \<Rightarrow> bool" where "dx_once \<equiv> (\<lambda>_ _ _. True)"

lemma dx_sd_laws: "single_delete_laws mem_engine mem_observer mem_cursor (txn_delete mem_engine) dx_once"
  by (auto simp: single_delete_laws_def mem_defs mem_view_def apply_writes_def split: option.split)

lemma dx_keys: "sec_keys dx_te = [(1, \<lparr>kd_info = ex_idx, kd_nosame = True, kd_fts = False\<rparr>, 1)]"
  by code_simp

lemma dx_fields: "te_pk dx_te = Some 0" "te_cf dx_te = 0" "0 < num_secondary_indexes dx_te"
  by (simp_all add: dx_te_def num_secondary_indexes_def)

lemma dx_serialize: "serialize dx_te buf (dx_h pk db) = (pack_row rx_ops (te_tb dx_te) buf, dx_h pk db)"
  by (simp add: serialize_def serialize_row_def dx_h_def dx_te_def)

text \<open>\<open>write_row\<close> from the point where the row is packed; its bytes do not matter to the control flow.\<close>

definition dx_insert :: "bytes \<Rightarrow> bytes \<Rightarrow> (mem_state, mem_iter) handler \<Rightarrow> ha_err \<times> (mem_state, mem_iter) handler" where
  "dx_insert row buf h =
     (case check_pk mem_engine dx_te 0 False (row_pk dx_te [] buf) (cache_vars dx_thd (mark_stmt_dirty h)) of (perr, h6) \<Rightarrow>
        if perr \<noteq> HA_OK then (perr, h6)
        else case check_unique_keys mem_cursor dx_te 0 buf (sec_keys dx_te) h6 of (uerr, h7) \<Rightarrow>
          if uerr \<noteq> HA_OK then (uerr, h7) else store_row mem_engine dx_te 0 (row_pk dx_te [] buf) row buf h7)"

lemma dx_write_row:
  "write_row mem_engine mem_cursor dx_te dx_thd True buf (dx_h [] db) =
     (case dx_insert (pack_row rx_ops (te_tb dx_te) buf) buf (dx_h [] db) of (err, h') \<Rightarrow> (err, buf, h'))"
proof -
  let ?h = "dx_h [] db" and ?row = "pack_row rx_ops (te_tb dx_te) buf"
  let ?h5 = "cache_vars dx_thd (mark_stmt_dirty ?h)" and ?pk = "row_pk dx_te [] buf"
  have f: "fill_auto_increment dx_te True buf ?h = (HA_OK, buf, False, ?h)" by (simp add: fill_auto_increment_def dx_te_def)
  have n: "new_row_pk dx_te buf ?h = (?pk, ?h)" by (simp add: new_row_pk_def dx_te_def dx_h_def)
  have t: "h_stmt_txn ?h = Some 0" "\<not> encrypted (h_enc ?h)" by (simp_all add: dx_h_def)
  have ens: "ensure_stmt_txn mem_engine dx_te dx_thd ?h = (HA_OK, ?h)" by (simp add: ensure_stmt_txn_def t)
  have l: "lock_new_row dx_te ?pk h = HA_OK" for h :: "(mem_state, mem_iter) handler" by (simp add: lock_new_row_def dx_te_def)
  have v: "\<not> sv_skip_unique_check (h_vars ?h5)" by (simp add: cache_vars_def mark_stmt_dirty_def dx_h_def dx_thd_def)
  obtain perr h6 where c: "check_pk mem_engine dx_te 0 False ?pk ?h5 = (perr, h6)" by (rule prod.exhaust)
  have "\<not> sv_skip_unique_check (h_vars h6)"
    using check_pk_frame(4) [OF mem_engine_laws dx_sd_laws c] v by simp
  then show ?thesis
    by (simp add: write_row_def f n dx_serialize t ens l c dx_fields Let_def dx_insert_def split: prod.split)
qed

lemma dx_insert_runs: "fst (dx_insert r ex_row (dx_h [] [])) = HA_OK"
  by code_simp

lemma dx_insert_ok:
  "write_row mem_engine mem_cursor dx_te dx_thd True ex_row (dx_h [] []) =
     (HA_OK, ex_row, snd (snd (write_row mem_engine mem_cursor dx_te dx_thd True ex_row (dx_h [] []))))"
  using dx_insert_runs [of "pack_row rx_ops (te_tb dx_te) ex_row"] by (simp add: dx_write_row case_prod_beta prod_eq_iff)

lemma dx_wf: "wf_table dx_te"
  by (auto simp: wf_table_def dx_keys) (auto simp: dx_te_def pk_info_def ex_defs is_varbinary_def)

lemma dx_work: "unchecked_deletes_work dx_te (txn_delete mem_engine) dx_once 0"
  by (simp add: unchecked_deletes_work_def dx_keys mem_defs)

lemma dx_row_pk: "row_pk dx_te q ex_row = dx_pk" "row_pk dx_te q dx_same = [0x80, 0, 0, 8]" "row_pk dx_te q dx_other = dx_pk"
  by code_simp+

lemma dx_row_ok: "row_ok dx_te dx_pk ex_row" "row_ok dx_te dx_pk dx_other" "row_ok dx_te [0x80, 0, 0, 8] dx_same"
  by (simp_all add: row_ok_def dx_keys dx_row_pk)

lemma dx_entries:
  "index_entries dx_te \<lparr>kd_info = ex_idx, kd_nosame = True, kd_fts = False\<rparr> dx_pk ex_row =
     [([1, 0x7F, 0xFF, 0xFF, 0xFF, 0x80, 0, 0, 5] @ dx_pk, tdb_empty_val)]"
  by code_simp

lemma dx_empty_sim: "table_sim dx_te False Map.empty (cell mem_observer dx_once 0 (h_eng (dx_h [] [])))"
  by (simp add: table_sim_def data_sim_def index_sim_def dx_keys cell_def mem_observer_def mem_view_def apply_writes_def dx_h_def dx_eng_def)

lemma dx_sim: "table_sim dx_te False [dx_pk \<mapsto> ex_row] (cell mem_observer dx_once 0 (h_eng (dx_h pk dx_db)))"
proof -
  have v: "ob_view mem_observer (h_eng (dx_h pk db)) 0 = map_of db" for db
    by (simp add: mem_observer_def mem_view_def apply_writes_def dx_h_def dx_eng_def fun_eq_iff)
  have "row_stored dx_te False ex_row (pack_row rx_ops (te_tb dx_te) ex_row)"
    unfolding row_stored_def
    by (rule exI [of _ "\<lparr>encrypted = False, encryption_key_version = 0, cached_enc_key_ver = 0, enc_key_ver_valid = False\<rparr>"])
      (simp add: serialize_row_def dx_te_def)
  then show ?thesis
    by (auto simp: table_sim_def data_sim_def index_sim_def dx_keys dx_entries dx_fields cell_def v dx_store_def dx_row_ok)
qed

section \<open>The operations at work\<close>


lemma dx_delete_runs: "fst (delete_row mem_engine (txn_delete mem_engine) dx_te dx_thd ex_row (dx_h dx_pk db)) = HA_OK"
  by code_simp


definition dx_update :: "bytes \<Rightarrow> bytes \<Rightarrow> bytes \<Rightarrow> (mem_state, mem_iter) handler \<Rightarrow> tdb_rc \<times> mem_state" where
  "dx_update row old_data new_data h =
     (case move_row mem_engine (txn_delete mem_engine) dx_te 0 False (-1) dx_pk dx_pk row (h_eng h) of (rc, e) \<Rightarrow>
        if rc \<noteq> TDB_SUCCESS then (rc, e)
        else update_indexes mem_engine (txn_delete mem_engine) dx_te (\<lambda>_. True) 0 (-1) dx_pk dx_pk old_data new_data (sec_keys dx_te) e)"

lemma dx_update_runs: "fst (dx_update r ex_row dx_other (dx_h dx_pk db)) = TDB_SUCCESS"
  by code_simp

lemma dx_updated_pk: "updated_pk dx_te (\<lambda>_. True) dx_pk dx_other = dx_pk"
  by code_simp

lemma dx_update_row:
  "fst (update_row mem_engine (txn_delete mem_engine) dx_te dx_thd (\<lambda>_. True) ex_row dx_other (dx_h dx_pk db)) = HA_OK"
proof -
  let ?h = "dx_h dx_pk db" and ?row = "pack_row rx_ops (te_tb dx_te) dx_other"
  let ?h3 = "cache_vars dx_thd (mark_stmt_dirty ?h)"
  have h: "h_stmt_txn ?h = Some 0" "\<not> encrypted (h_enc ?h)" "h_current_pk ?h = dx_pk" by (simp_all add: dx_h_def)
  have ens: "ensure_stmt_txn mem_engine dx_te dx_thd ?h = (HA_OK, ?h)" by (simp add: ensure_stmt_txn_def h)
  have h3: "row_ttl dx_te dx_other ?h3 = -1" "sv_single_delete_primary (h_vars ?h3) = False" "h_eng ?h3 = h_eng ?h" "h_bulk_update ?h3 = False"
    by (simp_all add: row_ttl_def dx_te_def dx_h_def cache_vars_def mark_stmt_dirty_def mark_dirty_def dx_thd_def TIDESDB_TTL_NONE_def)
  show ?thesis
    using dx_update_runs [of ?row db, unfolded dx_update_def]
    by (auto simp: update_row_def Let_def h dx_updated_pk dx_serialize ens h3 bulk_tail_def set_eng_def tdb_rc_to_ha_ok
        split: prod.splits if_splits)
qed


lemma dx_new_runs: "fst (dx_insert r dx_new (dx_h [] (dx_store v))) = HA_OK"
  by code_simp

theorem unique_insert_witness:
  "unique_ok dx_te [dx_pk \<mapsto> ex_row] dx_new (1, \<lparr>kd_info = ex_idx, kd_nosame = True, kd_fts = False\<rparr>, 1)"
proof -
  let ?r = "write_row mem_engine mem_cursor dx_te dx_thd True dx_new (dx_h [] dx_db)"
  have run: "?r = (HA_OK, dx_new, snd (snd ?r))"
    using dx_new_runs [of "pack_row rx_ops (te_tb dx_te) dx_new"] by (simp add: dx_write_row case_prod_beta prod_eq_iff)
  have "h_stmt_txn (dx_h [] dx_db) = Some 0" "\<forall>i. h_dup_iter (dx_h [] dx_db) i = None"
    "\<not> sv_skip_unique_check (h_vars (cache_vars dx_thd (dx_h [] dx_db)))"
    by (simp_all add: dx_h_def cache_vars_def dx_thd_def)
  then show ?thesis
    using unique_insert [OF mem_engine_laws mem_cursor_laws dx_sd_laws mem_cursor_total _ dx_sim run] by (simp add: dx_keys)
qed

text \<open>A row that repeats the UNIQUE columns of a stored row is refused, one that repeats those of an
  earlier row of the same statement is not: the iterator of the check is kept from row to row and does
  not see what was written after it was made.\<close>

lemma dx_duplicate_refused: "fst (dx_insert r dx_same (dx_h [] (dx_store v))) = HA_ERR_FOUND_DUPP_KEY"
  by code_simp

lemma dx_duplicate_missed: "fst (dx_insert r' dx_same (snd (dx_insert r ex_row (dx_h [] [])))) = HA_OK"
  by code_simp

end
