(* ===== verification/Scan_Example.thy ===== *)
theory Scan_Example
  imports Scan_Index Dml_Example
begin

text \<open>The table of theory \<open>Dml_Example\<close> is scanned and searched.\<close>

definition sx_h :: "bytes \<Rightarrow> (mem_state, mem_iter) handler" where
  "sx_h v = (dx_h [] (dx_store v))\<lparr>h_recs := (\<lambda>_. replicate 13 0)\<rparr>"

abbreviation sx_row :: bytes where "sx_row \<equiv> pack_row rx_ops (te_tb dx_te) ex_row"

lemma sx_fields: "h_stmt_txn (sx_h v) = Some 0" "h_scan_iter (sx_h v) = None" "\<not> encrypted (h_enc (sx_h v))"
  "h_recs (sx_h v) b = replicate 13 0" "h_conn (sx_h v) = h_conn (dx_h [] (dx_store v))" "\<not> th_killed dx_thd"
  by (simp_all add: sx_h_def dx_h_def dx_thd_def)

lemma sx_table: "table_ok (te_tb dx_te)" "pack_laws (te_pack dx_te) (\<lambda>_ img. img)" "tb_reclength (te_tb dx_te) = 13"
  "length ex_row = 13"
  using rx_pack_laws by (auto simp: dx_te_def table_ok_def ex_defs field_fits_def fields_apart_def)

lemma sx_init: "fst (rnd_init mem_engine mem_cursor dx_te dx_thd (sx_h v)) = HA_OK"
  by code_simp

theorem table_scan_complete_witness:
  "\<exists>rs. rnd_rows mem_cursor dx_te dx_thd Rec0 2 (snd (rnd_init mem_engine mem_cursor dx_te dx_thd (sx_h sx_row))) =
      Some (rs, HA_ERR_END_OF_FILE) \<and> set (map fst rs) = {dx_pk} \<and>
    (\<forall>(pk, r)\<in>set rs. reads_back (te_tb dx_te) (\<lambda>_ img. img) ex_row r)"
proof -
  let ?r = "rnd_init mem_engine mem_cursor dx_te dx_thd (sx_h sx_row)"
  have run: "?r = (HA_OK, snd ?r)" using sx_init [of sx_row] by (simp add: prod_eq_iff)
  have sim: "table_sim dx_te False [dx_pk \<mapsto> ex_row] (cell mem_observer dx_once 0 (h_eng (sx_h sx_row)))"
    using dx_sim [of "[]"] by (simp add: sx_fields)
  have "length (h_recs (sx_h sx_row) Rec0) = tb_reclength (te_tb dx_te)" by (simp add: sx_fields sx_table)
  from table_scan_complete [OF mem_cursor_laws mem_cursor_total sim _ sx_table(1,2) sx_fields(1-3) this sx_fields(6) run, of 2]
  obtain rs where "rnd_rows mem_cursor dx_te dx_thd Rec0 2 (snd ?r) = Some (rs, HA_ERR_END_OF_FILE)" "set (map fst rs) = {dx_pk}"
    "\<forall>(pk, r)\<in>set rs. \<exists>row. [dx_pk \<mapsto> ex_row] pk = Some row \<and> reads_back (te_tb dx_te) (\<lambda>_ img. img) row r"
    by (auto simp: sx_table)
  then show ?thesis by (intro exI [of _ rs]) (fastforce split: if_splits)
qed

text \<open>A lookup of \<open>a = -1\<close> in the index on \<open>(a, b)\<close>.\<close>

definition sx_sc :: scan_env where
  "sx_sc = \<lparr>se_pushed = None, se_range_pushed = False, se_range = None, se_cond = (\<lambda>_. True), se_keyread = False,
     se_read_set = [], se_restore = (\<lambda>_ _ _ _. ex_row), se_scratch = []\<rparr>"

abbreviation sx_kd :: key_def where "sx_kd \<equiv> \<lparr>kd_info = ex_idx, kd_nosame = True, kd_fts = False\<rparr>"

lemma sx_key:
  "built (key_copy_to_comparable (te_ops dx_te) (se_restore sx_sc) (kd_info sx_kd) (se_scratch sx_sc) [] 5 (te_out dx_te)) =
     [1, 0x7F, 0xFF, 0xFF, 0xFF]"
  "length [1, 0x7F, 0xFF, 0xFF, 0xFF :: byte] \<le> idx_comp_key_len dx_te 1"
  by code_simp+

lemma sx_col: "col_bytes dx_te sx_kd ex_row = [1, 0x7F, 0xFF, 0xFF, 0xFF, 0x80, 0, 0, 5]"
  by code_simp

lemma sx_matches: "matches dx_te sx_kd [1, 0x7F, 0xFF, 0xFF, 0xFF] [dx_pk \<mapsto> ex_row] = {dx_pk}"
  by (auto simp: matches_def sx_col split: if_splits)

lemma sx_index_init: "fst (index_init mem_engine dx_te dx_thd 1 sx_sc (sx_h v)) = HA_OK"
  by code_simp

lemma mem_reads_answer: "reads_answer mem_engine"
  by (simp add: reads_answer_def mem_engine_def split: option.split)


end
