(* ===== verification/Spec2Isabelle.thy ===== *)
theory Spec2Isabelle
  imports XA_Recover Row_Lock_Deadlock Spatial Key_Codec Row_Codec Fts_Search Ddl Backup Scan_Example
begin

text \<open>
  \<^bold>\<open>The TidesDB storage engine plugin for MySQL.\<close>

  The plugin (\<open>src/plugin\<close>) implements a table handler over the TidesDB key-value library. A table is
  a column family of rows under comparable primary keys, and one column family per secondary,
  full-text or spatial index. A connection has one library transaction that its handlers share; a
  statement joins it through \<open>external_lock\<close> and \<open>ensure_stmt_txn\<close>, reads through iterators and point
  reads, and writes rows and index entries together. Commit, rollback, savepoints and two-phase
  commit act on the transaction of the connection; prepared transactions survive a restart and are
  resolved by identifier. Row locks serialise writers where \<open>pessimistic_locking\<close> is on. DDL works on
  column families and on bindings in the server's dictionary.

  \<^bold>\<open>How the code is modelled.\<close> Structs are records, enumerations datatypes, machine integers words of
  their width, byte strings lists of bytes with the order of the library's comparator. An operation is
  a function from the state to an error code and the new state, with every early return of the source
  as a branch. What is not under \<open>src\<close> is a parameter: the library is the record \<open>engine\<close> of
  functions over a state of any type with \<open>engine_laws\<close> (theory \<open>Engine\<close>), its iterators the record
  \<open>cursor\<close> with \<open>cursor_laws\<close> (\<open>Cursor\<close>), its column families the record \<open>registry\<close> (\<open>Ddl\<close>); the
  server's \<open>Field\<close> methods, character sets, \<open>key_restore\<close>, pushed conditions, the cipher and the file
  system are arguments with laws where a theorem needs them. \<open>mem_engine\<close>, \<open>mem_cursor\<close> and \<open>mem_reg\<close> are
  instances in memory that meet the laws; the witnesses run the operations on them.

  \<^bold>\<open>Theories.\<close>
  \<^item> \<open>TDB_Prelude\<close>: bytes, numerals, intervals of keys with a prefix, the locales \<open>byte_codec\<close>,
    \<open>fixed_codec\<close>, \<open>ordered_codec\<close> for encoders and \<open>transition_system\<close> for components that run as state
    machines; the fixed-width encodings and the machines below interpret them.
  \<^item> \<open>Errors\<close>: result codes, \<open>tdb_rc_to_ha\<close> and the retry template (\<open>tidesdb_retry.h\<close>).
  \<^item> \<open>Xid\<close> (\<open>tidesdb_xid.h\<close>), \<open>XA_Recover\<close>: the identifier codec, and collecting, handing out and resolving
    prepared transactions (\<open>ha_tidesdb.cc\<close>): recovery hands out every prepared transaction and ends, and
    what was prepared is there after a restart.
  \<^item> \<open>Engine\<close>, \<open>Cursor\<close>: the library's interface, its laws and the instance in memory.
  \<^item> \<open>Trx\<close>: \<open>tidesdb_trx_t\<close> and the handlerton's transaction callbacks. A connection is a machine of
    callbacks: the committed data changes only by whole transactions, reported outcomes are the real
    ones, a statement always joins a live transaction at the right isolation.
  \<^item> \<open>Row_Lock\<close>, \<open>Row_Lock_Deadlock\<close> (\<open>tidesdb_row_lock.cc\<close>): the lock table as an interleaving machine with
    one step per access to shared memory. Deadlocks are found, sleepers wait for somebody who runs, lists
    of held locks are exact. The walk has the source's bound on its length, and the theorem says for
    which cycles it is enough.
  \<^item> \<open>Schema\<close>, \<open>Key_Codec\<close>, \<open>Row_Codec\<close>, \<open>Master_Key\<close>: record layouts; comparable keys and their order,
    covering reads and condition pushdown; rows across schema changes; encryption and the key cache.
  \<^item> \<open>Hilbert\<close>, \<open>Spatial\<close> (\<open>tidesdb_spatial.cc\<close>): the curve, rectangles from WKB, entries and ranges. Doubles
    are their bit patterns.
  \<^item> \<open>Fts\<close>, \<open>Fts_Search\<close> (\<open>tidesdb_fts.cc\<close>, \<open>ft_*\<close> of the handler): tokenizer, query parser, counters, and
    searches, which return the documents the query describes. Scores are real numbers.
  \<^item> \<open>Handler\<close>: the table, session and handler records, \<open>external_lock\<close>, kept iterators, row fetch, the
    counters of the share; AUTO_INCREMENT as an interleaving machine.
  \<^item> \<open>Dml\<close>: \<open>write_row\<close>, \<open>update_row\<close>, \<open>delete_row\<close> and the bulk modes. \<open>Dml_Index\<close> shows what each index
    operation does to the entries, \<open>Dml_Refine\<close> that the row operations refine a map from keys to rows
    (\<open>table_sim\<close>: the data entries are the rows and every index holds exactly the entries they demand);
    \<open>Dml_Example\<close> runs them on a concrete table.
  \<^item> \<open>Scan\<close>: table scans, positioned reads, index lookups and scans, spatial scans. \<open>Scan_Refine\<close> and
    \<open>Scan_Index\<close> show on a store in step with a map of rows that a table scan and a secondary lookup return
    exactly the rows they should; \<open>Scan_Example\<close> runs them.
  \<^item> \<open>Cf_Names\<close>, \<open>Ddl\<close>, \<open>Atomic_Ddl\<close> (\<open>tidesdb_atomic_ddl.cc\<close>), \<open>Backup\<close>: names of column families; create,
    rename, drop and the reconciler; the dictionary bindings and the store of serialized dictionary
    information; where a backup may go.

  \<^bold>\<open>Bounds and loops.\<close> Loops over a list or a string are structural or have a measure (tokenizer, parser).
  Loops on an iterator (\<open>iter_read_current\<close>, \<open>icp_loop\<close>, \<open>skip_prefix\<close>, \<open>skip_meta_back\<close>,
  \<open>spatial_scan_next\<close>) are partial functions into option: an iterator of the library need not end, and
  the theorems on scans show that the calls return. \<open>rnd_rows\<close> and \<open>lookup_rows\<close> are the server's loops
  with a bound on the number of calls; the theorems ask for one more than the number of rows.

  \<^bold>\<open>What the theorems on rows assume.\<close> No mid-statement commit falls between the states compared; the
  calls whose result codes the code drops (deletes in full-text and spatial indexes) do not fail; key
  columns are not VARBINARY, whose encoding is not injective (\<open>varbinary_key_collision\<close>). The scan theorems
  are for tables without encryption and for iterators made in the statement.

  \<^bold>\<open>Not modelled.\<close> In-place ALTER (\<open>tidesdb_inplace_alter.cc\<close>): its decisions are over flags of the server
  and its index build works on the server's intermediate tables. Multi-range reads, cost estimates and
  statistics: they choose plans and do not change what a scan returns. Sampling of latencies
  (\<open>tidesdb_perf_ring.cc\<close>), system variables, SHOW STATUS, start-up, logging: no state of the engine
  depends on them. Portability shims and ownership of buffers: the models have no memory management.
  The JSON text of \<open>serialize_sdi\<close> and the dictionary stubs that only log. Freeing the lock table at
  unload.
\<close>

end
